(* ===== verification/Pollmux_Prelude.thy ===== *)
theory Pollmux_Prelude
  imports Main "HOL-Library.Word"
begin

text \<open>
  The vocabulary the component theories share: the machine types of the Go source, the
  errors its functions return, what a Go slice expression does (out of range it panics),
  big-endian integers as \<^verbatim>\<open>encoding/binary\<close> writes them, reachability in a transition
  system and the locale that turns an inductive invariant into a fact about every reachable
  state.
\<close>

section \<open>Machine types\<close>

type_synonym byte = "8 word"
type_synonym bytes = "8 word list"
type_synonym u32 = "32 word"
type_synonym u64 = "64 word"

text \<open>
  \<^verbatim>\<open>time.Duration\<close> and the difference of two \<^verbatim>\<open>time.Time\<close> values are counts of
  nanoseconds; an instant is a count of nanoseconds on one clock.
\<close>

type_synonym duration = int
type_synonym instant = int

section \<open>Errors\<close>

text \<open>
  One constructor for each error value the modelled functions can return. \<open>ErrNet\<close> stands
  for whatever the network reports other than a clean end of the stream. An operation that
  returns Go's \<^verbatim>\<open>error\<close> returns \<open>error option\<close> here (\<open>None\<close> is \<^verbatim>\<open>nil\<close>), one that
  returns a value and an error returns \<open>error + 'a\<close>.
\<close>

datatype error =
    EOF
  | ErrUnexpectedEOF
  | ErrNet
  | ErrClosedPipe
  | ErrPipeInterrupted
  | ErrReplayGap
  | ErrBadAck
  | ErrStillAttached
  | ErrDetached
  | ErrFrameTooLong
  | ErrAckPayload
  | ErrSeqPayload
  | ErrEmptyMessage
  | ErrHeaderCount
  | ErrSyntax
  | ErrRange
  | ErrBodyTooLarge
  | ErrTimeout
  | ErrCanceled
  | ErrStatus nat
  | ErrBatchBodyTimeout
  | ErrBatchTooLong
  | ErrEmptyBatch
  | ErrUnexpectedBody
  | ErrStreamEnd
  | ErrSessionGone
  | ErrUnknownFrame
  | ErrUnnumbered
  | ErrNotNegotiated
  | ErrWatchdog
  | ErrProtocolVersion
  | ErrUnauthorized
  | ErrRedirect
  | ErrBadResponse
  | ErrEmptySessionID
  | ErrBadConfig
  | ErrBadLimits
  | ErrPollInterval
  | ErrNotReplayable
  | ErrGraceExhausted

section \<open>Slices\<close>

text \<open>
  \<open>xs[n:]\<close> of the source. Go panics when \<open>n\<close> is past the length; the model returns
  \<open>None\<close> there, so that the absence of the panic is something to prove.
\<close>

definition slice_from :: "'a list \<Rightarrow> nat \<Rightarrow> 'a list option" where
  "slice_from xs n = (if n \<le> length xs then Some (drop n xs) else None)"

text \<open>The \<open>n\<close> elements of \<open>xs\<close> that start at position \<open>k\<close>.\<close>

definition segment :: "'a list \<Rightarrow> nat \<Rightarrow> nat \<Rightarrow> 'a list" where
  "segment xs k n = take n (drop k xs)"

section \<open>Big-endian integers\<close>

primrec be_bytes :: "nat \<Rightarrow> nat \<Rightarrow> bytes" where
  "be_bytes 0 n = []"
| "be_bytes (Suc k) n = be_bytes k (n div 256) @ [word_of_nat (n mod 256)]"

definition be_nat :: "bytes \<Rightarrow> nat" where
  "be_nat bs = foldl (\<lambda>acc b. acc * 256 + unat b) 0 bs"

definition PutUint32 :: "u32 \<Rightarrow> bytes" where
  "PutUint32 v = be_bytes 4 (unat v)"

definition Uint32 :: "bytes \<Rightarrow> u32" where
  "Uint32 b = word_of_nat (be_nat (take 4 b))"

definition PutUint64 :: "u64 \<Rightarrow> bytes" where
  "PutUint64 v = be_bytes 8 (unat v)"

definition Uint64 :: "bytes \<Rightarrow> u64" where
  "Uint64 b = word_of_nat (be_nat (take 8 b))"

section \<open>Reachable states\<close>

inductive reach :: "('s \<Rightarrow> bool) \<Rightarrow> ('s \<Rightarrow> 's \<Rightarrow> bool) \<Rightarrow> 's \<Rightarrow> bool"
  for init :: "'s \<Rightarrow> bool" and step :: "'s \<Rightarrow> 's \<Rightarrow> bool" where
  reach_init: "init s \<Longrightarrow> reach init step s"
| reach_step: "reach init step s \<Longrightarrow> step s t \<Longrightarrow> reach init step t"

text \<open>
  The contract of an inductive invariant: it holds at the start and every step keeps it.
  What a client gets is that it holds in every reachable state, and that it is kept along
  every run.
\<close>

locale inductive_invariant =
  fixes init :: "'s \<Rightarrow> bool"
    and step :: "'s \<Rightarrow> 's \<Rightarrow> bool"
    and inv :: "'s \<Rightarrow> bool"
  assumes inv_init: "init s \<Longrightarrow> inv s"
    and inv_step: "inv s \<Longrightarrow> step s t \<Longrightarrow> inv t"
begin

lemma reachable: "reach init step s \<Longrightarrow> inv s"
  by (induction rule: reach.induct) (auto intro: inv_init inv_step)

lemma along_run: "step\<^sup>*\<^sup>* s t \<Longrightarrow> inv s \<Longrightarrow> inv t"
  by (induction rule: rtranclp_induct) (auto intro: inv_step)

end

lemma reach_rtranclp: "reach init step s \<Longrightarrow> step\<^sup>*\<^sup>* s t \<Longrightarrow> reach init step t"
  by (rotate_tac 1, induction rule: rtranclp_induct) (auto intro: reach_step)

text \<open>
  A history of calls on a component that takes bytes in and hands bytes out; a call that does
  not return makes the history undefined. The contract of a byte queue is that no call loses,
  duplicates or reorders a byte; the same then holds of a history.
\<close>

fun run_calls :: "('c \<Rightarrow> 's \<Rightarrow> ('b list \<times> 'b list \<times> 's) option) \<Rightarrow> 'c list \<Rightarrow> 's
    \<Rightarrow> ('b list \<times> 'b list \<times> 's) option" where
  "run_calls call [] s = Some ([], [], s)"
| "run_calls call (c # cs) s =
     (case call c s of
        None \<Rightarrow> None
      | Some (i, out, s1) \<Rightarrow>
          (case run_calls call cs s1 of
             None \<Rightarrow> None
           | Some (is, outs, s2) \<Rightarrow> Some (i @ is, out @ outs, s2)))"

locale byte_queue =
  fixes content :: "'s \<Rightarrow> 'b list"
    and call :: "'c \<Rightarrow> 's \<Rightarrow> ('b list \<times> 'b list \<times> 's) option"
  assumes conserves: "call c s = Some (i, out, s') \<Longrightarrow> content s @ i = out @ content s'"
begin

lemma history: "run_calls call cs s = Some (i, out, s') \<Longrightarrow> content s @ i = out @ content s'"
proof (induction cs arbitrary: s i out)
  case (Cons c cs)
  then obtain i1 o1 s1 i2 o2 where parts: "call c s = Some (i1, o1, s1)"
      "run_calls call cs s1 = Some (i2, o2, s')" "i = i1 @ i2" "out = o1 @ o2"
    by (auto split: option.splits prod.splits)
  have "content s @ i1 = o1 @ content s1" "content s1 @ i2 = o2 @ content s'"
    using conserves [OF parts(1)] Cons.IH [OF parts(2)] by simp_all
  then show ?case by (metis parts(3,4) append_assoc)
qed simp

lemma empty_history:
  "run_calls call cs s = Some (i, out, s') \<Longrightarrow> content s = [] \<Longrightarrow> i = out @ content s'"
  using history by force

end

section \<open>Lemmas on words\<close>

lemma unat_byte_less: "unat (b :: byte) < 256"
  by (rule order_less_le_trans [OF unsigned_less]) simp

lemma unat_u32_less: "unat (w :: u32) < 2 ^ 32"
  by (rule order_less_le_trans [OF unsigned_less]) simp

lemma unat_u64_less: "unat (w :: u64) < 2 ^ 64"
  by (rule order_less_le_trans [OF unsigned_less]) simp

lemma unat_of_nat_u32: "n < 2 ^ 32 \<Longrightarrow> unat (word_of_nat n :: u32) = n"
  by (simp add: unat_of_nat)

lemma unat_of_nat_u64: "n < 2 ^ 64 \<Longrightarrow> unat (word_of_nat n :: u64) = n"
  by (simp add: unat_of_nat)

lemma unat_add_u64: "unat a + n < 2 ^ 64 \<Longrightarrow> unat (a + word_of_nat n :: u64) = unat a + n"
  by (simp add: unat_word_ariths unat_of_nat)

lemma unat_diff_u64: "b \<le> a \<Longrightarrow> unat (a - b :: u64) = unat a - unat b"
  by (simp add: unat_sub_if' word_le_nat_alt)

section \<open>Lemmas on big-endian integers\<close>

lemma length_be_bytes [simp]: "length (be_bytes k n) = k"
  by (induction k arbitrary: n) auto

lemma be_bytes_numeral:
  "be_bytes (numeral k) n = be_bytes (pred_numeral k) (n div 256) @ [word_of_nat (n mod 256)]"
  by (simp only: numeral_eq_Suc [of k] be_bytes.simps)

lemma be_nat_Nil [simp]: "be_nat [] = 0"
  by (simp add: be_nat_def)

lemma be_nat_snoc [simp]: "be_nat (bs @ [b]) = be_nat bs * 256 + unat b"
  by (simp add: be_nat_def)

lemma be_nat_be_bytes: "be_nat (be_bytes k n) = n mod 256 ^ k"
proof (induction k arbitrary: n)
  case 0
  show ?case by simp
next
  case (Suc k)
  have "n mod 256 ^ Suc k = 256 * (n div 256 mod 256 ^ k) + n mod 256"
    by (metis mod_mult2_eq power_Suc)
  then show ?case by (simp add: Suc unat_of_nat)
qed

lemma be_nat_less: "be_nat bs < 256 ^ length bs"
proof (induction bs rule: rev_induct)
  case Nil
  show ?case by simp
next
  case (snoc b bs)
  with snoc unat_byte_less [of b] show ?case by simp
qed

lemma be_bytes_be_nat: "be_bytes (length bs) (be_nat bs) = bs"
proof (induction bs rule: rev_induct)
  case Nil
  show ?case by simp
next
  case (snoc b bs)
  with snoc unat_byte_less [of b] show ?case by simp
qed

text \<open>
  The contract of a fixed-width binary codec: encoding always gives \<open>width\<close> bytes, decoding
  looks at exactly those and gets the value back, and every run of \<open>width\<close> bytes is the
  encoding of what it decodes to. A client that puts such a field in front of a payload
  can take the two apart again.
\<close>

locale fixed_codec =
  fixes width :: nat
    and enc :: "'v \<Rightarrow> bytes"
    and dec :: "bytes \<Rightarrow> 'v"
  assumes enc_length: "length (enc v) = width"
    and dec_enc: "dec (enc v @ rest) = v"
    and enc_dec: "length bs = width \<Longrightarrow> enc (dec bs) = bs"
begin

lemma dec_enc_exact: "dec (enc v) = v"
  using dec_enc [of v "[]"] by simp

lemma drop_enc: "drop width (enc v @ rest) = rest"
  by (simp add: enc_length)

lemma take_enc: "take width (enc v @ rest) = enc v"
  by (simp add: enc_length)

lemma enc_inject: "enc v = enc w \<longleftrightarrow> v = w"
  using dec_enc_exact by metis

end

interpretation be32: fixed_codec 4 PutUint32 Uint32
proof unfold_locales
  fix v :: u32 and rest bs :: bytes
  show "length (PutUint32 v) = 4" by (simp add: PutUint32_def)
  have "unat v < 256 ^ 4" using unat_u32_less [of v] by simp
  then show "Uint32 (PutUint32 v @ rest) = v"
    by (simp add: PutUint32_def Uint32_def be_nat_be_bytes)
  assume l: "length bs = 4"
  then have "be_nat bs < 2 ^ 32" using be_nat_less [of bs] by simp
  with l show "PutUint32 (Uint32 bs) = bs"
    using be_bytes_be_nat [of bs] by (simp add: PutUint32_def Uint32_def unat_of_nat_u32)
qed

interpretation be64: fixed_codec 8 PutUint64 Uint64
proof unfold_locales
  fix v :: u64 and rest bs :: bytes
  show "length (PutUint64 v) = 8" by (simp add: PutUint64_def)
  have "unat v < 256 ^ 8" using unat_u64_less [of v] by simp
  then show "Uint64 (PutUint64 v @ rest) = v"
    by (simp add: PutUint64_def Uint64_def be_nat_be_bytes)
  assume l: "length bs = 8"
  then have "be_nat bs < 2 ^ 64" using be_nat_less [of bs] by simp
  with l show "PutUint64 (Uint64 bs) = bs"
    using be_bytes_be_nat [of bs] by (simp add: PutUint64_def Uint64_def unat_of_nat_u64)
qed

section \<open>Lemmas on segments\<close>

lemma slice_from_Some [simp]: "n \<le> length xs \<Longrightarrow> slice_from xs n = Some (drop n xs)"
  by (simp add: slice_from_def)

lemma segment_append_left: "k + n \<le> length xs \<Longrightarrow> segment (xs @ ys) k n = segment xs k n"
  by (simp add: segment_def)

lemma length_segment: "k + n \<le> length xs \<Longrightarrow> length (segment xs k n) = n"
  by (simp add: segment_def)

lemma drop_segment: "drop i (segment xs k n) = segment xs (k + i) (n - i)"
  by (simp add: segment_def drop_take add.commute)

lemma take_append_segment: "take k xs @ segment xs k n = take (k + n) xs"
  by (simp add: segment_def take_add)

lemma segment_self: "segment xs 0 (length xs) = xs"
  by (simp add: segment_def)

end
