(* ===== verification/Pipe.thy ===== *)
theory Pipe
  imports Pollmux_Prelude
begin

text \<open>
  \<^verbatim>\<open>pipe.go\<close>: the in-memory pipe between an HTTP handler and the yamux session. The
  operations that hold the lock from start to end (\<open>Write\<close>, \<open>interrupt\<close>, \<open>Close\<close>, the
  accessors) are functions on the pipe. The two that wait on the condition variable (\<open>Read\<close>,
  \<open>ReadAvailable\<close>) also take a schedule: the batches of events that other goroutines and
  the timer perform while the caller sleeps in one call of \<^verbatim>\<open>cond.Wait\<close>, in the order in
  which they get the lock. A call that is still asleep when the schedule is used up has not
  returned: the result is \<open>None\<close>.

  The lemmas show the pipe is a first-in first-out byte queue whatever the schedule, that a
  timer always ends the wait, which outcome each state leads to, that no interrupt is lost,
  and that the high-water mark and its one-shot warning are right.
\<close>

section \<open>The pipe\<close>

text \<open>\<open>p_logger\<close> says whether a logger is set; \<open>p_threshold\<close> is \<^verbatim>\<open>warnThreshold\<close>.\<close>

record pipe =
  p_buf :: bytes
  p_closed :: bool
  p_hiWater :: nat
  p_threshold :: int
  p_warned :: bool
  p_logger :: bool
  p_intr :: bool

text \<open>What \<open>Write\<close> logs: the buffered byte count and the threshold.\<close>

datatype pipe_log = HighWaterWarning nat int

definition NewBufferedPipe :: pipe where
  "NewBufferedPipe =
     \<lparr>p_buf = [], p_closed = False, p_hiWater = 0, p_threshold = 0, p_warned = False,
      p_logger = False, p_intr = False\<rparr>"

definition WatchHighWater :: "pipe \<Rightarrow> int \<Rightarrow> bool \<Rightarrow> pipe" where
  "WatchHighWater p threshold logger = p\<lparr>p_threshold := threshold, p_logger := logger\<rparr>"

definition HiWater :: "pipe \<Rightarrow> nat" where
  "HiWater p = p_hiWater p"

definition Buffered :: "pipe \<Rightarrow> nat" where
  "Buffered p = length (p_buf p)"

definition Write :: "pipe \<Rightarrow> bytes \<Rightarrow> (error + nat) \<times> pipe_log list \<times> pipe" where
  "Write p data =
     (if p_closed p then (Inl ErrClosedPipe, [], p)
      else
        let p1 = p\<lparr>p_buf := p_buf p @ data\<rparr>;
            n = length (p_buf p1);
            warn = (n > p_hiWater p1 \<and> p_threshold p1 > 0 \<and> \<not> p_warned p1 \<and> int n \<ge> p_threshold p1);
            p2 = (if n > p_hiWater p1
                  then p1\<lparr>p_hiWater := n, p_warned := p_warned p1 \<or> warn\<rparr> else p1)
        in (Inr (length data),
            if warn \<and> p_logger p2 then [HighWaterWarning (p_hiWater p2) (p_threshold p2)] else [],
            p2))"

definition interrupt :: "pipe \<Rightarrow> pipe" where
  "interrupt p = p\<lparr>p_intr := True\<rparr>"

definition Close :: "pipe \<Rightarrow> pipe" where
  "Close p = p\<lparr>p_closed := True\<rparr>"

section \<open>Waiting\<close>

text \<open>
  What can happen to the pipe while a caller waits: another goroutine writes, closes or
  interrupts it, or the caller's own timer fires (\<^verbatim>\<open>timedOut = true\<close>). The flag is the
  caller's local variable, so the events act on the pair of the pipe and that flag.
\<close>

datatype pipe_event = EvWrite bytes | EvClose | EvInterrupt | EvTimer

fun run_event :: "pipe_event \<Rightarrow> pipe \<times> bool \<Rightarrow> pipe \<times> bool" where
  "run_event (EvWrite d) (p, to) = (snd (snd (Write p d)), to)"
| "run_event EvClose (p, to) = (Close p, to)"
| "run_event EvInterrupt (p, to) = (interrupt p, to)"
| "run_event EvTimer (p, to) = (p, True)"

definition run_events :: "pipe_event list \<Rightarrow> pipe \<times> bool \<Rightarrow> pipe \<times> bool" where
  "run_events evs = fold run_event evs"

type_synonym schedule = "pipe_event list list"

text \<open>\<^verbatim>\<open>for cond { p.cond.Wait() }\<close>: each turn sleeps through one batch.\<close>

fun wait_while :: "(pipe \<times> bool \<Rightarrow> bool) \<Rightarrow> pipe \<times> bool \<Rightarrow> schedule \<Rightarrow> (pipe \<times> schedule) option" where
  "wait_while cond st [] = (if cond st then None else Some (fst st, []))"
| "wait_while cond st (evs # sch) =
     (if cond st then wait_while cond (run_events evs st) sch else Some (fst st, evs # sch))"

text \<open>\<^verbatim>\<open>n := copy(dst, p.buf); p.buf = p.buf[n:]\<close> for a \<open>dst\<close> of length \<open>cap\<close>.\<close>

definition take_out :: "nat \<Rightarrow> pipe \<Rightarrow> bytes \<times> pipe" where
  "take_out cap p = (take cap (p_buf p), p\<lparr>p_buf := drop cap (p_buf p)\<rparr>)"

definition Read :: "nat \<Rightarrow> pipe \<Rightarrow> schedule \<Rightarrow> ((error + bytes) \<times> pipe \<times> schedule) option" where
  "Read cap p sch =
     (case wait_while (\<lambda>(p, _). p_buf p = [] \<and> \<not> p_closed p) (p, False) sch of
        None \<Rightarrow> None
      | Some (p1, sch1) \<Rightarrow>
          if p_buf p1 = [] then Some (Inl EOF, p1, sch1)
          else Some (Inr (fst (take_out cap p1)), snd (take_out cap p1), sch1))"

definition phase1_waits :: "pipe \<times> bool \<Rightarrow> bool" where
  "phase1_waits st = (case st of (p, timedOut) \<Rightarrow>
     p_buf p = [] \<and> \<not> p_closed p \<and> \<not> timedOut \<and> \<not> p_intr p)"

definition phase2_waits :: "nat \<Rightarrow> pipe \<times> bool \<Rightarrow> bool" where
  "phase2_waits cap st = (case st of (p, timedOut) \<Rightarrow>
     length (p_buf p) < cap \<and> \<not> p_closed p \<and> \<not> timedOut \<and> \<not> p_intr p)"

text \<open>Phase 2: at least one byte is there; let more accumulate, then copy.\<close>

definition coalesce :: "nat \<Rightarrow> pipe \<Rightarrow> schedule \<Rightarrow> ((error + bytes) \<times> pipe \<times> schedule) option" where
  "coalesce cap p sch =
     (case (if length (p_buf p) < cap \<and> \<not> p_closed p \<and> \<not> p_intr p
            then wait_while (phase2_waits cap) (p, False) sch else Some (p, sch)) of
        None \<Rightarrow> None
      | Some (p1, sch1) \<Rightarrow> Some (Inr (fst (take_out cap p1)), snd (take_out cap p1), sch1))"

text \<open>
  The length of the waits is not in the model: a timer fires when the schedule says so. An
  empty result stands for \<^verbatim>\<open>(0, nil)\<close>.
\<close>

definition ReadAvailable :: "nat \<Rightarrow> pipe \<Rightarrow> schedule \<Rightarrow> ((error + bytes) \<times> pipe \<times> schedule) option" where
  "ReadAvailable cap p sch =
     (if p_intr p then Some (Inl ErrPipeInterrupted, p\<lparr>p_intr := False\<rparr>, sch)
      else if p_buf p = [] then
        if p_closed p then Some (Inl EOF, p, sch)
        else case wait_while phase1_waits (p, False) sch of
               None \<Rightarrow> None
             | Some (p1, sch1) \<Rightarrow>
                 if p_buf p1 = [] then
                   if p_closed p1 then Some (Inl EOF, p1, sch1)
                   else if p_intr p1 then Some (Inl ErrPipeInterrupted, p1\<lparr>p_intr := False\<rparr>, sch1)
                   else Some (Inr [], p1, sch1)
                 else coalesce cap p1 sch1
      else coalesce cap p sch)"

section \<open>What the events of a schedule put into the pipe\<close>

text \<open>
  The bytes the events add when they act on a pipe: a write to a closed pipe adds nothing.
  \<open>written_by\<close> is the specification the first-in first-out lemmas compare with.
\<close>

fun written_by :: "bool \<Rightarrow> pipe_event list \<Rightarrow> bytes" where
  "written_by cl [] = []"
| "written_by cl (EvWrite d # evs) = (if cl then [] else d) @ written_by cl evs"
| "written_by cl (EvClose # evs) = written_by True evs"
| "written_by cl (_ # evs) = written_by cl evs"

section \<open>Histories of calls\<close>

text \<open>
  A history of complete calls on one pipe. For each call: what it accepted into the pipe (its
  own data and what other goroutines wrote while it slept), what it handed out, and the pipe
  after it. \<open>None\<close> when a call never returns.
\<close>

datatype pipe_call =
    CallWrite bytes
  | CallClose
  | CallInterrupt
  | CallRead nat schedule
  | CallReadAvailable nat schedule

definition slept :: "schedule \<Rightarrow> schedule \<Rightarrow> pipe_event list" where
  "slept sch sch' = concat (take (length sch - length sch') sch)"

fun do_call :: "pipe_call \<Rightarrow> pipe \<Rightarrow> (bytes \<times> bytes \<times> pipe) option" where
  "do_call (CallWrite d) p = Some (if p_closed p then [] else d, [], snd (snd (Write p d)))"
| "do_call CallClose p = Some ([], [], Close p)"
| "do_call CallInterrupt p = Some ([], [], interrupt p)"
| "do_call (CallRead cap sch) p =
     (case Read cap p sch of
        None \<Rightarrow> None
      | Some (res, p', sch') \<Rightarrow>
          Some (written_by (p_closed p) (slept sch sch'), case res of Inl _ \<Rightarrow> [] | Inr d \<Rightarrow> d, p'))"
| "do_call (CallReadAvailable cap sch) p =
     (case ReadAvailable cap p sch of
        None \<Rightarrow> None
      | Some (res, p', sch') \<Rightarrow>
          Some (written_by (p_closed p) (slept sch sch'), case res of Inl _ \<Rightarrow> [] | Inr d \<Rightarrow> d, p'))"

text \<open>A history of actions that each hold the lock once, with what they log.\<close>

datatype pipe_act = ActWrite bytes | ActTake nat | ActClose | ActInterrupt | ActConsumeInterrupt

fun do_act :: "pipe_act \<Rightarrow> pipe \<Rightarrow> pipe_log list \<times> pipe" where
  "do_act (ActWrite d) p = snd (Write p d)"
| "do_act (ActTake n) p = ([], snd (take_out n p))"
| "do_act ActClose p = ([], Close p)"
| "do_act ActInterrupt p = ([], interrupt p)"
| "do_act ActConsumeInterrupt p = ([], p\<lparr>p_intr := False\<rparr>)"

text \<open>How many bytes are buffered after each action.\<close>

fun levels :: "pipe_act list \<Rightarrow> pipe \<Rightarrow> nat list" where
  "levels [] p = []"
| "levels (a # as) p = Buffered (snd (do_act a p)) # levels as (snd (do_act a p))"

fun do_acts :: "pipe_act list \<Rightarrow> pipe \<Rightarrow> pipe_log list \<times> pipe" where
  "do_acts [] p = ([], p)"
| "do_acts (a # as) p =
     (case do_act a p of (l, p1) \<Rightarrow> case do_acts as p1 of (ls, p2) \<Rightarrow> (l @ ls, p2))"

section \<open>Lemmas on single operations\<close>

lemma Write_closed [simp]: "p_closed p \<Longrightarrow> Write p d = (Inl ErrClosedPipe, [], p)"
  by (simp add: Write_def)

lemma Write_buf: "p_buf (snd (snd (Write p d))) = p_buf p @ (if p_closed p then [] else d)"
  by (simp add: Write_def Let_def)

lemma Write_frame [simp]:
  "p_closed (snd (snd (Write p d))) = p_closed p"
  "p_intr (snd (snd (Write p d))) = p_intr p"
  "p_threshold (snd (snd (Write p d))) = p_threshold p"
  "p_logger (snd (snd (Write p d))) = p_logger p"
  by (simp_all add: Write_def Let_def)

lemma Write_result:
  "fst (Write p d) = (if p_closed p then Inl ErrClosedPipe else Inr (length d))"
  by (simp add: Write_def Let_def)

lemma Close_simps [simp]:
  "p_buf (Close p) = p_buf p" "p_closed (Close p)" "p_intr (Close p) = p_intr p"
  "p_hiWater (Close p) = p_hiWater p" "p_warned (Close p) = p_warned p"
  "p_threshold (Close p) = p_threshold p" "p_logger (Close p) = p_logger p"
  by (simp_all add: Close_def)

lemma interrupt_simps [simp]:
  "p_buf (interrupt p) = p_buf p" "p_closed (interrupt p) = p_closed p" "p_intr (interrupt p)"
  "p_hiWater (interrupt p) = p_hiWater p" "p_warned (interrupt p) = p_warned p"
  "p_threshold (interrupt p) = p_threshold p" "p_logger (interrupt p) = p_logger p"
  by (simp_all add: interrupt_def)

section \<open>Lemmas on waits\<close>

lemma run_events_simps [simp]:
  "run_events [] st = st" "run_events (e # evs) st = run_events evs (run_event e st)"
  by (simp_all add: run_events_def)

lemma run_events_append: "run_events (xs @ ys) st = run_events ys (run_events xs st)"
  by (simp add: run_events_def)

lemma run_events_effect:
  "p_buf (fst (run_events evs st)) = p_buf (fst st) @ written_by (p_closed (fst st)) evs"
  "p_closed (fst (run_events evs st)) \<longleftrightarrow> p_closed (fst st) \<or> EvClose \<in> set evs"
  "p_intr (fst (run_events evs st)) \<longleftrightarrow> p_intr (fst st) \<or> EvInterrupt \<in> set evs"
  "snd (run_events evs st) \<longleftrightarrow> snd st \<or> EvTimer \<in> set evs"
proof (induction evs arbitrary: st)
  case (Cons e evs)
  {
    case 1 show ?case using Cons(1) [of "run_event e st"]
      by (cases e; cases st) (auto simp: Write_buf)
  next
    case 2 show ?case using Cons(2) [of "run_event e st"] by (cases e; cases st) auto
  next
    case 3 show ?case using Cons(3) [of "run_event e st"] by (cases e; cases st) auto
  next
    case 4 show ?case using Cons(4) [of "run_event e st"] by (cases e; cases st) auto
  }
qed auto

lemma written_by_append:
  "written_by cl (xs @ ys) = written_by cl xs @ written_by (cl \<or> EvClose \<in> set xs) ys"
  by (induction cl xs rule: written_by.induct) auto

text \<open>A wait that returns slept through a prefix of the schedule and stopped where its condition is false.\<close>

lemma wait_while_Some:
  "wait_while cond st sch = Some (p', sch') \<Longrightarrow>
     \<exists>used. sch = used @ sch' \<and> p' = fst (run_events (concat used) st) \<and> \<not> cond (run_events (concat used) st)"
proof (induction sch arbitrary: st)
  case Nil
  then show ?case by (auto split: if_splits)
next
  case (Cons evs sch)
  show ?case
  proof (cases "cond st")
    case True
    then obtain used where "sch = used @ sch'" "p' = fst (run_events (concat used) (run_events evs st))"
      "\<not> cond (run_events (concat used) (run_events evs st))"
      using Cons.IH [of "run_events evs st"] Cons.prems by auto
    then show ?thesis by (intro exI [of _ "evs # used"]) (simp add: run_events_append)
  next
    case False
    with Cons.prems show ?thesis by (intro exI [of _ "[]"]) auto
  qed
qed

lemma wait_while_extend:
  "wait_while cond st s1 = Some (p', s1') \<Longrightarrow> wait_while cond st (s1 @ s2) = Some (p', s1' @ s2)"
proof (induction s1 arbitrary: st)
  case Nil
  then show ?case by (cases s2) (auto split: if_splits)
next
  case (Cons evs s1)
  then show ?case by (auto split: if_splits)
qed

text \<open>A wait whose condition is false once the timer has fired returns when a batch has the timer in it.\<close>

lemma wait_while_returns:
  assumes "\<And>p. \<not> cond (p, True)" and "EvTimer \<in> set (concat sch)"
  shows "\<exists>r. wait_while cond st sch = Some r"
  using assms(2)
proof (induction sch arbitrary: st)
  case (Cons evs sch)
  show ?case
  proof (cases "EvTimer \<in> set evs")
    case True
    then have "\<not> cond (run_events evs st)"
      using assms(1) run_events_effect(4) [of evs st] by (metis prod.collapse)
    then show ?thesis by (cases sch) auto
  next
    case False
    with Cons show ?thesis by auto
  qed
qed simp

lemma take_out_simps [simp]:
  "fst (take_out n p) = take n (p_buf p)" "p_buf (snd (take_out n p)) = drop n (p_buf p)"
  "p_closed (snd (take_out n p)) = p_closed p" "p_intr (snd (take_out n p)) = p_intr p"
  "p_hiWater (snd (take_out n p)) = p_hiWater p" "p_warned (snd (take_out n p)) = p_warned p"
  "p_threshold (snd (take_out n p)) = p_threshold p" "p_logger (snd (take_out n p)) = p_logger p"
  by (simp_all add: take_out_def)

text \<open>
  The outcome of a wait in terms of the events it slept through: the pipe after them, and
  which of the exit conditions holds.
\<close>

definition after :: "pipe_event list \<Rightarrow> pipe \<Rightarrow> pipe" where
  "after evs p = fst (run_events evs (p, False))"

lemma after_simps [simp]:
  "p_buf (after evs p) = p_buf p @ written_by (p_closed p) evs"
  "p_closed (after evs p) \<longleftrightarrow> p_closed p \<or> EvClose \<in> set evs"
  "p_intr (after evs p) \<longleftrightarrow> p_intr p \<or> EvInterrupt \<in> set evs"
  using run_events_effect [of evs "(p, False)"] by (simp_all add: after_def)

lemma after_append: "after (xs @ ys) p = after ys (after xs p)"
proof -
  have "fst (run_events evs (q, a)) = fst (run_events evs (q, b))" for evs q a b
  proof (induction evs arbitrary: q a b)
    case (Cons e evs)
    then show ?case by (cases e) auto
  qed simp
  then show ?thesis by (metis after_def prod.collapse run_events_append)
qed

lemma after_Nil [simp]: "after [] p = p"
  by (simp add: after_def)

lemma wait_while_after:
  assumes "wait_while cond (p, False) sch = Some (p', sch')"
  obtains used where "sch = used @ sch'" and "p' = after (concat used) p"
    and "\<not> cond (p', EvTimer \<in> set (concat used))"
proof -
  obtain used where used: "sch = used @ sch'" "p' = fst (run_events (concat used) (p, False))"
      "\<not> cond (run_events (concat used) (p, False))"
    using wait_while_Some [OF assms] by blast
  moreover have "run_events (concat used) (p, False) = (p', EvTimer \<in> set (concat used))"
    using run_events_effect(4) [of "concat used" "(p, False)"] used(2) by (intro prod_eqI) simp_all
  ultimately show thesis by (intro that [of used]) (simp_all only: after_def not_False_eq_True)
qed

lemma slept_append [simp]: "slept (used @ sch') sch' = concat used"
  by (simp add: slept_def)

lemma slept_self [simp]: "slept sch sch = []"
  by (simp add: slept_def)

lemma coalesce_Some:
  assumes "coalesce cap p sch = Some (res, p', sch')"
  obtains used where "sch = used @ sch'"
    and "res = Inr (take cap (p_buf (after (concat used) p)))"
    and "p' = snd (take_out cap (after (concat used) p))"
proof -
  consider (stay) "\<not> (length (p_buf p) < cap \<and> \<not> p_closed p \<and> \<not> p_intr p)"
    | (wait) p1 sch1 where "length (p_buf p) < cap \<and> \<not> p_closed p \<and> \<not> p_intr p"
        "wait_while (phase2_waits cap) (p, False) sch = Some (p1, sch1)"
    using assms
    by (cases "length (p_buf p) < cap \<and> \<not> p_closed p \<and> \<not> p_intr p")
      (auto simp: coalesce_def split: option.splits)
  then show thesis
  proof cases
    case stay
    then show ?thesis using assms by (intro that [of "[]"]) (auto simp: coalesce_def)
  next
    case wait
    obtain used where "sch = used @ sch1" "p1 = after (concat used) p"
      using wait_while_after [OF wait(2)] by blast
    with wait assms show ?thesis by (intro that [of used]) (auto simp: coalesce_def)
  qed
qed

lemma coalesce_returns:
  assumes "EvTimer \<in> set (concat sch)"
  shows "\<exists>r. coalesce cap p sch = Some r"
proof -
  obtain p1 sch1 where "wait_while (phase2_waits cap) (p, False) sch = Some (p1, sch1)"
    using wait_while_returns [OF _ assms, of "phase2_waits cap" "(p, False)"]
    by (auto simp: phase2_waits_def)
  then show ?thesis by (simp add: coalesce_def)
qed

text \<open>
  Everything \<open>ReadAvailable\<close> can do: what it slept through, and the outcome in terms of the
  pipe at that moment.
\<close>

text \<open>The first wait: the events it slept through, and the decision after it.\<close>

lemma ReadAvailable_waited:
  assumes "ReadAvailable cap p sch = Some (res, p', sch')" and "\<not> p_intr p" and "p_buf p = []" and "\<not> p_closed p"
  obtains used sch1 p1 where "sch = used @ sch1" "p1 = after (concat used) p" "\<not> phase1_waits (p1, EvTimer \<in> set (concat used))"
    "(if p_buf p1 = [] then
        if p_closed p1 then Some (Inl EOF, p1, sch1)
        else if p_intr p1 then Some (Inl ErrPipeInterrupted, p1\<lparr>p_intr := False\<rparr>, sch1)
        else Some (Inr [], p1, sch1)
      else coalesce cap p1 sch1) = Some (res, p', sch')"
proof -
  obtain p1 sch1 where wait: "wait_while phase1_waits (p, False) sch = Some (p1, sch1)"
    using assms by (auto simp: ReadAvailable_def split: option.splits)
  obtain used where used: "sch = used @ sch1" "p1 = after (concat used) p" "\<not> phase1_waits (p1, EvTimer \<in> set (concat used))"
    using wait_while_after [OF wait] by blast
  show thesis by (rule that [OF used]) (use assms wait in \<open>simp add: ReadAvailable_def\<close>)
qed

lemma ReadAvailable_cases:
  assumes "ReadAvailable cap p sch = Some (res, p', sch')"
  obtains (intr) "p_intr p" "res = Inl ErrPipeInterrupted" "p' = p\<lparr>p_intr := False\<rparr>" "sch' = sch"
  | (data) used where "\<not> p_intr p" "sch = used @ sch'" "p_buf (after (concat used) p) \<noteq> []"
      "res = Inr (take cap (p_buf (after (concat used) p)))" "p' = snd (take_out cap (after (concat used) p))"
  | (eof) used where "\<not> p_intr p" "sch = used @ sch'" "p_buf (after (concat used) p) = []"
      "p_closed p'" "res = Inl EOF" "p' = after (concat used) p"
  | (intr_wait) used where "\<not> p_intr p" "sch = used @ sch'" "p_buf (after (concat used) p) = []"
      "\<not> p_closed p'" "p_intr (after (concat used) p)" "res = Inl ErrPipeInterrupted"
      "p' = (after (concat used) p)\<lparr>p_intr := False\<rparr>"
  | (timeout) used where "\<not> p_intr p" "sch = used @ sch'" "p_buf (after (concat used) p) = []"
      "\<not> p_closed p'" "\<not> p_intr p'" "EvTimer \<in> set (concat used)" "res = Inr []" "p' = after (concat used) p"
proof -
  consider (i) "p_intr p" | (b) "\<not> p_intr p" "p_buf p \<noteq> []" | (c) "\<not> p_intr p" "p_buf p = []" "p_closed p"
    | (w) "\<not> p_intr p" "p_buf p = []" "\<not> p_closed p" by blast
  then show thesis
  proof cases
    case i
    with assms show ?thesis by (intro intr) (auto simp: ReadAvailable_def)
  next
    case b
    then have "coalesce cap p sch = Some (res, p', sch')"
      using assms by (simp add: ReadAvailable_def)
    then obtain used where used: "sch = used @ sch'" "res = Inr (take cap (p_buf (after (concat used) p)))"
        "p' = snd (take_out cap (after (concat used) p))"
      by (rule coalesce_Some)
    from b have "p_buf (after (concat used) p) \<noteq> []" by simp
    with b(1) used show ?thesis by (intro data [of used])
  next
    case c
    with assms show ?thesis by (intro eof [of "[]"]) (auto simp: ReadAvailable_def)
  next
    case w
    obtain used sch1 p1 where used: "sch = used @ sch1" "p1 = after (concat used) p" "\<not> phase1_waits (p1, EvTimer \<in> set (concat used))"
      and eq: "(if p_buf p1 = [] then
          if p_closed p1 then Some (Inl EOF, p1, sch1)
          else if p_intr p1 then Some (Inl ErrPipeInterrupted, p1\<lparr>p_intr := False\<rparr>, sch1)
          else Some (Inr [], p1, sch1)
        else coalesce cap p1 sch1) = Some (res, p', sch')"
      by (rule ReadAvailable_waited [OF assms w])
    consider (e) "p_buf p1 = []" "p_closed p1" | (n) "p_buf p1 = []" "\<not> p_closed p1" "p_intr p1"
      | (t) "p_buf p1 = []" "\<not> p_closed p1" "\<not> p_intr p1" | (d) "p_buf p1 \<noteq> []" by blast
    then show ?thesis
    proof cases
      case e
      then have "res = Inl EOF" "p' = p1" "sch' = sch1" using eq by auto
      with w(1) used e show ?thesis by (intro eof [of used]) (simp_all only: not_False_eq_True)
    next
      case n
      then have "res = Inl ErrPipeInterrupted" "p' = p1\<lparr>p_intr := False\<rparr>" "sch' = sch1" using eq by auto
      moreover from this n have "\<not> p_closed p'" by simp
      ultimately show ?thesis using w(1) used(1,2) n by (intro intr_wait [of used]) (simp_all only: not_False_eq_True)
    next
      case t
      then have "res = Inr []" "p' = p1" "sch' = sch1" using eq by auto
      moreover have "EvTimer \<in> set (concat used)" using used(3) t by (simp add: phase1_waits_def)
      ultimately show ?thesis using w(1) used(1,2) t by (intro timeout [of used]) (simp_all only: not_False_eq_True)
    next
      case d
      then have "coalesce cap p1 sch1 = Some (res, p', sch')" using eq by simp
      then obtain used2 where "sch1 = used2 @ sch'" "res = Inr (take cap (p_buf (after (concat used2) p1)))"
          "p' = snd (take_out cap (after (concat used2) p1))"
        by (rule coalesce_Some)
      moreover have "after (concat (used @ used2)) p = after (concat used2) p1"
        using used(2) by (simp add: after_append)
      moreover have "p_buf (after (concat used2) p1) \<noteq> []" using d by simp
      ultimately show ?thesis using w(1) used(1)
        by (intro data [of "used @ used2"]) (simp_all only: append_assoc not_False_eq_True)
    qed
  qed
qed

lemma ReadAvailable_slept:
  assumes "ReadAvailable cap p sch = Some (res, p', sch')"
  shows "p_buf p @ written_by (p_closed p) (slept sch sch') =
           (case res of Inl _ \<Rightarrow> [] | Inr d \<Rightarrow> d) @ p_buf p'"
    and "p_closed p' \<longleftrightarrow> p_closed p \<or> EvClose \<in> set (slept sch sch')"
    and "p_intr p' \<or> res = Inl ErrPipeInterrupted \<longleftrightarrow> p_intr p \<or> EvInterrupt \<in> set (slept sch sch')"
  subgoal using assms by (cases rule: ReadAvailable_cases) (simp_all del: take_append drop_append)
  subgoal using assms by (cases rule: ReadAvailable_cases) simp_all
  subgoal using assms by (cases rule: ReadAvailable_cases) simp_all
  done

lemma ReadAvailable_outcome_length:
  assumes "ReadAvailable cap p sch = Some (res, p', sch')" and "res = Inr d"
  shows "length d \<le> cap"
  using assms by (cases rule: ReadAvailable_cases) (auto simp del: take_append)

lemma Read_slept:
  assumes "Read cap p sch = Some (res, p', sch')"
  shows "p_buf p @ written_by (p_closed p) (slept sch sch') =
           (case res of Inl _ \<Rightarrow> [] | Inr d \<Rightarrow> d) @ p_buf p'"
proof -
  obtain p1 where wait: "wait_while (\<lambda>(p, _). p_buf p = [] \<and> \<not> p_closed p) (p, False) sch = Some (p1, sch')"
    using assms by (auto simp: Read_def split: option.splits if_splits)
  obtain used where "sch = used @ sch'" "p1 = after (concat used) p"
    using wait_while_after [OF wait] by blast
  moreover have "(res = Inl EOF \<and> p' = p1 \<and> p_buf p1 = []) \<or>
      (res = Inr (take cap (p_buf p1)) \<and> p' = snd (take_out cap p1))"
    using assms wait by (auto simp: Read_def split: if_splits)
  ultimately show ?thesis by (auto simp del: take_append drop_append)
qed

interpretation pipe_queue: byte_queue p_buf do_call
proof
  fix c p i out p'
  assume call: "do_call c p = Some (i, out, p')"
  show "p_buf p @ i = out @ p_buf p'"
  proof (cases c)
    case (CallRead cap sch)
    with call show ?thesis using Read_slept [of cap p sch] by (auto split: option.splits)
  next
    case (CallReadAvailable cap sch)
    with call show ?thesis using ReadAvailable_slept(1) [of cap p sch] by (auto split: option.splits)
  qed (use call in \<open>auto simp: Write_buf\<close>)
qed

lemma do_act_hiWater:
  assumes "Buffered p \<le> p_hiWater p"
  shows "p_hiWater (snd (do_act a p)) = max (p_hiWater p) (Buffered (snd (do_act a p)))"
  using assms by (cases a) (auto simp: Buffered_def Write_def Let_def)

text \<open>
  One-shot warning, as a relation between the pipe before, the log and the pipe after: the flag
  says whether the mark has passed the threshold, and the log has an entry exactly when the
  flag was raised.
\<close>

definition warns_once :: "int \<Rightarrow> pipe \<Rightarrow> pipe_log list \<Rightarrow> pipe \<Rightarrow> bool" where
  "warns_once t p logs q \<longleftrightarrow>
     p_threshold q = t \<and> p_logger q \<and> (p_warned q \<longleftrightarrow> int (p_hiWater q) \<ge> t) \<and>
     (p_warned p \<longrightarrow> p_warned q) \<and>
     (if p_warned q \<and> \<not> p_warned p then \<exists>n. logs = [HighWaterWarning n t] \<and> int n \<ge> t else logs = [])"

lemma warns_once_trans: "warns_once t p l q \<Longrightarrow> warns_once t q l' r \<Longrightarrow> warns_once t p (l @ l') r"
  by (cases "p_warned p"; cases "p_warned q"; cases "p_warned r") (auto simp: warns_once_def)

lemma do_act_warns_once:
  assumes "t > 0" and "warns_once t p [] p"
  shows "warns_once t p (fst (do_act a p)) (snd (do_act a p))"
proof (cases a)
  case (ActWrite d)
  let ?n = "length (p_buf p @ d)"
  consider "p_closed p" | (low) "\<not> p_closed p" "?n \<le> p_hiWater p" | (up) "\<not> p_closed p" "p_hiWater p < ?n" by linarith
  then show ?thesis
  proof cases
    case low
    then show ?thesis using assms ActWrite by (simp add: Write_def warns_once_def)
  next
    case up
    then have "int (p_hiWater p) < int ?n" by (simp only: of_nat_less_iff)
    then have "p_warned p \<Longrightarrow> t \<le> int ?n" using assms(2) by (simp add: warns_once_def)
    with up assms ActWrite show ?thesis
      by (cases "p_warned p"; cases "t \<le> int ?n") (simp_all add: Write_def Let_def warns_once_def)
  qed (use assms ActWrite in simp)
qed (use assms in \<open>simp_all add: warns_once_def\<close>)

lemma do_acts_warns_once:
  assumes "t > 0"
  shows "warns_once t p [] p \<Longrightarrow> warns_once t p (fst (do_acts as p)) (snd (do_acts as p))"
proof (induction as arbitrary: p)
  case (Cons a as)
  have step: "warns_once t p (fst (do_act a p)) (snd (do_act a p))"
    by (rule do_act_warns_once [OF assms Cons.prems])
  then have "warns_once t (snd (do_act a p)) [] (snd (do_act a p))" by (simp add: warns_once_def)
  with warns_once_trans [OF step Cons.IH] show ?case by (simp add: split_beta)
qed simp

text \<open>The mark is the maximum of the levels, and the log has one entry once it is passed.\<close>

lemma do_acts_hiWater:
  "Buffered p \<le> p_hiWater p \<Longrightarrow>
     p_hiWater (snd (do_acts as p)) = fold max (levels as p) (p_hiWater p) \<and>
     Buffered (snd (do_acts as p)) \<le> p_hiWater (snd (do_acts as p))"
proof (induction as arbitrary: p)
  case (Cons a as)
  then show ?case
    using do_act_hiWater [of p a] Cons.IH [of "snd (do_act a p)"]
    by (simp add: split_beta max.commute)
qed simp

section \<open>Properties\<close>

text \<open>
  C36: The pipe is a first-in first-out byte queue. Over any history of complete calls on a new
  pipe, each with its own schedule of concurrent writes, closes, interrupts and timers, the
  bytes accepted are the bytes handed out followed by the bytes still buffered: none is lost,
  duplicated or reordered.
\<close>

theorem pipe_fifo:
  assumes "run_calls do_call cs NewBufferedPipe = Some (ins, outs, p)"
  shows "ins = outs @ p_buf p"
  using pipe_queue.empty_history [OF assms] by (simp add: NewBufferedPipe_def)

theorem pipe_fifo_witness:
  "\<exists>ins outs p. run_calls do_call
      [CallWrite [1, 2], CallReadAvailable 3 [[EvWrite [3, 4]]], CallClose, CallRead 8 []]
      NewBufferedPipe = Some (ins, outs, p) \<and> outs = [1, 2, 3, 4] \<and> ins = outs @ p_buf p"
proof -
  have run: "run_calls do_call
      [CallWrite [1, 2], CallReadAvailable 3 [[EvWrite [3, 4]]], CallClose, CallRead 8 []]
      NewBufferedPipe = Some ([1, 2, 3, 4], [1, 2, 3, 4],
        NewBufferedPipe\<lparr>p_closed := True, p_hiWater := 4\<rparr>)"
    by (simp add: NewBufferedPipe_def Write_def Let_def ReadAvailable_def coalesce_def phase2_waits_def
        take_out_def Close_def Read_def slept_def numeral_eq_Suc)
  from pipe_fifo [OF run] run show ?thesis by blast
qed

text \<open>
  What \<open>ReadAvailable\<close> returns, on every path. A pending interrupt wins over buffered data;
  otherwise the bytes that were buffered or arrived during the wait come back in order, up to
  the buffer's size; with no byte at all the end of a closed pipe, an interrupt and the
  timeout are told apart, and the empty success happens only if the timer fired on a pipe that
  is still open.
\<close>

lemma ReadAvailable_outcome:
  assumes "ReadAvailable cap p sch = Some (res, p', sch')" and "cap > 0"
  shows "(let avail = p_buf p @ written_by (p_closed p) (slept sch sch') in
            res = (if p_intr p then Inl ErrPipeInterrupted
                   else if avail \<noteq> [] then Inr (take cap avail)
                   else if p_closed p' then Inl EOF
                   else if EvInterrupt \<in> set (slept sch sch') then Inl ErrPipeInterrupted
                   else Inr [])) \<and>
         (res = Inr [] \<longrightarrow> EvTimer \<in> set (slept sch sch') \<and> \<not> p_closed p' \<and> p_buf p' = [])"
  using assms(1)
proof (cases rule: ReadAvailable_cases)
  case (data used)
  then have "res \<noteq> Inr []" using assms(2) by (simp del: take_append after_simps)
  with data show ?thesis by (auto simp: Let_def simp del: take_append drop_append)
qed (simp_all add: Let_def)

lemma ReadAvailable_outcome_witness:
  "\<exists>p'. ReadAvailable 8 NewBufferedPipe [[EvWrite []], [EvTimer]] = Some (Inr [], p', []) \<and> \<not> p_closed p'"
proof -
  have run: "ReadAvailable 8 NewBufferedPipe [[EvWrite []], [EvTimer]] = Some (Inr [], NewBufferedPipe, [])"
    by (simp add: ReadAvailable_def NewBufferedPipe_def phase1_waits_def Write_def Let_def)
  from ReadAvailable_outcome [OF run] run show ?thesis by simp
qed

text \<open>
  The long poll ends. If the first-byte timer and then the coalescing timer fire, the call
  returns, whatever else happens and in whatever order.
\<close>

lemma ReadAvailable_returns:
  assumes "sch = s1 @ s2" and "EvTimer \<in> set (concat s1)" and "EvTimer \<in> set (concat s2)"
  shows "\<exists>res p' sch'. ReadAvailable cap p sch = Some (res, p', sch')"
proof -
  have "\<exists>r. wait_while phase1_waits (p, False) s1 = Some r"
    by (rule wait_while_returns [OF _ assms(2)]) (simp add: phase1_waits_def)
  then obtain p1 s1' where wait: "wait_while phase1_waits (p, False) s1 = Some (p1, s1')" by auto
  have "EvTimer \<in> set (concat (s @ s2))" for s using assms(3) by auto
  then have "\<exists>res p' sch'. coalesce cap q (s @ s2) = Some (res, p', sch')" for q s
    using coalesce_returns [of "s @ s2" cap q] by auto
  then show ?thesis
    using wait_while_extend [OF wait, of s2] by (auto simp: ReadAvailable_def assms(1))
qed

lemma ReadAvailable_returns_witness:
  "\<exists>res p' sch'. ReadAvailable 8 NewBufferedPipe ([[EvTimer, EvWrite [7]]] @ [[EvWrite [9]], [EvTimer]]) =
     Some (res, p', sch') \<and> res = Inr [7, 9]"
proof -
  have "\<exists>res p' sch'. ReadAvailable 8 NewBufferedPipe ([[EvTimer, EvWrite [7]]] @ [[EvWrite [9]], [EvTimer]]) =
     Some (res, p', sch')"
    by (rule ReadAvailable_returns [OF refl]) simp_all
  then show ?thesis
    by (simp add: ReadAvailable_def NewBufferedPipe_def phase1_waits_def phase2_waits_def coalesce_def
        Write_def Let_def take_out_def)
qed

text \<open>
  No interrupt is lost and none is invented. An interrupt that was pending or arrived during
  the call is either reported by the call or still pending after it; conversely neither happens
  without one.
\<close>

lemma interrupt_not_lost:
  assumes "ReadAvailable cap p sch = Some (res, p', sch')"
  shows "p_intr p \<or> EvInterrupt \<in> set (slept sch sch') \<longleftrightarrow> res = Inl ErrPipeInterrupted \<or> p_intr p'"
  using ReadAvailable_slept(3) [OF assms] by blast

lemma interrupt_not_lost_witness:
  "\<exists>p'. ReadAvailable 8 (snd (snd (Write NewBufferedPipe [5]))) [[EvInterrupt]] = Some (Inr [5], p', []) \<and> p_intr p'"
proof -
  let ?p = "snd (snd (Write NewBufferedPipe [5]))"
  obtain p' where run: "ReadAvailable 8 ?p [[EvInterrupt]] = Some (Inr [5], p', [])"
    by (simp add: ReadAvailable_def NewBufferedPipe_def phase2_waits_def coalesce_def
        Write_def Let_def take_out_def interrupt_def)
  from interrupt_not_lost [OF run] run show ?thesis by (simp add: slept_def)
qed

text \<open>
  The high-water mark is the largest level the buffer ever had, and the warning is logged at
  most once: exactly when the mark has reached the threshold.
\<close>

lemma high_water_warning:
  assumes "t > 0"
  shows "let p0 = WatchHighWater NewBufferedPipe t True; logs = fst (do_acts as p0); p = snd (do_acts as p0)
         in HiWater p = fold max (levels as p0) 0 \<and> Buffered p \<le> HiWater p \<and>
            (if int (HiWater p) \<ge> t then \<exists>n. logs = [HighWaterWarning n t] \<and> int n \<ge> t else logs = [])"
proof -
  let ?p0 = "WatchHighWater NewBufferedPipe t True"
  have "warns_once t ?p0 [] ?p0" "Buffered ?p0 \<le> p_hiWater ?p0" "p_hiWater ?p0 = 0" "\<not> p_warned ?p0"
    using assms by (simp_all add: warns_once_def WatchHighWater_def NewBufferedPipe_def Buffered_def)
  with do_acts_warns_once [OF assms, of ?p0 as] do_acts_hiWater [of ?p0 as] show ?thesis
    by (simp add: Let_def HiWater_def warns_once_def)
qed

lemma high_water_warning_witness:
  "\<exists>n. fst (do_acts [ActWrite [1, 2], ActTake 1, ActWrite [3, 4]] (WatchHighWater NewBufferedPipe 3 True)) =
     [HighWaterWarning n 3] \<and> int n \<ge> 3"
proof -
  let ?p0 = "WatchHighWater NewBufferedPipe 3 True" and ?as = "[ActWrite [1, 2], ActTake 1, ActWrite [3, 4]]"
  have hi: "HiWater (snd (do_acts ?as ?p0)) = 3"
    by (simp add: WatchHighWater_def NewBufferedPipe_def Write_def take_out_def HiWater_def)
  from high_water_warning [of 3 ?as] show ?thesis
    unfolding Let_def hi by simp
qed

end
