(* ===== verification/Protocol.thy ===== *)
theory Protocol
  imports Pollmux_Prelude "HOL-Library.Signed_Division"
begin

text \<open>
  \<^verbatim>\<open>protocol.go\<close> and the configuration half of \<^verbatim>\<open>handler.go\<close>: the constants both ends
  share, the limits the server hands down at connect time and the client validates, the
  server's configuration with its defaults and wiring check, and the negotiation of a session's
  modes. Durations are nanoseconds; the multiplications of \<^verbatim>\<open>time.Duration\<close> values wrap at
  64 bits as in Go.

  The lemmas show which inconsistent configurations the wiring check lets through, that the
  limits survive the trip to the client up to the millisecond, exactly when the client accepts
  them, and what is negotiated for which client.
\<close>

section \<open>Constants\<close>

definition ProtocolVersion :: int where
  "ProtocolVersion = 1"

abbreviation (input) Millisecond :: duration where
  "Millisecond \<equiv> 1000000"

abbreviation (input) Second :: duration where
  "Second \<equiv> 1000000000"

definition DefaultPollTimeout :: duration where
  "DefaultPollTimeout = 30 * Second"

definition DefaultSessionTimeout :: duration where
  "DefaultSessionTimeout = 2 * DefaultPollTimeout"

definition DefaultSweepInterval :: duration where
  "DefaultSweepInterval = 5 * Second"

definition DefaultPollBufferSize :: int where
  "DefaultPollBufferSize = 262144"

definition DefaultMaxSendBytes :: int where
  "DefaultMaxSendBytes = 1048576"

definition DefaultHeartbeatInterval :: duration where
  "DefaultHeartbeatInterval = 10 * Second"

definition DefaultStreamMaxDuration :: duration where
  "DefaultStreamMaxDuration = 45 * Second"

definition DefaultResumeGrace :: duration where
  "DefaultResumeGrace = 30 * Second"

definition MaxResumeGrace :: duration where
  "MaxResumeGrace = 300 * Second"

definition DefaultMaxDetachedResumable :: int where
  "DefaultMaxDetachedResumable = 1024"

definition batchPollGapAllowance :: duration where
  "batchPollGapAllowance = 10 * Second"

definition DefaultMaxReplayBytes :: int where
  "DefaultMaxReplayBytes = 16777216"

definition defaultStreamReadGrace :: duration where
  "defaultStreamReadGrace = 10 * Second"

definition DefaultPollGrace :: duration where
  "DefaultPollGrace = 10 * Second"

definition DefaultSendTimeout :: duration where
  "DefaultSendTimeout = 15 * Second"

definition DefaultDialTimeout :: duration where
  "DefaultDialTimeout = 10 * Second"

definition DefaultMaxSendChunk :: int where
  "DefaultMaxSendChunk = 524288"

definition DefaultUploadProbeTimeout :: duration where
  "DefaultUploadProbeTimeout = 15 * Second"

definition DefaultCoalesceWindow :: duration where
  "DefaultCoalesceWindow = 2 * Millisecond"

text \<open>\<^verbatim>\<open>yamux.go\<close>: the per-stream window, which sizes the eager acknowledgement.\<close>

definition MaxStreamWindowSize :: int where
  "MaxStreamWindowSize = 262144"

definition uploadProbeFillerBytes :: nat where
  "uploadProbeFillerBytes = nat (MaxStreamWindowSize + 4096)"

definition DefaultInitialBackoff :: duration where
  "DefaultInitialBackoff = 1 * Second"

definition DefaultMaxBackoff :: duration where
  "DefaultMaxBackoff = 180 * Second"

definition DefaultPeerClosedPause :: duration where
  "DefaultPeerClosedPause = 500 * Millisecond"

definition DefaultMinStableDuration :: duration where
  "DefaultMinStableDuration = 5 * Second"

definition PollModeBatch :: string where
  "PollModeBatch = ''batch''"

definition PollModeStream :: string where
  "PollModeStream = ''stream''"

definition TransportWebSocket :: string where
  "TransportWebSocket = ''websocket''"

section \<open>Durations\<close>

text \<open>Two's complement wrap-around of a 64-bit signed product.\<close>

definition wrap64 :: "int \<Rightarrow> int" where
  "wrap64 n = (n + 2 ^ 63) mod 2 ^ 64 - 2 ^ 63"

text \<open>\<^verbatim>\<open>d.Milliseconds()\<close>: division that truncates towards zero.\<close>

definition Milliseconds :: "duration \<Rightarrow> int" where
  "Milliseconds d = d sdiv Millisecond"

definition from_ms :: "int \<Rightarrow> duration" where
  "from_ms n = wrap64 (n * Millisecond)"

section \<open>Requests and limits\<close>

type_synonym meta = "string \<rightharpoonup> string"

record ConnectRequest =
  cr_ProtocolVersion :: int
  cr_Meta :: meta
  cr_PreferStreamMode :: bool
  cr_PreferStreamUpload :: bool
  cr_PreferWebSocket :: bool
  cr_PreferResume :: bool
  cr_BatchResume :: bool
  cr_PollIntervalMS :: int

record Limits =
  MaxSendBytes :: int
  PollTimeoutMS :: int
  SessionTimeoutMS :: int
  PollBufferBytes :: int
  HeartbeatIntervalMS :: int
  StreamMaxDurationMS :: int
  ResumeGraceMS :: int

definition PollTimeout :: "Limits \<Rightarrow> duration" where
  "PollTimeout l = from_ms (PollTimeoutMS l)"

definition SessionTimeout :: "Limits \<Rightarrow> duration" where
  "SessionTimeout l = from_ms (SessionTimeoutMS l)"

definition HeartbeatInterval :: "Limits \<Rightarrow> duration" where
  "HeartbeatInterval l = from_ms (HeartbeatIntervalMS l)"

definition StreamMaxDuration :: "Limits \<Rightarrow> duration" where
  "StreamMaxDuration l = from_ms (StreamMaxDurationMS l)"

definition ResumeGrace :: "Limits \<Rightarrow> duration" where
  "ResumeGrace l = from_ms (ResumeGraceMS l)"

datatype limits_error = BadMaxSendBytes int | BadPollTimeout int | BadSessionTimeout int

definition Validate :: "Limits \<Rightarrow> limits_error option" where
  "Validate l =
     (if MaxSendBytes l \<le> 0 then Some (BadMaxSendBytes (MaxSendBytes l))
      else if PollTimeoutMS l \<le> 0 then Some (BadPollTimeout (PollTimeoutMS l))
      else if SessionTimeoutMS l \<le> 0 then Some (BadSessionTimeout (SessionTimeoutMS l))
      else None)"

record ConnectResponse =
  resp_ProtocolVersion :: int
  resp_SessionID :: string
  resp_Limits :: Limits
  resp_Meta :: meta
  resp_PollMode :: string
  resp_UploadStreamMode :: string
  resp_Transport :: string
  resp_Resumable :: bool
  resp_BatchResume :: bool

record ResumeRequest =
  rr_ProtocolVersion :: int
  rr_RecvOffset :: u64

record ResumeResponse =
  Resumed :: bool
  RecvOffset :: u64

datatype DisconnectReason =
    ReasonClientDelete
  | ReasonEvicted
  | ReasonServerClose
  | ReasonProtocolViolation

fun DisconnectReason_String :: "DisconnectReason \<Rightarrow> string" where
  "DisconnectReason_String ReasonClientDelete = ''client_delete''"
| "DisconnectReason_String ReasonEvicted = ''evicted''"
| "DisconnectReason_String ReasonServerClose = ''server_close''"
| "DisconnectReason_String ReasonProtocolViolation = ''protocol_violation''"

section \<open>Server configuration\<close>

text \<open>
  The fields that are functions (\<^verbatim>\<open>SessionIDFunc\<close>, \<^verbatim>\<open>Logger\<close>) are not part of the record;
  the handlers take the extracted session id as an argument.
\<close>

record ServerConfig =
  cfg_PollTimeout :: duration
  cfg_SessionTimeout :: duration
  cfg_SweepInterval :: duration
  cfg_CoalesceWindow :: duration
  cfg_PollBufferSize :: int
  cfg_MaxSendBytes :: int
  cfg_HighWaterWarn :: int
  cfg_PollMode :: string
  cfg_HeartbeatInterval :: duration
  cfg_StreamMaxDuration :: duration
  cfg_EnableWebSocket :: bool
  cfg_EnableResume :: bool
  cfg_ResumeGrace :: duration
  cfg_MaxReplayBytes :: int
  cfg_MaxDetachedResumable :: int

abbreviation (input) or_default :: "int \<Rightarrow> int \<Rightarrow> int" where
  "or_default v d \<equiv> (if v \<le> 0 then d else v)"

definition withDefaults :: "ServerConfig \<Rightarrow> ServerConfig" where
  "withDefaults cfg = cfg
     \<lparr>cfg_PollTimeout := or_default (cfg_PollTimeout cfg) DefaultPollTimeout,
      cfg_SessionTimeout := or_default (cfg_SessionTimeout cfg) DefaultSessionTimeout,
      cfg_SweepInterval := or_default (cfg_SweepInterval cfg) DefaultSweepInterval,
      cfg_CoalesceWindow := or_default (cfg_CoalesceWindow cfg) DefaultCoalesceWindow,
      cfg_PollBufferSize := or_default (cfg_PollBufferSize cfg) DefaultPollBufferSize,
      cfg_MaxSendBytes := or_default (cfg_MaxSendBytes cfg) DefaultMaxSendBytes,
      cfg_HeartbeatInterval := or_default (cfg_HeartbeatInterval cfg) DefaultHeartbeatInterval,
      cfg_StreamMaxDuration := or_default (cfg_StreamMaxDuration cfg) DefaultStreamMaxDuration,
      cfg_ResumeGrace := or_default (cfg_ResumeGrace cfg) DefaultResumeGrace,
      cfg_MaxReplayBytes := or_default (cfg_MaxReplayBytes cfg) DefaultMaxReplayBytes,
      cfg_MaxDetachedResumable :=
        (if cfg_MaxDetachedResumable cfg = 0 then DefaultMaxDetachedResumable
         else cfg_MaxDetachedResumable cfg)\<rparr>"

datatype wiring_panic =
    BadPollMode string
  | SessionTimeoutTooShort
  | StreamMaxDurationTooShort
  | ResumeGraceTooLong

text \<open>\<open>None\<close>: the configuration is accepted; \<open>Some\<close>: the panic it causes.\<close>

definition check :: "ServerConfig \<Rightarrow> wiring_panic option" where
  "check cfg =
     (if cfg_PollMode cfg \<notin> {'''', PollModeBatch, PollModeStream} then Some (BadPollMode (cfg_PollMode cfg))
      else if cfg_SessionTimeout cfg > 0 \<and> cfg_PollTimeout cfg > 0 \<and>
              cfg_SessionTimeout cfg < wrap64 (2 * cfg_PollTimeout cfg) then Some SessionTimeoutTooShort
      else if cfg_PollMode cfg = PollModeStream \<and> cfg_StreamMaxDuration cfg > 0 \<and>
              cfg_HeartbeatInterval cfg > 0 \<and>
              cfg_StreamMaxDuration cfg < wrap64 (2 * cfg_HeartbeatInterval cfg)
      then Some StreamMaxDurationTooShort
      else if cfg_ResumeGrace cfg > MaxResumeGrace then Some ResumeGraceTooLong
      else None)"

definition limits :: "ServerConfig \<Rightarrow> string \<Rightarrow> bool \<Rightarrow> Limits" where
  "limits cfg mode resumable =
     (let l = \<lparr>MaxSendBytes = cfg_MaxSendBytes cfg,
               PollTimeoutMS = Milliseconds (cfg_PollTimeout cfg),
               SessionTimeoutMS = Milliseconds (cfg_SessionTimeout cfg),
               PollBufferBytes = cfg_PollBufferSize cfg,
               HeartbeatIntervalMS = 0, StreamMaxDurationMS = 0, ResumeGraceMS = 0\<rparr>;
          l1 = (if mode = PollModeStream
                then l\<lparr>HeartbeatIntervalMS := Milliseconds (cfg_HeartbeatInterval cfg),
                       StreamMaxDurationMS := Milliseconds (cfg_StreamMaxDuration cfg)\<rparr>
                else l)
      in if resumable then l1\<lparr>ResumeGraceMS := Milliseconds (cfg_ResumeGrace cfg)\<rparr> else l1)"

section \<open>Negotiation\<close>

definition negotiatePollMode :: "string \<Rightarrow> bool \<Rightarrow> string" where
  "negotiatePollMode serverMode clientPrefersStream =
     (if serverMode = PollModeStream \<and> clientPrefersStream then PollModeStream else PollModeBatch)"

definition negotiateResume :: "ServerConfig \<Rightarrow> ConnectRequest \<Rightarrow> string \<Rightarrow> string \<Rightarrow> string \<Rightarrow> bool" where
  "negotiateResume cfg req transport pollMode uploadMode =
     (if \<not> cfg_EnableResume cfg \<or> \<not> cr_PreferResume req then False
      else if transport = TransportWebSocket then True
      else cr_BatchResume req \<or> (pollMode = PollModeStream \<and> uploadMode = PollModeStream))"

section \<open>Lemmas\<close>

lemmas duration_constants =
  DefaultPollTimeout_def DefaultSessionTimeout_def DefaultHeartbeatInterval_def
  DefaultStreamMaxDuration_def DefaultResumeGrace_def MaxResumeGrace_def

lemma wrap64_id [simp]: "- (2 ^ 63) \<le> n \<Longrightarrow> n < 2 ^ 63 \<Longrightarrow> wrap64 n = n"
  by (simp add: wrap64_def)

lemma Milliseconds_pos: "d \<ge> 0 \<Longrightarrow> Milliseconds d = d div Millisecond"
  by (simp add: Milliseconds_def signed_divide_int_def sgn_if)

text \<open>A non-negative duration comes back rounded down to the millisecond.\<close>

lemma from_ms_Milliseconds:
  assumes "0 \<le> d" and "d < 2 ^ 63"
  shows "from_ms (Milliseconds d) = d - d mod Millisecond"
proof -
  have "d div Millisecond * Millisecond = d - d mod Millisecond"
    by (simp add: minus_mod_eq_div_mult)
  moreover have "0 \<le> d div Millisecond * Millisecond" "d div Millisecond * Millisecond \<le> d"
    using assms by (simp_all add: minus_mod_eq_div_mult [symmetric] pos_imp_zdiv_nonneg_iff zmod_le_nonneg_dividend)
  ultimately show ?thesis
    using assms by (simp add: from_ms_def Milliseconds_pos)
qed

lemma limits_simps [simp]:
  "MaxSendBytes (limits cfg mode res) = cfg_MaxSendBytes cfg"
  "PollTimeoutMS (limits cfg mode res) = Milliseconds (cfg_PollTimeout cfg)"
  "SessionTimeoutMS (limits cfg mode res) = Milliseconds (cfg_SessionTimeout cfg)"
  "PollBufferBytes (limits cfg mode res) = cfg_PollBufferSize cfg"
  "HeartbeatIntervalMS (limits cfg mode res) =
     (if mode = PollModeStream then Milliseconds (cfg_HeartbeatInterval cfg) else 0)"
  "StreamMaxDurationMS (limits cfg mode res) =
     (if mode = PollModeStream then Milliseconds (cfg_StreamMaxDuration cfg) else 0)"
  "ResumeGraceMS (limits cfg mode res) = (if res then Milliseconds (cfg_ResumeGrace cfg) else 0)"
  by (simp_all add: limits_def Let_def)

lemma withDefaults_positive:
  "cfg_PollTimeout (withDefaults cfg) > 0" "cfg_SessionTimeout (withDefaults cfg) > 0"
  "cfg_MaxSendBytes (withDefaults cfg) > 0" "cfg_PollBufferSize (withDefaults cfg) > 0"
  "cfg_ResumeGrace (withDefaults cfg) > 0" "cfg_MaxReplayBytes (withDefaults cfg) > 0"
  by (simp_all add: withDefaults_def duration_constants DefaultMaxSendBytes_def
      DefaultPollBufferSize_def DefaultMaxReplayBytes_def)

section \<open>Properties\<close>

text \<open>
  C40: Which inconsistent timeouts the wiring check lets through. If a checked configuration, with
  its defaults filled in, still has a session timeout below twice the poll timeout, then one
  of the two was left at its default: the poll timeout is set above thirty seconds with the
  default session timeout, or the session timeout is set below sixty seconds with the default
  poll timeout. Both explicit is always caught. The resume grace is always within its cap.
\<close>

theorem check_consistent:
  assumes "check cfg = None" and "cfg_PollTimeout cfg < 2 ^ 62"
  shows "cfg_ResumeGrace (withDefaults cfg) \<le> MaxResumeGrace \<and>
     (cfg_SessionTimeout (withDefaults cfg) < 2 * cfg_PollTimeout (withDefaults cfg) \<longleftrightarrow>
        (cfg_SessionTimeout cfg \<le> 0 \<and> cfg_PollTimeout cfg > DefaultPollTimeout) \<or>
        (cfg_PollTimeout cfg \<le> 0 \<and> 0 < cfg_SessionTimeout cfg \<and> cfg_SessionTimeout cfg < DefaultSessionTimeout))"
proof -
  have "cfg_PollTimeout cfg > 0 \<Longrightarrow> wrap64 (2 * cfg_PollTimeout cfg) = 2 * cfg_PollTimeout cfg"
    using assms(2) by simp
  with assms(1) show ?thesis
    by (auto simp: check_def withDefaults_def duration_constants split: if_splits)
qed

text \<open>
  The client accepts the limits a server hands down exactly when the server's poll and
  session timeouts are at least a millisecond; both timeouts then arrive rounded down to the
  millisecond, the resume grace only for a resumable session.
\<close>

lemma limits_accepted:
  assumes "cfg_PollTimeout cfg < 2 ^ 63" and "cfg_SessionTimeout cfg < 2 ^ 63" and "check cfg = None"
  shows "let c = withDefaults cfg; l = limits c mode res in
     (Validate l = None \<longleftrightarrow> cfg_PollTimeout c \<ge> Millisecond \<and> cfg_SessionTimeout c \<ge> Millisecond) \<and>
     PollTimeout l = cfg_PollTimeout c - cfg_PollTimeout c mod Millisecond \<and>
     SessionTimeout l = cfg_SessionTimeout c - cfg_SessionTimeout c mod Millisecond \<and>
     ResumeGrace l = (if res then cfg_ResumeGrace c - cfg_ResumeGrace c mod Millisecond else 0)"
proof -
  let ?c = "withDefaults cfg"
  note pos = withDefaults_positive [of cfg]
  have small: "cfg_PollTimeout ?c < 2 ^ 63" "cfg_SessionTimeout ?c < 2 ^ 63" "cfg_ResumeGrace ?c < 2 ^ 63"
    using assms by (auto simp: check_def withDefaults_def duration_constants split: if_splits)
  have ms: "Milliseconds d \<le> 0 \<longleftrightarrow> d < Millisecond" if "d > 0" for d
    using that pos_imp_zdiv_pos_iff [of Millisecond d] by (simp add: Milliseconds_pos not_less [symmetric])
  have "Validate (limits ?c mode res) = None \<longleftrightarrow>
      \<not> Milliseconds (cfg_PollTimeout ?c) \<le> 0 \<and> \<not> Milliseconds (cfg_SessionTimeout ?c) \<le> 0"
    using pos(3) by (simp add: Validate_def)
  then have "Validate (limits ?c mode res) = None \<longleftrightarrow>
      cfg_PollTimeout ?c \<ge> Millisecond \<and> cfg_SessionTimeout ?c \<ge> Millisecond"
    by (simp only: ms [OF pos(1)] ms [OF pos(2)] not_less)
  moreover have "from_ms 0 = 0" by (simp add: from_ms_def)
  ultimately show ?thesis
    using pos small
    by (simp add: Let_def PollTimeout_def SessionTimeout_def ResumeGrace_def from_ms_Milliseconds less_imp_le)
qed

text \<open>
  What can be negotiated. A resumable session needs the server's switch and the client's
  request; a client that does not know resumable batches gets one only over a WebSocket or
  when both directions are streamed, and a direction is streamed only if the server is
  configured for it and the client asked.
\<close>

lemma negotiation:
  assumes "mode = negotiatePollMode (cfg_PollMode cfg) (cr_PreferStreamMode req)"
    and "up = negotiatePollMode (cfg_PollMode cfg) (cr_PreferStreamUpload req)"
    and "negotiateResume cfg req transport mode up"
  shows "cfg_EnableResume cfg \<and> cr_PreferResume req \<and>
     (transport = TransportWebSocket \<or> cr_BatchResume req \<or>
      cfg_PollMode cfg = PollModeStream \<and> cr_PreferStreamMode req \<and> cr_PreferStreamUpload req)"
  using assms by (auto simp: negotiateResume_def negotiatePollMode_def PollModeBatch_def PollModeStream_def
      split: if_splits)

section \<open>Witnesses\<close>

definition sample_config :: ServerConfig where
  "sample_config =
     \<lparr>cfg_PollTimeout = 0, cfg_SessionTimeout = 0, cfg_SweepInterval = 0, cfg_CoalesceWindow = 0,
      cfg_PollBufferSize = 0, cfg_MaxSendBytes = 0, cfg_HighWaterWarn = 0, cfg_PollMode = PollModeStream,
      cfg_HeartbeatInterval = 0, cfg_StreamMaxDuration = 0, cfg_EnableWebSocket = True,
      cfg_EnableResume = True, cfg_ResumeGrace = 0, cfg_MaxReplayBytes = 0, cfg_MaxDetachedResumable = 0\<rparr>"

definition sample_request :: ConnectRequest where
  "sample_request =
     \<lparr>cr_ProtocolVersion = 1, cr_Meta = Map.empty, cr_PreferStreamMode = True, cr_PreferStreamUpload = True,
      cr_PreferWebSocket = False, cr_PreferResume = True, cr_BatchResume = False, cr_PollIntervalMS = 0\<rparr>"

text \<open>A poll timeout of one minute with everything else at its default passes the check.\<close>

theorem check_consistent_witness:
  "let cfg = sample_config\<lparr>cfg_PollTimeout := 60 * Second\<rparr>; c = withDefaults cfg
   in check cfg = None \<and> cfg_SessionTimeout c < 2 * cfg_PollTimeout c"
proof -
  let ?cfg = "sample_config\<lparr>cfg_PollTimeout := 60 * Second\<rparr>"
  have ok: "check ?cfg = None"
    by (simp add: check_def sample_config_def MaxResumeGrace_def)
  have "cfg_SessionTimeout (withDefaults ?cfg) < 2 * cfg_PollTimeout (withDefaults ?cfg)"
    using check_consistent [OF ok] by (simp add: sample_config_def DefaultPollTimeout_def)
  with ok show ?thesis by (simp add: Let_def)
qed

lemma limits_accepted_witness:
  "let l = limits (withDefaults sample_config) PollModeStream True
   in Validate l = None \<and> PollTimeout l = DefaultPollTimeout \<and> ResumeGrace l = DefaultResumeGrace"
proof -
  have "check sample_config = None"
    by (simp add: check_def sample_config_def MaxResumeGrace_def)
  from limits_accepted [OF _ _ this, of PollModeStream True] show ?thesis
    by (simp add: Let_def sample_config_def withDefaults_def duration_constants)
qed

lemma negotiation_witness:
  "negotiateResume sample_config sample_request '''' PollModeStream PollModeStream \<and>
   cfg_PollMode sample_config = PollModeStream"
proof -
  have r: "negotiateResume sample_config sample_request '''' PollModeStream PollModeStream"
    by (simp add: negotiateResume_def sample_config_def sample_request_def)
  have "PollModeStream = negotiatePollMode (cfg_PollMode sample_config) True"
    by (simp add: negotiatePollMode_def sample_config_def)
  with negotiation [of PollModeStream sample_config sample_request PollModeStream "''''"] r show ?thesis
    by (simp add: sample_request_def TransportWebSocket_def)
qed

end
