(* ===== verification/Reliable.thy ===== *)
theory Reliable
  imports Pipe Protocol
begin

text \<open>
  \<^verbatim>\<open>reliable.go\<close>: the byte layer that numbers, retains and replays each direction of a
  resumable session. The record has the fields of the source but the two pipes, which the
  operations take as arguments: they belong to the session that owns the layer. Offsets are
  64-bit words. A slice expression out of range would panic; the operations that have one
  return \<open>None\<close> there.

  \<open>nextOut\<close> holds the lock twice, around its wait on the pipe; the two locked sections are the
  definitions \<open>nextOut_replay\<close> and \<open>nextOut_number\<close>, and \<open>nextOut\<close> composes them with the
  wait and with what other goroutines did to the layer meanwhile.

  The lemmas show the invariant of the layer (the order of the offsets, what the replay buffer
  holds, its bound), that no operation panics, and what each branch returns.
\<close>

section \<open>The layer\<close>

record reliable =
  sendOffset :: u64
  ackedOffset :: u64
  sentCursor :: u64
  replay :: bytes
  maxReplay :: int
  broken :: bool
  recvOffset :: u64
  lastAck :: u64
  ackEager :: int

definition ackEagerBytes :: int where
  "ackEagerBytes = MaxStreamWindowSize div 2"

definition newReliable :: "int \<Rightarrow> reliable" where
  "newReliable max_replay =
     \<lparr>sendOffset = 0, ackedOffset = 0, sentCursor = 0, replay = [],
      maxReplay = (if max_replay \<le> 0 then DefaultMaxReplayBytes else max_replay),
      broken = False, recvOffset = 0, lastAck = 0, ackEager = ackEagerBytes\<rparr>"

definition disableEagerAck :: "reliable \<Rightarrow> reliable" where
  "disableEagerAck r = r\<lparr>ackEager := 0\<rparr>"

definition markBrokenLocked :: "reliable \<Rightarrow> reliable" where
  "markBrokenLocked r =
     r\<lparr>broken := True, replay := [], ackedOffset := sendOffset r, sentCursor := sendOffset r\<rparr>"

definition markBroken :: "reliable \<Rightarrow> reliable" where
  "markBroken r = markBrokenLocked r"

section \<open>Sending\<close>

text \<open>
  First locked section of \<open>nextOut\<close>, for a buffer of \<open>cap\<close> bytes: \<open>Some (Some ...)\<close> is a
  chunk of pending replay, \<open>Some None\<close> that there is none and the caller goes on to wait.
\<close>

definition nextOut_replay :: "nat \<Rightarrow> reliable \<Rightarrow> (u64 \<times> bytes \<times> reliable) option option" where
  "nextOut_replay cap r =
     (if \<not> broken r \<and> sentCursor r < sendOffset r then
        case slice_from (replay r) (unat (sentCursor r - ackedOffset r)) of
          None \<Rightarrow> None
        | Some pending \<Rightarrow>
            let chunk = take cap pending in
            Some (Some (sentCursor r, chunk, r\<lparr>sentCursor := sentCursor r + of_nat (length chunk)\<rparr>))
      else Some None)"

text \<open>Last locked section: the bytes taken from the pipe get their offset and are retained.\<close>

definition nextOut_number :: "bytes \<Rightarrow> reliable \<Rightarrow> u64 \<times> reliable" where
  "nextOut_number data r =
     (let r1 = r\<lparr>sendOffset := sendOffset r + of_nat (length data),
                 sentCursor := sendOffset r + of_nat (length data)\<rparr>;
          r2 = (if \<not> broken r1 then r1\<lparr>replay := replay r1 @ data\<rparr> else r1)
      in (sendOffset r,
          if \<not> broken r1 \<and> int (length (replay r2)) > maxReplay r2 then markBrokenLocked r2 else r2))"

text \<open>
  How a call that may wait ends: it returns, it panics, or it is still asleep when the schedule
  is used up.
\<close>

datatype 'a outcome = Returns 'a | Panics | Sleeps

definition nextOut :: "nat \<Rightarrow> reliable \<Rightarrow> (reliable \<Rightarrow> reliable) \<Rightarrow> pipe \<Rightarrow> schedule
    \<Rightarrow> ((error + u64 \<times> bytes) \<times> reliable \<times> pipe) outcome" where
  "nextOut cap r meanwhile out sch =
     (case nextOut_replay cap r of
        None \<Rightarrow> Panics
      | Some (Some (off, chunk, r')) \<Rightarrow> Returns (Inr (off, chunk), r', out)
      | Some None \<Rightarrow>
          (case ReadAvailable cap out sch of
             None \<Rightarrow> Sleeps
           | Some (res, out', _) \<Rightarrow>
               let r1 = meanwhile r in
               (case res of
                  Inl err \<Rightarrow> Returns (Inl err, r1, out')
                | Inr data \<Rightarrow>
                    if data = [] then Returns (Inr (0, []), r1, out')
                    else (case nextOut_number data r1 of (off, r2) \<Rightarrow>
                            Returns (Inr (off, data), r2, out')))))"

section \<open>Receiving\<close>

text \<open>\<open>inp\<close> and \<open>out\<close> are the layer's two pipes; the eager acknowledgement interrupts \<open>out\<close>.\<close>

definition recvIn :: "u64 \<Rightarrow> bytes \<Rightarrow> reliable \<Rightarrow> pipe \<Rightarrow> pipe
    \<Rightarrow> (error option \<times> reliable \<times> pipe \<times> pipe) option" where
  "recvIn off p r inp out =
     (if off > recvOffset r then Some (Some ErrReplayGap, markBrokenLocked r, inp, out)
      else if off + of_nat (length p) \<le> recvOffset r then Some (None, r, inp, out)
      else
        (case slice_from p (unat (recvOffset r - off)) of
           None \<Rightarrow> None
         | Some p1 \<Rightarrow>
             (case Write inp p1 of
                (Inl err, _, inp') \<Rightarrow> Some (Some err, r, inp', out)
              | (Inr _, _, inp') \<Rightarrow>
                  let r1 = r\<lparr>recvOffset := recvOffset r + of_nat (length p1)\<rparr>;
                      wake = (ackEager r1 > 0 \<and> recvOffset r1 - lastAck r1 \<ge> of_int (ackEager r1))
                  in Some (None, r1, inp', if wake then interrupt out else out))))"

definition ack :: "u64 \<Rightarrow> reliable \<Rightarrow> (error option \<times> reliable) option" where
  "ack n r =
     (if n > sendOffset r then Some (Some ErrBadAck, markBrokenLocked r)
      else if broken r \<or> n \<le> ackedOffset r then Some (None, r)
      else
        (case slice_from (replay r) (unat (n - ackedOffset r)) of
           None \<Rightarrow> None
         | Some rest \<Rightarrow>
             Some (None, r\<lparr>replay := rest, ackedOffset := n,
                           sentCursor := (if sentCursor r < n then n else sentCursor r)\<rparr>)))"

definition takeAck :: "reliable \<Rightarrow> u64 option \<times> reliable" where
  "takeAck r =
     (if recvOffset r = lastAck r then (None, r)
      else (Some (recvOffset r), r\<lparr>lastAck := recvOffset r\<rparr>))"

definition resetAck :: "reliable \<Rightarrow> reliable" where
  "resetAck r = r\<lparr>lastAck := 0\<rparr>"

section \<open>Resuming\<close>

definition resumeOut :: "u64 \<Rightarrow> reliable \<Rightarrow> (bool \<times> reliable) option" where
  "resumeOut peerRecv r =
     (if broken r \<or> peerRecv < ackedOffset r \<or> peerRecv > sendOffset r then Some (False, r)
      else
        (case slice_from (replay r) (unat (peerRecv - ackedOffset r)) of
           None \<Rightarrow> None
         | Some rest \<Rightarrow> Some (True, r\<lparr>replay := rest, ackedOffset := peerRecv, sentCursor := peerRecv\<rparr>)))"

definition rewindToAcked :: "reliable \<Rightarrow> reliable" where
  "rewindToAcked r = (if \<not> broken r then r\<lparr>sentCursor := ackedOffset r\<rparr> else r)"

definition recvOffsetNow :: "reliable \<Rightarrow> u64" where
  "recvOffsetNow r = recvOffset r"

record reliableProgress =
  prog_acked :: u64
  prog_recv :: u64

definition progress :: "reliable \<Rightarrow> reliableProgress" where
  "progress r = \<lparr>prog_acked = ackedOffset r, prog_recv = recvOffset r\<rparr>"

definition unacked :: "reliable \<Rightarrow> nat" where
  "unacked r = length (replay r)"

definition isBroken :: "reliable \<Rightarrow> bool" where
  "isBroken r = broken r"

definition interruptOut :: "pipe \<Rightarrow> pipe" where
  "interruptOut out = interrupt out"

section \<open>The invariant\<close>

text \<open>
  The field comments of the source, and what they leave implicit: \<open>replay\<close> is exactly as long
  as the distance from the acknowledged to the sent offset unless the layer is broken, its
  length respects the bound, a broken layer retains nothing and has nothing left to replay.
\<close>

definition rel_inv :: "reliable \<Rightarrow> bool" where
  "rel_inv r \<longleftrightarrow>
     ackedOffset r \<le> sentCursor r \<and> sentCursor r \<le> sendOffset r \<and> lastAck r \<le> recvOffset r \<and>
     0 < maxReplay r \<and> int (length (replay r)) \<le> maxReplay r \<and>
     (if broken r then replay r = [] \<and> sentCursor r = sendOffset r
      else length (replay r) = unat (sendOffset r) - unat (ackedOffset r))"

section \<open>Histories\<close>

text \<open>
  The operations of the layer as one datatype, each a section that holds the lock once.
  \<open>OpNumber\<close> carries the bytes taken from the pipe, \<open>OpRecv\<close> a frame and whether the
  application has closed the receiving pipe. \<open>run_op\<close> is \<open>None\<close> if the operation panics.
\<close>

datatype rel_op =
    OpReplay nat
  | OpNumber bytes
  | OpRecv u64 bytes bool
  | OpAck u64
  | OpTakeAck
  | OpResetAck
  | OpResume u64
  | OpRewind
  | OpMarkBroken

definition pipe_that_is :: "bool \<Rightarrow> pipe" where
  "pipe_that_is closed = NewBufferedPipe\<lparr>p_closed := closed\<rparr>"

fun run_op :: "rel_op \<Rightarrow> reliable \<Rightarrow> reliable option" where
  "run_op (OpReplay cap) r =
     (case nextOut_replay cap r of None \<Rightarrow> None | Some None \<Rightarrow> Some r | Some (Some (_, _, r')) \<Rightarrow> Some r')"
| "run_op (OpNumber d) r = Some (snd (nextOut_number d r))"
| "run_op (OpRecv off d closed) r =
     map_option (\<lambda>(_, r', _). r') (recvIn off d r (pipe_that_is closed) NewBufferedPipe)"
| "run_op (OpAck n) r = map_option snd (ack n r)"
| "run_op OpTakeAck r = Some (snd (takeAck r))"
| "run_op OpResetAck r = Some (resetAck r)"
| "run_op (OpResume n) r = map_option snd (resumeOut n r)"
| "run_op OpRewind r = Some (rewindToAcked r)"
| "run_op OpMarkBroken r = Some (markBroken r)"

fun run_ops :: "rel_op list \<Rightarrow> reliable \<Rightarrow> reliable option" where
  "run_ops [] r = Some r"
| "run_ops (x # xs) r = (case run_op x r of None \<Rightarrow> None | Some r' \<Rightarrow> run_ops xs r')"

text \<open>How far an operation can move an offset: the bytes it numbers or receives.\<close>

fun op_bytes :: "rel_op \<Rightarrow> nat" where
  "op_bytes (OpNumber d) = length d"
| "op_bytes (OpRecv off d closed) = length d"
| "op_bytes _ = 0"

text \<open>
  What a transport that only replays sends: chunks of at most \<open>cap\<close> bytes until nothing is
  pending, with \<open>fuel\<close> calls at most; \<open>None\<close> if the fuel did not suffice.
\<close>

fun replay_all :: "nat \<Rightarrow> nat \<Rightarrow> reliable \<Rightarrow> ((u64 \<times> bytes) list \<times> reliable) option" where
  "replay_all 0 cap r = (if nextOut_replay cap r = Some None then Some ([], r) else None)"
| "replay_all (Suc fuel) cap r =
     (case nextOut_replay cap r of
        None \<Rightarrow> None
      | Some None \<Rightarrow> Some ([], r)
      | Some (Some (off, d, r')) \<Rightarrow>
          (case replay_all fuel cap r' of
             None \<Rightarrow> None
           | Some (fs, r'') \<Rightarrow> Some ((off, d) # fs, r'')))"

text \<open>Frames that follow each other without a gap or an overlap, from offset \<open>n\<close> on.\<close>

fun contiguous :: "nat \<Rightarrow> (u64 \<times> bytes) list \<Rightarrow> bool" where
  "contiguous n [] = True"
| "contiguous n ((off, d) # fs) = (unat off = n \<and> d \<noteq> [] \<and> contiguous (n + length d) fs)"

section \<open>Lemmas on single operations\<close>

lemma rel_inv_nat:
  "rel_inv r \<longleftrightarrow>
     unat (ackedOffset r) \<le> unat (sentCursor r) \<and> unat (sentCursor r) \<le> unat (sendOffset r) \<and>
     unat (lastAck r) \<le> unat (recvOffset r) \<and> 0 < maxReplay r \<and> int (length (replay r)) \<le> maxReplay r \<and>
     (if broken r then replay r = [] \<and> sentCursor r = sendOffset r
      else length (replay r) = unat (sendOffset r) - unat (ackedOffset r))"
  by (simp add: rel_inv_def word_le_nat_alt)

lemma rel_inv_newReliable: "rel_inv (newReliable n)"
  by (simp add: rel_inv_def newReliable_def DefaultMaxReplayBytes_def)

lemma rel_inv_markBroken: "rel_inv r \<Longrightarrow> rel_inv (markBrokenLocked r)"
  by (simp add: rel_inv_def markBrokenLocked_def)

lemma markBrokenLocked_simps [simp]:
  "broken (markBrokenLocked r)" "replay (markBrokenLocked r) = []"
  "sendOffset (markBrokenLocked r) = sendOffset r" "sentCursor (markBrokenLocked r) = sendOffset r"
  "ackedOffset (markBrokenLocked r) = sendOffset r" "recvOffset (markBrokenLocked r) = recvOffset r"
  "lastAck (markBrokenLocked r) = lastAck r" "maxReplay (markBrokenLocked r) = maxReplay r"
  "ackEager (markBrokenLocked r) = ackEager r"
  by (simp_all add: markBrokenLocked_def)

text \<open>Replay goes first: the chunk that starts at the cursor, and the cursor moves past it.\<close>

lemma nextOut_replay_pending:
  fixes cap :: nat
  assumes "rel_inv r" and "\<not> broken r" and "sentCursor r < sendOffset r"
  defines "chunk \<equiv> take cap (drop (unat (sentCursor r) - unat (ackedOffset r)) (replay r))"
  shows "nextOut_replay cap r =
           Some (Some (sentCursor r, chunk, r\<lparr>sentCursor := sentCursor r + of_nat (length chunk)\<rparr>))"
    and "unat (sentCursor r + of_nat (length chunk)) = unat (sentCursor r) + length chunk"
    and "unat (sentCursor r) + length chunk \<le> unat (sendOffset r)"
    and "cap > 0 \<Longrightarrow> chunk \<noteq> []"
proof -
  have len: "length (replay r) = unat (sendOffset r) - unat (ackedOffset r)"
    and ord: "unat (ackedOffset r) \<le> unat (sentCursor r)" "unat (sentCursor r) < unat (sendOffset r)"
    using assms by (simp_all add: rel_inv_nat word_less_nat_alt)
  then have start: "unat (sentCursor r) - unat (ackedOffset r) \<le> length (replay r)"
    and diff: "unat (sentCursor r - ackedOffset r) = unat (sentCursor r) - unat (ackedOffset r)"
    using assms(1) by (simp_all add: unat_diff_u64 rel_inv_def)
  show "nextOut_replay cap r =
      Some (Some (sentCursor r, chunk, r\<lparr>sentCursor := sentCursor r + of_nat (length chunk)\<rparr>))"
    using assms(2,3) start by (simp add: nextOut_replay_def diff chunk_def Let_def)
  show le: "unat (sentCursor r) + length chunk \<le> unat (sendOffset r)"
    using len ord by (simp add: chunk_def)
  show "unat (sentCursor r + of_nat (length chunk)) = unat (sentCursor r) + length chunk"
    using le unat_u64_less [of "sendOffset r"] by (intro unat_add_u64) linarith
  show "cap > 0 \<Longrightarrow> chunk \<noteq> []"
    using len ord by (simp add: chunk_def)
qed

lemma nextOut_replay_none:
  "\<not> (\<not> broken r \<and> sentCursor r < sendOffset r) \<Longrightarrow> nextOut_replay cap r = Some None"
  by (auto simp: nextOut_replay_def)

lemma rel_inv_nextOut_replay:
  assumes "rel_inv r" and "nextOut_replay cap r = Some (Some (off, d, r'))"
  shows "rel_inv r'"
proof -
  have "\<not> broken r \<and> sentCursor r < sendOffset r"
    using assms(2) nextOut_replay_none [of r cap] by (cases "\<not> broken r \<and> sentCursor r < sendOffset r") auto
  with nextOut_replay_pending [OF assms(1)] assms show ?thesis
    by (auto simp: rel_inv_nat)
qed

text \<open>New bytes get the next offset; an unbroken layer retains them or breaks for lack of room.\<close>

lemma nextOut_number_cases:
  assumes "rel_inv r" and "unat (sendOffset r) + length d < 2 ^ 64" and "nextOut_number d r = (off, r')"
  shows "off = sendOffset r" and "unat (sendOffset r') = unat (sendOffset r) + length d"
    and "sentCursor r' = sendOffset r'" and "recvOffset r' = recvOffset r" and "lastAck r' = lastAck r"
    and "broken r' \<longleftrightarrow> broken r \<or> int (length (replay r @ d)) > maxReplay r"
    and "\<not> broken r' \<Longrightarrow> replay r' = replay r @ d \<and> ackedOffset r' = ackedOffset r"
    and "rel_inv r'"
proof -
  have add: "unat (sendOffset r + of_nat (length d)) = unat (sendOffset r) + length d"
    by (rule unat_add_u64 [OF assms(2)])
  show "off = sendOffset r" "unat (sendOffset r') = unat (sendOffset r) + length d"
    "sentCursor r' = sendOffset r'" "recvOffset r' = recvOffset r" "lastAck r' = lastAck r"
    "broken r' \<longleftrightarrow> broken r \<or> int (length (replay r @ d)) > maxReplay r"
    "\<not> broken r' \<Longrightarrow> replay r' = replay r @ d \<and> ackedOffset r' = ackedOffset r"
    using assms(3) add by (auto simp: nextOut_number_def Let_def split: if_splits)
  show "rel_inv r'"
    using assms(1,3) add by (auto simp: rel_inv_nat nextOut_number_def Let_def split: if_splits)
qed

text \<open>
  Moving the acknowledged offset of an unbroken layer up to \<open>n\<close> keeps the bytes from \<open>n\<close> on;
  acknowledgement and resume only differ in the cursor.
\<close>

lemma release:
  assumes "rel_inv r" and "\<not> broken r" and "ackedOffset r \<le> n" and "n \<le> sendOffset r"
  shows "slice_from (replay r) (unat (n - ackedOffset r)) =
           Some (drop (unat n - unat (ackedOffset r)) (replay r))"
    and "n \<le> c \<Longrightarrow> c \<le> sendOffset r \<Longrightarrow>
           rel_inv (r\<lparr>replay := drop (unat n - unat (ackedOffset r)) (replay r), ackedOffset := n, sentCursor := c\<rparr>)"
proof -
  have nat: "unat (ackedOffset r) \<le> unat n" "unat n \<le> unat (sendOffset r)"
    "length (replay r) = unat (sendOffset r) - unat (ackedOffset r)"
    using assms by (simp_all add: rel_inv_nat word_le_nat_alt)
  then show "slice_from (replay r) (unat (n - ackedOffset r)) =
      Some (drop (unat n - unat (ackedOffset r)) (replay r))"
    using assms(3) by (simp add: unat_diff_u64)
  show "rel_inv (r\<lparr>replay := drop (unat n - unat (ackedOffset r)) (replay r), ackedOffset := n, sentCursor := c\<rparr>)"
    if "n \<le> c" "c \<le> sendOffset r"
  proof -
    let ?rest = "drop (unat n - unat (ackedOffset r)) (replay r)"
    have "int (length ?rest) \<le> int (length (replay r))" by (simp only: length_drop)
    also have "\<dots> \<le> maxReplay r" using assms(1) by (simp only: rel_inv_nat)
    finally have "int (length ?rest) \<le> maxReplay r" .
    moreover have "length ?rest = unat (sendOffset r) - unat n" using nat by simp
    ultimately show ?thesis
      using assms(1,2) that by (simp add: rel_inv_nat word_le_nat_alt del: length_drop)
  qed
qed

lemma ack_cases:
  assumes "rel_inv r"
  obtains (bad) "n > sendOffset r" "ack n r = Some (Some ErrBadAck, markBrokenLocked r)"
  | (old) "n \<le> sendOffset r" "broken r \<or> n \<le> ackedOffset r" "ack n r = Some (None, r)"
  | (moves) "n \<le> sendOffset r" "\<not> broken r" "ackedOffset r < n"
      "ack n r = Some (None, r\<lparr>replay := drop (unat n - unat (ackedOffset r)) (replay r), ackedOffset := n,
                               sentCursor := max (sentCursor r) n\<rparr>)"
proof -
  consider "n > sendOffset r" | "n \<le> sendOffset r" "broken r \<or> n \<le> ackedOffset r"
    | (m) "n \<le> sendOffset r" "\<not> broken r" "ackedOffset r < n" by (meson not_le)
  then show thesis
  proof cases
    case m
    then show ?thesis
      using release(1) [OF assms, of n]
      by (intro moves) (auto simp: ack_def max_def not_le [symmetric])
  qed (auto intro: bad old simp: ack_def not_less)
qed

lemma resumeOut_cases:
  assumes "rel_inv r"
  obtains (refused) "broken r \<or> n < ackedOffset r \<or> n > sendOffset r" "resumeOut n r = Some (False, r)"
  | (rewinds) "\<not> broken r" "ackedOffset r \<le> n" "n \<le> sendOffset r"
      "resumeOut n r = Some (True, r\<lparr>replay := drop (unat n - unat (ackedOffset r)) (replay r),
                                     ackedOffset := n, sentCursor := n\<rparr>)"
proof (cases "broken r \<or> n < ackedOffset r \<or> n > sendOffset r")
  case True
  then show ?thesis by (intro refused) (simp_all add: resumeOut_def)
next
  case False
  then have ok: "\<not> broken r" "ackedOffset r \<le> n" "n \<le> sendOffset r" by (simp_all add: not_less)
  then show ?thesis
    using release(1) [OF assms ok] by (intro rewinds) (simp_all add: resumeOut_def not_less [symmetric])
qed

text \<open>
  A received frame, on every branch. The slice in the last one cannot be out of range: the sum
  did not wrap around, or it would not be above \<open>off\<close>.
\<close>

lemma recvIn_cases:
  assumes "length p < 2 ^ 64"
  obtains (gap) "off > recvOffset r" "recvIn off p r inp out = Some (Some ErrReplayGap, markBrokenLocked r, inp, out)"
  | (dup) "off \<le> recvOffset r" "off + of_nat (length p) \<le> recvOffset r" "recvIn off p r inp out = Some (None, r, inp, out)"
  | (closed) "off \<le> recvOffset r" "p_closed inp" "recvIn off p r inp out = Some (Some ErrClosedPipe, r, inp, out)"
  | (extends) k out' where "off \<le> recvOffset r" "\<not> p_closed inp" "k = unat (recvOffset r) - unat off"
      "k < length p" "unat off + length p < 2 ^ 64"
      "recvIn off p r inp out =
         Some (None, r\<lparr>recvOffset := recvOffset r + of_nat (length p - k)\<rparr>, snd (snd (Write inp (drop k p))), out')"
      "out' = out \<or> out' = interrupt out"
proof -
  consider "off > recvOffset r" | "off \<le> recvOffset r" "off + of_nat (length p) \<le> recvOffset r"
    | (e) "off \<le> recvOffset r" "off + of_nat (length p) > recvOffset r" by force
  then show thesis
  proof cases
    case e
    define k where "k = unat (recvOffset r) - unat off"
    have k: "unat (recvOffset r - off) = k" using e(1) by (simp add: unat_diff_u64 k_def)
    have sum: "unat (off + of_nat (length p)) = (unat off + length p) mod 2 ^ 64"
      using assms by (simp add: unat_word_ariths unat_of_nat)
    have nowrap: "unat off + length p < 2 ^ 64"
    proof (rule ccontr)
      assume wrap: "\<not> unat off + length p < 2 ^ 64"
      then have "(unat off + length p) mod 2 ^ 64 = unat off + length p - 2 ^ 64"
        using assms unat_u64_less [of off] by (simp add: mod_if)
      with wrap sum assms have "unat (off + of_nat (length p)) < unat off" by linarith
      with e show False by (simp add: word_less_nat_alt word_le_nat_alt)
    qed
    then have "unat (off + of_nat (length p)) = unat off + length p" by (simp add: sum)
    then have kl: "k < length p" using e by (simp add: word_less_nat_alt word_le_nat_alt k_def)
    show ?thesis
    proof (cases "p_closed inp")
      case True
      then show ?thesis using e kl by (intro closed) (auto simp: recvIn_def k Let_def)
    next
      case False
      then obtain l inp' where w: "Write inp (drop k p) = (Inr (length p - k), l, inp')"
        using Write_result [of inp "drop k p"] by (cases "Write inp (drop k p)") auto
      let ?r1 = "r\<lparr>recvOffset := recvOffset r + of_nat (length p - k)\<rparr>"
      let ?out = "if ackEager ?r1 > 0 \<and> recvOffset ?r1 - lastAck ?r1 \<ge> of_int (ackEager ?r1)
                  then interrupt out else out"
      have run: "recvIn off p r inp out = Some (None, ?r1, inp', ?out)"
        using e kl by (simp add: recvIn_def k w Let_def not_less [symmetric] del: of_nat_diff)
      show ?thesis
        by (rule extends [of k ?out, OF e(1) False k_def kl nowrap]) (simp_all add: run w del: of_nat_diff)
    qed
  qed (auto intro: gap dup simp: recvIn_def)
qed

section \<open>Lemmas on histories\<close>

lemma run_op_inv:
  assumes inv: "rel_inv r"
    and small: "unat (sendOffset r) + op_bytes x < 2 ^ 64" "unat (recvOffset r) + op_bytes x < 2 ^ 64"
  shows "\<exists>r'. run_op x r = Some r' \<and> rel_inv r' \<and> (broken r \<longrightarrow> broken r') \<and>
     unat (sendOffset r') \<le> unat (sendOffset r) + op_bytes x \<and> unat (recvOffset r') \<le> unat (recvOffset r) + op_bytes x"
proof (cases x)
  case (OpReplay cap)
  show ?thesis
  proof (cases "\<not> broken r \<and> sentCursor r < sendOffset r")
    case True
    with OpReplay inv nextOut_replay_pending(1) [of r cap] rel_inv_nextOut_replay [OF inv, of cap] show ?thesis by auto
  qed (use OpReplay inv nextOut_replay_none [of r cap] in auto)
next
  case (OpNumber d)
  with nextOut_number_cases(2,4,6,8) [OF inv, of d] small show ?thesis
    by (cases "nextOut_number d r") auto
next
  case (OpRecv off d closed)
  have "length d < 2 ^ 64" using small OpRecv by simp
  then show ?thesis
  proof (cases rule: recvIn_cases [where p = d and r = r and off = off and inp = "pipe_that_is closed" and out = NewBufferedPipe])
    case (extends k out')
    then have new: "unat (recvOffset r + of_nat (length d - k)) = unat (recvOffset r) + (length d - k)"
      using small OpRecv by (intro unat_add_u64) simp
    then have "unat (lastAck r) \<le> unat (recvOffset r + of_nat (length d - k))"
      using inv by (simp add: rel_inv_nat)
    with new extends inv OpRecv show ?thesis by (simp add: rel_inv_nat del: of_nat_diff)
  qed (use OpRecv inv rel_inv_markBroken in auto)
next
  case (OpAck n)
  from inv show ?thesis
  proof (cases rule: ack_cases [of r n])
    case moves
    have "sentCursor r \<le> sendOffset r" using inv by (simp add: rel_inv_def)
    with moves OpAck release(2) [OF inv, of n "max (sentCursor r) n"] show ?thesis by simp
  qed (use OpAck inv rel_inv_markBroken in auto)
next
  case (OpResume n)
  from inv show ?thesis
  proof (cases rule: resumeOut_cases [of r n])
    case rewinds
    with OpResume release(2) [OF inv, of n n] show ?thesis by simp
  qed (use OpResume inv in auto)
qed (use inv rel_inv_markBroken in \<open>auto simp: takeAck_def resetAck_def rewindToAcked_def markBroken_def rel_inv_nat\<close>)

lemma run_ops_inv:
  assumes "rel_inv r" and "unat (sendOffset r) + sum_list (map op_bytes xs) < 2 ^ 64"
    and "unat (recvOffset r) + sum_list (map op_bytes xs) < 2 ^ 64"
  shows "\<exists>r'. run_ops xs r = Some r' \<and> rel_inv r' \<and> (broken r \<longrightarrow> broken r')"
  using assms
proof (induction xs arbitrary: r)
  case (Cons x xs)
  from run_op_inv [OF Cons.prems(1), of x] Cons.prems(2,3)
  obtain r1 where r1: "run_op x r = Some r1" "rel_inv r1" "broken r \<longrightarrow> broken r1"
    "unat (sendOffset r1) \<le> unat (sendOffset r) + op_bytes x" "unat (recvOffset r1) \<le> unat (recvOffset r) + op_bytes x"
    by auto
  with Cons.IH [OF r1(2)] Cons.prems(2,3) show ?case by auto
qed simp

lemma replay_end:
  assumes "rel_inv r" and "\<not> broken r" and "\<not> sentCursor r < sendOffset r"
  shows "r\<lparr>sentCursor := sendOffset r\<rparr> = r" and "length (replay r) = unat (sentCursor r) - unat (ackedOffset r)"
proof -
  have "sendOffset r = sentCursor r" using assms by (simp add: rel_inv_def)
  with assms show "r\<lparr>sentCursor := sendOffset r\<rparr> = r"
    "length (replay r) = unat (sentCursor r) - unat (ackedOffset r)" by (simp_all add: rel_inv_def)
qed

lemma replay_all_sends:
  assumes "rel_inv r" and "\<not> broken r" and "cap > 0" and "unat (sendOffset r) - unat (sentCursor r) \<le> fuel"
  shows "\<exists>fs. replay_all fuel cap r = Some (fs, r\<lparr>sentCursor := sendOffset r\<rparr>) \<and>
     contiguous (unat (sentCursor r)) fs \<and>
     concat (map snd fs) = drop (unat (sentCursor r) - unat (ackedOffset r)) (replay r)"
  using assms
proof (induction fuel arbitrary: r)
  case (Suc fuel)
  show ?case
  proof (cases "sentCursor r < sendOffset r")
    case True
    define chunk where "chunk = take cap (drop (unat (sentCursor r) - unat (ackedOffset r)) (replay r))"
    let ?r1 = "r\<lparr>sentCursor := sentCursor r + of_nat (length chunk)\<rparr>"
    note nx = nextOut_replay_pending [OF Suc.prems(1,2) True, of cap, folded chunk_def]
    have inv1: "rel_inv ?r1" using rel_inv_nextOut_replay [OF Suc.prems(1) nx(1)] .
    have "unat (sendOffset ?r1) - unat (sentCursor ?r1) \<le> fuel"
      using nx(2,4) Suc.prems(3,4) by (cases chunk) auto
    then obtain fs where fs: "replay_all fuel cap ?r1 = Some (fs, ?r1\<lparr>sentCursor := sendOffset r\<rparr>)"
        "contiguous (unat (sentCursor r) + length chunk) fs"
        "concat (map snd fs) = drop (unat (sentCursor r) + length chunk - unat (ackedOffset r)) (replay r)"
      using Suc.IH [OF inv1] Suc.prems(2,3) nx(2) by auto
    have "chunk @ drop (unat (sentCursor r) + length chunk - unat (ackedOffset r)) (replay r) =
        drop (unat (sentCursor r) - unat (ackedOffset r)) (replay r)"
    proof -
      have "unat (ackedOffset r) \<le> unat (sentCursor r)" using Suc.prems(1) by (simp add: rel_inv_nat)
      then have "drop (unat (sentCursor r) + length chunk - unat (ackedOffset r)) (replay r) =
          drop (length chunk) (drop (unat (sentCursor r) - unat (ackedOffset r)) (replay r))"
        by (simp add: add.commute)
      moreover have "chunk = take (length chunk) (drop (unat (sentCursor r) - unat (ackedOffset r)) (replay r))"
        by (metis append_eq_conv_conj append_take_drop_id chunk_def)
      ultimately show ?thesis by (metis append_take_drop_id)
    qed
    with fs nx(1,4) Suc.prems(3) show ?thesis by simp
  next
    case False
    with replay_end [OF Suc.prems(1,2)] show ?thesis by (simp add: nextOut_replay_none)
  qed
next
  case 0
  then have "\<not> sentCursor r < sendOffset r" by (simp add: word_less_nat_alt)
  with replay_end [OF 0(1,2)] show ?case by (simp add: nextOut_replay_none)
qed

text \<open>The outcome of \<open>nextOut\<close> on every branch.\<close>

lemma nextOut_safe:
  assumes "rel_inv r"
  shows "nextOut cap r meanwhile out sch \<noteq> Panics"
proof (cases "\<not> broken r \<and> sentCursor r < sendOffset r")
  case True
  then show ?thesis using nextOut_replay_pending(1) [OF assms, of cap] by (simp add: nextOut_def)
next
  case False
  then show ?thesis using nextOut_replay_none [OF False, of cap]
    by (simp add: nextOut_def Let_def split: option.split sum.split prod.split)
qed

text \<open>A call that returns has replayed, has waited in vain, or has numbered what the pipe had.\<close>

lemma nextOut_cases:
  assumes "nextOut cap r meanwhile out sch = Returns (res, r', out')" and "rel_inv r"
  obtains
    (replays) d where "\<not> broken r" and "sentCursor r < sendOffset r" and "d = take cap (drop (unat (sentCursor r) - unat (ackedOffset r)) (replay r))"
      and "nextOut_replay cap r = Some (Some (sentCursor r, d, r'))" and "res = Inr (sentCursor r, d)" and "out' = out"
      and "r' = r\<lparr>sentCursor := sentCursor r + of_nat (length d)\<rparr>" and "unat (sentCursor r') = unat (sentCursor r) + length d"
      and "rel_inv r'" and "0 < cap \<Longrightarrow> d \<noteq> []"
  | (idle) pres sch' where "\<not> (\<not> broken r \<and> sentCursor r < sendOffset r)" and "sentCursor r = sendOffset r"
      and "ReadAvailable cap out sch = Some (pres, out', sch')" and "(case pres of Inl _ \<Rightarrow> [] | Inr d \<Rightarrow> d) = []"
      and "res = (case pres of Inl e \<Rightarrow> Inl e | Inr _ \<Rightarrow> Inr (0, []))" and "r' = meanwhile r"
  | (numbers) off d sch' where "\<not> (\<not> broken r \<and> sentCursor r < sendOffset r)" and "sentCursor r = sendOffset r"
      and "ReadAvailable cap out sch = Some (Inr d, out', sch')" and "d \<noteq> []" and "length d \<le> cap"
      and "nextOut_number d (meanwhile r) = (off, r')" and "res = Inr (off, d)"
proof (cases "\<not> broken r \<and> sentCursor r < sendOffset r")
  case True
  define d where "d = take cap (drop (unat (sentCursor r) - unat (ackedOffset r)) (replay r))"
  note pend = nextOut_replay_pending [OF assms(2) conjunct1 [OF True] conjunct2 [OF True], of cap, folded d_def]
  have "res = Inr (sentCursor r, d)" "r' = r\<lparr>sentCursor := sentCursor r + of_nat (length d)\<rparr>" "out' = out"
    using assms(1) pend(1) by (simp_all add: nextOut_def)
  then show thesis
    using replays [OF _ _ d_def] True pend rel_inv_nextOut_replay [OF assms(2) pend(1)] by simp
next
  case False
  then have cursor: "sentCursor r = sendOffset r" using assms(2) by (auto simp: rel_inv_def)
  have none: "nextOut_replay cap r = Some None" by (rule nextOut_replay_none [OF False])
  then obtain pres sch' where ra: "ReadAvailable cap out sch = Some (pres, out', sch')"
    using assms(1) by (auto simp: nextOut_def Let_def split: option.splits sum.splits if_splits prod.splits)
  obtain off r2 where num: "nextOut_number (case pres of Inl _ \<Rightarrow> [] | Inr d \<Rightarrow> d) (meanwhile r) = (off, r2)" by force
  show thesis
  proof (cases "(case pres of Inl _ \<Rightarrow> [] | Inr d \<Rightarrow> d) = []")
    case True
    then show thesis using assms(1) none ra by (intro idle [OF False cursor ra]) (auto simp: nextOut_def split: sum.splits)
  next
    case ne: False
    then obtain d where d: "pres = Inr d" "d \<noteq> []" by (cases pres) auto
    then show thesis
      using assms(1) none ra num ReadAvailable_outcome_length [OF ra d(1)] by (intro numbers [OF False cursor]) (auto simp: nextOut_def)
  qed
qed

section \<open>Properties\<close>

text \<open>
  C5: No history of operations makes the layer panic or leave its invariant, whatever the peer
  sends, as long as fewer than \<open>2 ^ 64\<close> bytes pass: the acknowledged offset, the cursor and the
  sent offset stay in order, the replay buffer holds exactly the unacknowledged bytes and
  never more than its bound, and once broken the layer stays broken and refuses every resume.
\<close>

theorem reliable_never_panics:
  assumes "sum_list (map op_bytes xs) < 2 ^ 64"
  shows "\<exists>r. run_ops xs (newReliable n) = Some r \<and> rel_inv r \<and> int (unacked r) \<le> maxReplay r \<and>
     (\<forall>ys peer r'. broken r \<longrightarrow> sum_list (map op_bytes ys) + max (unat (sendOffset r)) (unat (recvOffset r)) < 2 ^ 64 \<longrightarrow>
        run_ops ys r = Some r' \<longrightarrow> resumeOut peer r' = Some (False, r'))"
proof -
  obtain r where r: "run_ops xs (newReliable n) = Some r" "rel_inv r"
    using run_ops_inv [OF rel_inv_newReliable, of n xs] assms by (auto simp: newReliable_def)
  have "resumeOut peer r' = Some (False, r')"
    if "broken r" "sum_list (map op_bytes ys) + max (unat (sendOffset r)) (unat (recvOffset r)) < 2 ^ 64"
      "run_ops ys r = Some r'" for ys peer r'
    using run_ops_inv [OF r(2), of ys] that by (auto simp: resumeOut_def)
  with r show ?thesis by (auto simp: unacked_def rel_inv_def)
qed

text \<open>
  Resuming at the offset the peer reports is accepted exactly if the layer is not broken and
  the offset lies between the acknowledged and the sent one; it can be repeated with the same
  result. After it the transport replays, in chunks of at most \<open>cap\<close> bytes that follow each
  other from that offset, exactly the retained bytes from there on, and then nothing more.
\<close>

lemma resume_replays:
  assumes "rel_inv r" and "cap > 0" and "resumeOut n r = Some (ok, r')"
  shows "(ok \<longleftrightarrow> \<not> broken r \<and> ackedOffset r \<le> n \<and> n \<le> sendOffset r) \<and> resumeOut n r' = Some (ok, r') \<and>
     (ok \<longrightarrow> (\<exists>fs. replay_all (length (replay r)) cap r' = Some (fs, r'\<lparr>sentCursor := sendOffset r\<rparr>) \<and>
        contiguous (unat n) fs \<and> concat (map snd fs) = drop (unat n - unat (ackedOffset r)) (replay r)))"
  using assms(1)
proof (cases rule: resumeOut_cases [of r n])
  case refused
  with assms(3) show ?thesis by (auto simp: not_le)
next
  case rewinds
  then have r': "r' = r\<lparr>replay := drop (unat n - unat (ackedOffset r)) (replay r), ackedOffset := n, sentCursor := n\<rparr>" and ok
    using assms(3) by simp_all
  have inv': "rel_inv r'" using release(2) [OF assms(1) rewinds(1-3), of n] rewinds r' by simp
  have "unat (sendOffset r') - unat (sentCursor r') \<le> length (replay r)"
    using assms(1) rewinds r' by (simp add: rel_inv_nat word_le_nat_alt)
  from replay_all_sends [OF inv' _ assms(2) this] show ?thesis
    using rewinds r' \<open>ok\<close> by (simp add: resumeOut_def)
qed

section \<open>Witnesses\<close>

text \<open>A layer that has sent three bytes, the first of which is acknowledged.\<close>

definition sample_layer :: reliable where
  "sample_layer =
     \<lparr>sendOffset = 3, ackedOffset = 1, sentCursor = 3, replay = [2, 3], maxReplay = 8, broken = False,
      recvOffset = 0, lastAck = 0, ackEager = 0\<rparr>"

lemma sample_layer_inv: "rel_inv sample_layer"
  by (simp add: rel_inv_def sample_layer_def)

theorem reliable_never_panics_witness:
  "\<exists>r. run_ops [OpNumber [1, 2, 3], OpAck 2, OpResume 2, OpReplay 4, OpRecv 0 [9] False, OpAck 9, OpReplay 1]
     (newReliable 10) = Some r \<and> rel_inv r"
  using reliable_never_panics
    [of "[OpNumber [1, 2, 3], OpAck 2, OpResume 2, OpReplay 4, OpRecv 0 [9] False, OpAck 9, OpReplay 1]" 10]
  by (simp del: run_ops.simps) blast

lemma resume_replays_witness:
  "\<exists>r' fs. resumeOut 2 sample_layer = Some (True, r') \<and>
     replay_all 2 1 r' = Some (fs, r'\<lparr>sentCursor := 3\<rparr>) \<and> concat (map snd fs) = [3]"
proof -
  have run: "resumeOut 2 sample_layer = Some (True, sample_layer\<lparr>replay := [3], ackedOffset := 2, sentCursor := 2\<rparr>)"
    by (simp add: resumeOut_def sample_layer_def slice_from_def)
  from resume_replays [OF sample_layer_inv _ run, of 1]
  obtain fs where "replay_all (length (replay sample_layer)) 1
        (sample_layer\<lparr>replay := [3], ackedOffset := 2, sentCursor := 2\<rparr>) =
      Some (fs, sample_layer\<lparr>replay := [3], ackedOffset := 2, sentCursor := 2\<rparr>\<lparr>sentCursor := sendOffset sample_layer\<rparr>)"
    "concat (map snd fs) = drop (unat (2 :: u64) - unat (ackedOffset sample_layer)) (replay sample_layer)"
    by auto
  moreover have "length (replay sample_layer) = 2" "sendOffset sample_layer = 3"
    "drop (unat (2 :: u64) - unat (ackedOffset sample_layer)) (replay sample_layer) = [3]"
    by (simp_all add: sample_layer_def)
  ultimately show ?thesis using run by (intro exI conjI) (simp_all only:)
qed

end
