(* ===== verification/Link.thy ===== *)
theory Link
  imports Reliable
begin

text \<open>
  One direction of a resumable session end to end: the sender's layer and outbound pipe, the
  receiver's layer and inbound pipe, and between them a transport that may be cut at any byte
  and replaced. The steps are the locked sections of \<^verbatim>\<open>reliable.go\<close> and \<^verbatim>\<open>pipe.go\<close> in the
  order in which the transport handlers on either side call them: the sender's loop around
  \<open>nextOut\<close> (\<^verbatim>\<open>pollStreamResumable\<close>, \<^verbatim>\<open>pollBatchResumable\<close>, the client's legs), the
  receiver's \<open>recvIn\<close>, acknowledgements, and the resume handshake of \<^verbatim>\<open>resume_server.go\<close> and
  \<^verbatim>\<open>resumable_client.go\<close>.

  \<open>chan\<close> holds the frames in flight on the attached transport. Frames of transports that were
  replaced may still arrive late, interleaved in any way: they are kept in \<open>zombies\<close>.
  Acknowledgements in flight may be lost, duplicated into later ones or reordered. The fields
  \<open>written\<close> and \<open>delivered\<close> record what the applications wrote and read; \<open>forced\<close> records
  that the layer was given up (\<open>markBroken\<close>) for a reason other than a full replay buffer.
  \<open>hand\<close> is the data a sender has taken from the pipe and not numbered yet.

  The properties: what the receiver gets is always a prefix of what the sender wrote; unless
  the layer was given up, no frame ever arrives with a gap, no acknowledgement is refused and
  a resume is always accepted, whatever was cut, delayed or replayed; and a session that is
  resumed delivers everything.
\<close>

section \<open>The system\<close>

record link =
  tx :: reliable
  outp :: pipe
  hand :: bytes
  rx :: reliable
  inp :: pipe
  chan :: "(u64 \<times> bytes) list"
  zombies :: "(u64 \<times> bytes) list list"
  acks :: "u64 list"
  up :: bool
  written :: bytes
  delivered :: bytes
  forced :: bool

definition link_init :: "link \<Rightarrow> bool" where
  "link_init s \<longleftrightarrow> (\<exists>n m. s =
     \<lparr>tx = newReliable n, outp = NewBufferedPipe, hand = [], rx = newReliable m, inp = NewBufferedPipe,
      chan = [], zombies = [], acks = [], up = True, written = [], delivered = [], forced = False\<rparr>)"

text \<open>
  A frame at the receiver. The eager acknowledgement interrupts the receiver's own outbound
  pipe, which belongs to the other direction.
\<close>

definition recv_frame :: "u64 \<Rightarrow> bytes \<Rightarrow> reliable \<Rightarrow> pipe \<Rightarrow> (error option \<times> reliable \<times> pipe) option" where
  "recv_frame off d r i = map_option (\<lambda>(e, r', i', _). (e, r', i')) (recvIn off d r i NewBufferedPipe)"

text \<open>A frame handed to the transport: lost if the transport is already dead.\<close>

definition sent :: "link \<Rightarrow> u64 \<Rightarrow> bytes \<Rightarrow> (u64 \<times> bytes) list" where
  "sent s off d = (if up s then chan s @ [(off, d)] else chan s)"

inductive link_step :: "link \<Rightarrow> link \<Rightarrow> bool" where
  app_write: "\<lbrakk>Write (outp s) d = (Inr n, l, out'); length (written s) + length d < 2 ^ 64\<rbrakk> \<Longrightarrow>
     link_step s (s\<lparr>outp := out', written := written s @ d\<rparr>)"
| app_close: "link_step s (s\<lparr>outp := Close (outp s)\<rparr>)"
| take_new: "\<lbrakk>hand s = []; nextOut_replay cap (tx s) = Some None; p_buf (outp s) \<noteq> []; cap > 0\<rbrakk> \<Longrightarrow>
     link_step s (s\<lparr>hand := fst (take_out cap (outp s)), outp := snd (take_out cap (outp s))\<rparr>)"
| number: "\<lbrakk>hand s \<noteq> []; nextOut_number (hand s) (tx s) = (off, r')\<rbrakk> \<Longrightarrow>
     link_step s (s\<lparr>tx := r', hand := [], chan := sent s off (hand s)\<rparr>)"
| replay: "\<lbrakk>hand s = []; nextOut_replay cap (tx s) = Some (Some (off, d, r')); cap > 0\<rbrakk> \<Longrightarrow>
     link_step s (s\<lparr>tx := r', chan := sent s off d\<rparr>)"
| deliver: "\<lbrakk>chan s = (off, d) # rest; recv_frame off d (rx s) (inp s) = Some (None, r', i')\<rbrakk> \<Longrightarrow>
     link_step s (s\<lparr>chan := rest, rx := r', inp := i'\<rparr>)"
| deliver_fails: "\<lbrakk>chan s = (off, d) # rest; recv_frame off d (rx s) (inp s) = Some (Some e, r', i')\<rbrakk> \<Longrightarrow>
     link_step s (s\<lparr>chan := [], up := False, rx := r', inp := i'\<rparr>)"
| deliver_late: "\<lbrakk>zombies s = zs1 @ ((off, d) # rest) # zs2; recv_frame off d (rx s) (inp s) = Some (e, r', i')\<rbrakk> \<Longrightarrow>
     link_step s (s\<lparr>zombies := zs1 @ (if e = None then [rest] else []) @ zs2, rx := r', inp := i'\<rparr>)"
| app_read: "link_step s (s\<lparr>inp := snd (take_out n (inp s)), delivered := delivered s @ fst (take_out n (inp s))\<rparr>)"
| app_close_in: "link_step s (s\<lparr>inp := Close (inp s)\<rparr>)"
| send_ack: "takeAck (rx s) = (Some a, r') \<Longrightarrow> link_step s (s\<lparr>rx := r', acks := acks s @ [a]\<rparr>)"
| report_ack: "link_step s (s\<lparr>acks := acks s @ [recvOffsetNow (rx s)]\<rparr>)"
| reset_ack: "link_step s (s\<lparr>rx := resetAck (rx s)\<rparr>)"
| recv_ack: "\<lbrakk>acks s = as1 @ a # as2; ack a (tx s) = Some (e, r')\<rbrakk> \<Longrightarrow>
     link_step s (s\<lparr>acks := as1 @ as2, tx := r'\<rparr>)"
| cut: "link_step s (s\<lparr>up := False, chan := take k (chan s)\<rparr>)"
| resume: "\<lbrakk>hand s = []; n \<le> recvOffsetNow (rx s); resumeOut n (tx s) = Some (True, r')\<rbrakk> \<Longrightarrow>
     link_step s (s\<lparr>tx := r', zombies := chan s # zombies s, chan := [], up := True\<rparr>)"
| rewind: "hand s = [] \<Longrightarrow> link_step s (s\<lparr>tx := rewindToAcked (tx s)\<rparr>)"
| mark_broken: "link_step s (s\<lparr>tx := markBroken (tx s), forced := True\<rparr>)"

section \<open>A fair transport\<close>

text \<open>
  One turn of a transport that works: the sender's loop puts one frame on the wire, replay
  first, and the receiver takes it.
\<close>

definition deliver_one :: "link \<Rightarrow> link" where
  "deliver_one s =
     (case chan s of
        [] \<Rightarrow> s
      | (off, d) # rest \<Rightarrow>
          (case recv_frame off d (rx s) (inp s) of
             Some (None, r', i') \<Rightarrow> s\<lparr>chan := rest, rx := r', inp := i'\<rparr>
           | _ \<Rightarrow> s))"

definition send_one :: "nat \<Rightarrow> link \<Rightarrow> link" where
  "send_one cap s =
     (case nextOut_replay cap (tx s) of
        Some (Some (off, d, r')) \<Rightarrow> s\<lparr>tx := r', chan := sent s off d\<rparr>
      | _ \<Rightarrow>
          if p_buf (outp s) = [] then s
          else
            let d = fst (take_out cap (outp s)); num = nextOut_number d (tx s)
            in s\<lparr>outp := snd (take_out cap (outp s)), tx := snd num, chan := sent s (fst num) d\<rparr>)"

definition link_round :: "nat \<Rightarrow> link \<Rightarrow> link" where
  "link_round cap s = deliver_one (send_one cap s)"

section \<open>The invariant\<close>

text \<open>
  Frames without a gap for a receiver that has \<open>n\<close> bytes, and how far they bring it.
\<close>

fun gapless :: "nat \<Rightarrow> (u64 \<times> bytes) list \<Rightarrow> bool" where
  "gapless n [] = True"
| "gapless n ((off, d) # fs) = (unat off \<le> n \<and> gapless (max n (unat off + length d)) fs)"

fun endpoint :: "nat \<Rightarrow> (u64 \<times> bytes) list \<Rightarrow> nat" where
  "endpoint n [] = n"
| "endpoint n ((off, d) # fs) = endpoint (max n (unat off + length d)) fs"

text \<open>A frame carries the bytes the application wrote at its offset, among the first \<open>n\<close>.\<close>

definition frame_of :: "bytes \<Rightarrow> nat \<Rightarrow> u64 \<times> bytes \<Rightarrow> bool" where
  "frame_of w n f \<longleftrightarrow>
     unat (fst f) + length (snd f) \<le> n \<and> snd f = segment w (unat (fst f)) (length (snd f))"

text \<open>
  The invariant of the contents: what each part of the system holds, as a part of what the
  application wrote.
\<close>

definition content_inv :: "link \<Rightarrow> bool" where
  "content_inv s \<longleftrightarrow>
     (let S = unat (sendOffset (tx s)); R = unat (recvOffset (rx s)); w = written s in
      rel_inv (tx s) \<and> length w < 2 ^ 64 \<and> S \<le> length w \<and> R \<le> S \<and>
      hand s @ p_buf (outp s) = drop S w \<and>
      (\<not> broken (tx s) \<longrightarrow> replay (tx s) = segment w (unat (ackedOffset (tx s))) (S - unat (ackedOffset (tx s)))) \<and>
      (\<forall>f \<in> set (chan s) \<union> \<Union> (set ` set (zombies s)). frame_of w S f) \<and>
      delivered s @ p_buf (inp s) = take R w)"

text \<open>The invariant of the order: what is known to have arrived, and that no gap is in flight.\<close>

definition order_inv :: "link \<Rightarrow> bool" where
  "order_inv s \<longleftrightarrow>
     (let R = unat (recvOffset (rx s)) in
      (\<forall>a \<in> set (acks s). unat a \<le> R) \<and>
      (\<not> broken (tx s) \<longrightarrow> unat (ackedOffset (tx s)) \<le> R) \<and>
      (hand s \<noteq> [] \<longrightarrow> sentCursor (tx s) = sendOffset (tx s)) \<and>
      (\<not> forced s \<longrightarrow>
         gapless R (chan s) \<and> (\<forall>fs \<in> set (zombies s). gapless R fs) \<and>
         (up s \<longrightarrow> unat (sentCursor (tx s)) \<le> endpoint R (chan s))))"

definition link_inv :: "link \<Rightarrow> bool" where
  "link_inv s \<longleftrightarrow> content_inv s \<and> order_inv s"

section \<open>Lemmas on frames\<close>

lemma gapless_mono: "n \<le> m \<Longrightarrow> gapless n fs \<Longrightarrow> gapless m fs"
proof (induction n fs arbitrary: m rule: gapless.induct)
  case (2 n off d fs)
  then show ?case using "2.IH" [of "max m (unat off + length d)"] by auto
qed simp

lemma endpoint_mono: "n \<le> m \<Longrightarrow> endpoint n fs \<le> endpoint m fs"
proof (induction n fs arbitrary: m rule: endpoint.induct)
  case (2 n off d fs)
  then show ?case using "2.IH" [of "max m (unat off + length d)"] by auto
qed simp

lemma endpoint_ge: "n \<le> endpoint n fs"
  by (induction n fs rule: endpoint.induct) auto

lemma gapless_append: "gapless n (fs @ gs) \<longleftrightarrow> gapless n fs \<and> gapless (endpoint n fs) gs"
  by (induction n fs rule: gapless.induct) auto

lemma endpoint_append: "endpoint n (fs @ gs) = endpoint (endpoint n fs) gs"
  by (induction n fs rule: endpoint.induct) auto

lemma gapless_take: "gapless n fs \<Longrightarrow> gapless n (take k fs)"
  by (metis append_take_drop_id gapless_append)

lemma frame_of_extend: "frame_of w n f \<Longrightarrow> n \<le> m \<Longrightarrow> m \<le> length w \<Longrightarrow> frame_of (w @ v) m f"
  by (auto simp: frame_of_def segment_append_left)

lemma frame_of_self: "n \<le> m \<Longrightarrow> frame_of w n f \<Longrightarrow> frame_of w m f"
  by (auto simp: frame_of_def)

section \<open>Lemmas on single steps\<close>

text \<open>
  A frame of the right content at a receiver of the right content: how far the receiver gets,
  and that what it has stays a prefix.
\<close>

lemma recv_frame_extends:
  assumes f: "frame_of w n (off, d)" and w: "n \<le> length w" "length w < 2 ^ 64"
    and got: "del @ p_buf i = take (unat (recvOffset r)) w"
    and run: "recv_frame off d r i = Some (e, r', i')"
  shows "del @ p_buf i' = take (unat (recvOffset r')) w"
    and "unat (recvOffset r) \<le> unat (recvOffset r')"
    and "unat (recvOffset r') \<le> max (unat (recvOffset r)) n"
    and "e = None \<Longrightarrow> unat (recvOffset r') = max (unat (recvOffset r)) (unat off + length d)"
    and "unat off \<le> unat (recvOffset r) \<Longrightarrow> e = None \<or> e = Some ErrClosedPipe"
    and "e = Some ErrClosedPipe \<Longrightarrow> p_closed i"
proof -
  have bound: "unat off + length d \<le> n" and seg: "d = segment w (unat off) (length d)"
    using f by (simp_all add: frame_of_def)
  have len: "length d < 2 ^ 64" using bound w by linarith
  have "del @ p_buf i' = take (unat (recvOffset r')) w \<and> unat (recvOffset r) \<le> unat (recvOffset r') \<and>
    unat (recvOffset r') \<le> max (unat (recvOffset r)) n \<and>
    (e = None \<longrightarrow> unat (recvOffset r') = max (unat (recvOffset r)) (unat off + length d)) \<and>
    (unat off \<le> unat (recvOffset r) \<longrightarrow> e = None \<or> e = Some ErrClosedPipe) \<and>
    (e = Some ErrClosedPipe \<longrightarrow> p_closed i)"
    using len
  proof (cases rule: recvIn_cases [where p = d and r = r and off = off and inp = i and out = NewBufferedPipe])
    case gap
    with run got show ?thesis by (auto simp: recv_frame_def word_less_nat_alt)
  next
    case dup
    have "unat (off + of_nat (length d)) = unat off + length d"
      using bound w by (intro unat_add_u64) linarith
    with dup run got show ?thesis by (auto simp: recv_frame_def word_le_nat_alt)
  next
    case closed
    with run got show ?thesis by (auto simp: recv_frame_def)
  next
    case (extends k out')
    let ?R = "unat (recvOffset r)"
    have r': "e = None" "r' = r\<lparr>recvOffset := recvOffset r + of_nat (length d - k)\<rparr>" "i' = snd (snd (Write i (drop k d)))"
      using run extends by (simp_all add: recv_frame_def)
    have le: "unat off \<le> ?R" using extends(1) by (simp add: word_le_nat_alt)
    then have new: "unat (recvOffset r') = unat off + length d"
      using r'(2) extends(3-5) unat_add_u64 [of "recvOffset r" "length d - k"] by simp
    have "p_buf i' = p_buf i @ drop k d" using r'(3) extends(2) by (simp add: Write_buf)
    moreover have "drop k d = segment w ?R (unat off + length d - ?R)"
      using arg_cong [OF seg, of "drop k"] le extends(3) by (simp add: drop_segment add.commute)
    moreover have "take ?R w @ segment w ?R (unat off + length d - ?R) = take (unat off + length d) w"
      using le extends(3,4) by (simp add: take_append_segment)
    ultimately have "del @ p_buf i' = take (unat (recvOffset r')) w"
      using got new by (metis append_assoc)
    with new le bound extends(3,4) r'(1) show ?thesis by auto
  qed
  then show "del @ p_buf i' = take (unat (recvOffset r')) w"
    "unat (recvOffset r) \<le> unat (recvOffset r')" "unat (recvOffset r') \<le> max (unat (recvOffset r)) n"
    "e = None \<Longrightarrow> unat (recvOffset r') = max (unat (recvOffset r)) (unat off + length d)"
    "unat off \<le> unat (recvOffset r) \<Longrightarrow> e = None \<or> e = Some ErrClosedPipe"
    "e = Some ErrClosedPipe \<Longrightarrow> p_closed i"
    by simp_all
qed

text \<open>A chunk of replay is a frame of the right content.\<close>

lemma replay_frame:
  assumes "rel_inv r" and "nextOut_replay cap r = Some (Some (off, d, r'))"
    and "replay r = segment w (unat (ackedOffset r)) (unat (sendOffset r) - unat (ackedOffset r))"
    and "unat (sendOffset r) \<le> length w"
  shows "off = sentCursor r" and "\<not> broken r" and "r' = r\<lparr>sentCursor := sentCursor r'\<rparr>"
    and "unat (sentCursor r') = unat (sentCursor r) + length d" and "frame_of w (unat (sendOffset r)) (off, d)"
proof -
  have pend: "\<not> broken r" "sentCursor r < sendOffset r"
    using assms(2) by (auto simp: nextOut_replay_def split: if_splits)
  let ?d = "take cap (drop (unat (sentCursor r) - unat (ackedOffset r)) (replay r))"
  note nx = nextOut_replay_pending [OF assms(1) pend, of cap]
  have "off = sentCursor r \<and> d = ?d \<and> r' = r\<lparr>sentCursor := sentCursor r + of_nat (length ?d)\<rparr>"
    using trans [OF assms(2) [symmetric] nx(1)] by (simp only: option.inject prod.inject)
  then have eq: "off = sentCursor r" "d = ?d" "r' = r\<lparr>sentCursor := sentCursor r + of_nat (length ?d)\<rparr>"
    by blast+
  then show "off = sentCursor r" "\<not> broken r" "r' = r\<lparr>sentCursor := sentCursor r'\<rparr>"
    "unat (sentCursor r') = unat (sentCursor r) + length d"
    using pend nx(2) by simp_all
  have ord: "unat (ackedOffset r) \<le> unat (sentCursor r)" using assms(1) by (simp add: rel_inv_nat)
  have bound: "unat (sentCursor r) + length d \<le> unat (sendOffset r)" using nx(3) eq(2) by simp
  have "d = take cap (segment w (unat (sentCursor r)) (unat (sendOffset r) - unat (sentCursor r)))"
    using eq(2) assms(3) ord bound by (simp add: drop_segment)
  then have "d = segment w (unat (sentCursor r)) (length d)"
    by (simp add: segment_def take_take min_def)
  with bound eq(1) show "frame_of w (unat (sendOffset r)) (off, d)" by (simp add: frame_of_def)
qed

lemma segment_glue: "a \<le> b \<Longrightarrow> segment w a (b - a) @ take k (drop b w) = segment w a (b + k - a)"
  using take_add [of "b - a" k "drop a w"] by (simp add: segment_def)

lemma content_invI:
  assumes "rel_inv (tx s)" and "length (written s) < 2 ^ 64" and "unat (sendOffset (tx s)) \<le> length (written s)"
    and "unat (recvOffset (rx s)) \<le> unat (sendOffset (tx s))"
    and "hand s @ p_buf (outp s) = drop (unat (sendOffset (tx s))) (written s)"
    and "\<not> broken (tx s) \<Longrightarrow> replay (tx s) =
           segment (written s) (unat (ackedOffset (tx s))) (unat (sendOffset (tx s)) - unat (ackedOffset (tx s)))"
    and "\<And>f. f \<in> set (chan s) \<Longrightarrow> frame_of (written s) (unat (sendOffset (tx s))) f"
    and "\<And>fs f. fs \<in> set (zombies s) \<Longrightarrow> f \<in> set fs \<Longrightarrow> frame_of (written s) (unat (sendOffset (tx s))) f"
    and "delivered s @ p_buf (inp s) = take (unat (recvOffset (rx s))) (written s)"
  shows "content_inv s"
  using assms by (auto simp: content_inv_def Let_def)

lemma content_invD:
  assumes "content_inv s"
  shows "rel_inv (tx s)" and "length (written s) < 2 ^ 64" and "unat (sendOffset (tx s)) \<le> length (written s)"
    and "unat (recvOffset (rx s)) \<le> unat (sendOffset (tx s))"
    and "hand s @ p_buf (outp s) = drop (unat (sendOffset (tx s))) (written s)"
    and "\<not> broken (tx s) \<Longrightarrow> replay (tx s) =
           segment (written s) (unat (ackedOffset (tx s))) (unat (sendOffset (tx s)) - unat (ackedOffset (tx s)))"
    and "f \<in> set (chan s) \<Longrightarrow> frame_of (written s) (unat (sendOffset (tx s))) f"
    and "fs \<in> set (zombies s) \<Longrightarrow> f \<in> set fs \<Longrightarrow> frame_of (written s) (unat (sendOffset (tx s))) f"
    and "delivered s @ p_buf (inp s) = take (unat (recvOffset (rx s))) (written s)"
  using assms by (auto simp: content_inv_def Let_def)

text \<open>Steps that change only the sender's layer, keeping the sent offset.\<close>

lemma content_inv_tx:
  assumes "content_inv s" and "rel_inv r" and "sendOffset r = sendOffset (tx s)"
    and "\<not> broken r \<Longrightarrow> replay r = segment (written s) (unat (ackedOffset r)) (unat (sendOffset r) - unat (ackedOffset r))"
  shows "content_inv (s\<lparr>tx := r\<rparr>)"
  using content_invD [OF assms(1)] assms(2-4) by (intro content_invI) simp_all

lemma drop_replay:
  assumes "content_inv s" and "\<not> broken (tx s)" and "ackedOffset (tx s) \<le> n" and "n \<le> sendOffset (tx s)"
  shows "drop (unat n - unat (ackedOffset (tx s))) (replay (tx s)) =
           segment (written s) (unat n) (unat (sendOffset (tx s)) - unat n)"
  using content_invD(6) [OF assms(1,2)] assms(3,4) by (simp add: drop_segment word_le_nat_alt)

lemma content_ack:
  assumes "content_inv s" and "ack a (tx s) = Some (e, r')"
  shows "content_inv (s\<lparr>tx := r'\<rparr>)"
  using content_invD(1) [OF assms(1)]
proof (cases rule: ack_cases [of "tx s" a])
  case moves
  have "sentCursor (tx s) \<le> sendOffset (tx s)" using content_invD(1) [OF assms(1)] by (simp add: rel_inv_def)
  with moves assms show ?thesis
    using release(2) [OF content_invD(1) [OF assms(1)], of a "max (sentCursor (tx s)) a"] drop_replay [OF assms(1), of a]
    by (intro content_inv_tx) simp_all
qed (use assms content_invD(1,6) [OF assms(1)] rel_inv_markBroken in \<open>auto intro!: content_inv_tx\<close>)

lemma content_resume:
  assumes "content_inv s" and "resumeOut n (tx s) = Some (True, r')"
  shows "content_inv (s\<lparr>tx := r'\<rparr>)"
  using content_invD(1) [OF assms(1)]
proof (cases rule: resumeOut_cases [of "tx s" n])
  case rewinds
  then show ?thesis
    using assms release(2) [OF content_invD(1) [OF assms(1)], of n n] drop_replay [OF assms(1), of n]
    by (intro content_inv_tx) simp_all
qed (use assms in simp)

lemma set_sent: "f \<in> set (sent s off d) \<Longrightarrow> f = (off, d) \<or> f \<in> set (chan s)"
  by (auto simp: sent_def split: if_splits)

lemma content_number:
  assumes "content_inv s" and "hand s \<noteq> []" and "nextOut_number (hand s) (tx s) = (off, r')"
  shows "content_inv (s\<lparr>tx := r', hand := [], chan := sent s off (hand s)\<rparr>)" (is "content_inv ?t")
proof -
  let ?S = "unat (sendOffset (tx s))" and ?n = "length (hand s)" and ?w = "written s"
  note inv = content_invD [OF assms(1)]
  have rest: "drop ?S ?w = hand s @ p_buf (outp s)" using inv(5) by simp
  then have "length ?w - ?S = ?n + length (p_buf (outp s))" by (metis length_append length_drop)
  with assms(2) have fits: "?S + ?n \<le> length ?w" by (cases "hand s") auto
  then have "?S + ?n < 2 ^ 64" using inv(2) by simp
  note num = nextOut_number_cases [OF inv(1) this assms(3)]
  have hand: "hand s = take ?n (drop ?S ?w)" using rest by simp
  have buf: "p_buf (outp s) = drop (?S + ?n) ?w" using arg_cong [OF rest, of "drop ?n"] by (simp add: add.commute)
  show ?thesis
  proof (rule content_invI)
    fix f assume "f \<in> set (chan ?t)"
    then have "f = (off, hand s) \<or> f \<in> set (chan s)" by (simp add: set_sent)
    moreover have "frame_of ?w (?S + ?n) (off, hand s)"
      using num(1) hand by (simp add: frame_of_def segment_def)
    moreover have "frame_of ?w (?S + ?n) g" if "g \<in> set (chan s)" for g
      using frame_of_self [OF _ inv(7) [OF that]] by simp
    ultimately show "frame_of (written ?t)
        (unat (sendOffset (tx ?t))) f"
      using num(2) by (cases f) auto
  next
    fix fs f assume "fs \<in> set (zombies ?t)" "f \<in> set fs"
    then have "frame_of ?w (?S + ?n) f" by (intro frame_of_self [OF _ inv(8)]) simp_all
    then show "frame_of (written ?t)
        (unat (sendOffset (tx ?t))) f"
      using num(2) by simp
  next
    assume nb: "\<not> broken (tx ?t)"
    then have "replay r' = replay (tx s) @ hand s" "ackedOffset r' = ackedOffset (tx s)" "\<not> broken (tx s)"
      using num(6,7) by auto
    moreover have "unat (ackedOffset (tx s)) \<le> ?S" using inv(1) by (simp add: rel_inv_nat)
    ultimately have "replay r' = segment ?w (unat (ackedOffset r')) (?S + ?n - unat (ackedOffset r'))"
      using inv(6) hand segment_glue by metis
    then show "replay (tx ?t) =
        segment (written ?t)
         (unat (ackedOffset (tx ?t)))
         (unat (sendOffset (tx ?t)) -
          unat (ackedOffset (tx ?t)))"
      using num(2) by simp
  qed (use inv num buf fits in simp_all)
qed

lemma content_frame:
  assumes "content_inv s" and "frame_of (written s) (unat (sendOffset (tx s))) (off, d)"
    and "recv_frame off d (rx s) (inp s) = Some (e, rx t, inp t)"
    and same: "tx t = tx s" "outp t = outp s" "hand t = hand s" "written t = written s" "delivered t = delivered s"
    and "set (chan t) \<subseteq> set (chan s)"
    and "\<And>fs. fs \<in> set (zombies t) \<Longrightarrow> \<exists>gs \<in> set (zombies s). set fs \<subseteq> set gs"
  shows "content_inv t"
proof -
  note inv = content_invD [OF assms(1)]
  note ext = recv_frame_extends [OF assms(2) inv(3,2,9) assms(3)]
  show ?thesis
  proof (rule content_invI)
    show "frame_of (written t) (unat (sendOffset (tx t))) f" if "fs \<in> set (zombies t)" "f \<in> set fs" for fs f
      using assms(10) [OF that(1)] inv(8) [of _ f] that same by auto
    show "frame_of (written t) (unat (sendOffset (tx t))) f" if "f \<in> set (chan t)" for f
      using assms(9) inv(7) [of f] that same by auto
  qed (use inv(1-6,9) ext(1,3) same in simp_all)
qed

lemma content_write:
  assumes "content_inv s" and "Write (outp s) d = (Inr n, l, out')" and "length (written s) + length d < 2 ^ 64"
  shows "content_inv (s\<lparr>outp := out', written := written s @ d\<rparr>)"
proof -
  note inv = content_invD [OF assms(1)]
  have buf: "p_buf out' = p_buf (outp s) @ d"
    using assms(2) Write_buf [of "outp s" d] Write_result [of "outp s" d] by (auto split: if_splits)
  have "segment (written s) k n = segment (written s @ d) k n" if "k + n \<le> unat (sendOffset (tx s))" for k n
    using segment_append_left [of k n "written s" d] inv(3) that by simp
  moreover have "unat (ackedOffset (tx s)) \<le> unat (sendOffset (tx s))" using inv(1) by (simp add: rel_inv_nat)
  moreover have "frame_of (written s @ d) (unat (sendOffset (tx s))) f"
    if "frame_of (written s) (unat (sendOffset (tx s))) f" for f
    using frame_of_extend [OF that le_refl inv(3)] .
  ultimately show ?thesis
    using inv(1-6,9) assms(3) buf by (intro content_invI) (simp_all add: inv(7,8))
qed

lemma content_replay:
  assumes "content_inv s" and "nextOut_replay cap (tx s) = Some (Some (off, d, r'))"
  shows "content_inv (s\<lparr>tx := r', chan := sent s off d\<rparr>)"
proof -
  note inv = content_invD [OF assms(1)]
  have nb: "\<not> broken (tx s)" using assms(2) by (auto simp: nextOut_replay_def split: if_splits)
  note fr = replay_frame [OF inv(1) assms(2) inv(6) [OF nb] inv(3)]
  have "rel_inv r'" by (rule rel_inv_nextOut_replay [OF inv(1) assms(2)])
  moreover have "sendOffset r' = sendOffset (tx s)" "ackedOffset r' = ackedOffset (tx s)"
    "replay r' = Reliable.replay (tx s)" "broken r' = broken (tx s)"
    by (subst fr(3), simp)+
  ultimately show ?thesis
    using inv fr(5) set_sent by (intro content_invI) (auto dest: set_sent)
qed

text \<open>A frame on the wire, or on the wire of a transport that is being replaced, is a part of the stream.\<close>

lemma content_frames:
  assumes "content_inv s"
  shows "chan s = f # rest \<Longrightarrow> frame_of (written s) (unat (sendOffset (tx s))) f"
    and "zombies s = zs1 @ (f # rest) # zs2 \<Longrightarrow> frame_of (written s) (unat (sendOffset (tx s))) f"
  using content_invD(7) [OF assms, of f] content_invD(8) [OF assms, of "f # rest"] by simp_all

lemma content_late:
  assumes "content_inv s" and "zombies s = zs1 @ ((off, d) # rest) # zs2" and "recv_frame off d (rx s) (inp s) = Some (e, r', i')"
  shows "content_inv (s\<lparr>zombies := zs1 @ (if e = None then [rest] else []) @ zs2, rx := r', inp := i'\<rparr>)"
proof (rule content_frame [OF assms(1) content_frames(2) [OF assms(1,2)], where e = e])
  fix fs
  assume "fs \<in> set (zombies (s\<lparr>zombies := zs1 @ (if e = None then [rest] else []) @ zs2, rx := r', inp := i'\<rparr>))"
  then have "fs \<in> set zs1 \<or> fs \<in> set zs2 \<or> fs = rest" by (auto split: if_splits)
  then show "\<exists>gs \<in> set (zombies s). set fs \<subseteq> set gs" using assms(2) by auto
qed (use assms(3) in simp_all)

lemma content_sender:
  assumes "content_inv s"
  shows "content_inv (s\<lparr>tx := rewindToAcked (tx s)\<rparr>)" and "content_inv (s\<lparr>tx := markBroken (tx s), forced := True\<rparr>)"
proof -
  have "rel_inv (rewindToAcked (tx s))"
    using content_invD(1) [OF assms] by (auto simp: rel_inv_def rewindToAcked_def)
  with assms show "content_inv (s\<lparr>tx := rewindToAcked (tx s)\<rparr>)"
    using content_invD(6) [OF assms] by (intro content_inv_tx) (simp_all add: rewindToAcked_def split: if_splits)
  have "content_inv (s\<lparr>tx := markBroken (tx s)\<rparr>)"
    using rel_inv_markBroken [OF content_invD(1) [OF assms]] assms
    by (intro content_inv_tx) (simp_all add: markBroken_def)
  then show "content_inv (s\<lparr>tx := markBroken (tx s), forced := True\<rparr>)" by (simp add: content_inv_def Let_def)
qed

lemma content_step: "link_step s t \<Longrightarrow> content_inv s \<Longrightarrow> content_inv t"
proof (induction rule: link_step.induct)
  case (take_new s cap)
  then show ?case using content_invD [OF take_new(5)] by (intro content_invI) (auto simp del: drop_drop)
next
  case (deliver s off d rest r' i')
  show ?case by (rule content_frame [OF deliver(3) content_frames(1) [OF deliver(3,1)], where e = None]) (use deliver(1,2) in auto)
next
  case (deliver_fails s off d rest e r' i')
  show ?case
    by (rule content_frame [OF deliver_fails(3) content_frames(1) [OF deliver_fails(3,1)], where e = "Some e"]) (use deliver_fails(1,2) in auto)
next
  case (app_read s n)
  then show ?case using content_invD [OF app_read(1)] by (intro content_invI) simp_all
next
  case (recv_ack s as1 a as2 e r')
  from content_ack [OF recv_ack(3,2)] show ?case by (simp add: content_inv_def Let_def)
next
  case (resume s n r')
  from content_resume [OF resume(4,3)] show ?case by (simp add: content_inv_def Let_def)
next
  case (send_ack s a r')
  then have "recvOffset r' = recvOffset (rx s)" by (auto simp: takeAck_def split: if_splits)
  with send_ack(2) show ?case by (simp add: content_inv_def Let_def)
next
  case (cut s k)
  then show ?case using content_invD [OF cut(1)] by (intro content_invI) (simp_all, meson in_set_takeD)
next
  case (app_write s d n l out')
  then show ?case by (intro content_write)
next
  case (number s off r')
  then show ?case by (intro content_number)
next
  case (replay s cap off d r')
  then show ?case by (intro content_replay)
next
  case (deliver_late s zs1 off d rest zs2 e r' i')
  then show ?case by (intro content_late)
qed (simp_all add: content_sender, simp_all add: content_inv_def Let_def resetAck_def)

lemma order_invI:
  assumes "\<And>a. a \<in> set (acks s) \<Longrightarrow> unat a \<le> unat (recvOffset (rx s))"
    and "\<not> broken (tx s) \<Longrightarrow> unat (ackedOffset (tx s)) \<le> unat (recvOffset (rx s))"
    and "hand s \<noteq> [] \<Longrightarrow> sentCursor (tx s) = sendOffset (tx s)"
    and "\<not> forced s \<Longrightarrow> gapless (unat (recvOffset (rx s))) (chan s)"
    and "\<And>fs. \<not> forced s \<Longrightarrow> fs \<in> set (zombies s) \<Longrightarrow> gapless (unat (recvOffset (rx s))) fs"
    and "\<not> forced s \<Longrightarrow> up s \<Longrightarrow> unat (sentCursor (tx s)) \<le> endpoint (unat (recvOffset (rx s))) (chan s)"
  shows "order_inv s"
  using assms by (simp add: order_inv_def Let_def)

lemma order_invD:
  assumes "order_inv s"
  shows "a \<in> set (acks s) \<Longrightarrow> unat a \<le> unat (recvOffset (rx s))"
    and "\<not> broken (tx s) \<Longrightarrow> unat (ackedOffset (tx s)) \<le> unat (recvOffset (rx s))"
    and "hand s \<noteq> [] \<Longrightarrow> sentCursor (tx s) = sendOffset (tx s)"
    and "\<not> forced s \<Longrightarrow> gapless (unat (recvOffset (rx s))) (chan s)"
    and "\<not> forced s \<Longrightarrow> fs \<in> set (zombies s) \<Longrightarrow> gapless (unat (recvOffset (rx s))) fs"
    and "\<not> forced s \<Longrightarrow> up s \<Longrightarrow> unat (sentCursor (tx s)) \<le> endpoint (unat (recvOffset (rx s))) (chan s)"
  using assms by (simp_all add: order_inv_def Let_def)

text \<open>Nothing pending: the cursor is at the end.\<close>

lemma replay_none_cursor:
  assumes "rel_inv r" and "nextOut_replay cap r = Some None"
  shows "sentCursor r = sendOffset r"
proof (cases "broken r")
  case False
  have "\<not> sentCursor r < sendOffset r"
    using assms(2) False by (auto simp: nextOut_replay_def Let_def split: if_splits option.splits)
  with assms(1) show ?thesis by (simp add: rel_inv_def)
qed (use assms(1) in \<open>simp add: rel_inv_def\<close>)

text \<open>A frame that starts no later than where the receiver will be keeps the channel gapless.\<close>

lemma gapless_sent:
  assumes "gapless n (chan s)" and "up s \<Longrightarrow> unat off \<le> endpoint n (chan s)"
  shows "gapless n (sent s off d)" and "up s \<Longrightarrow> unat off + length d \<le> endpoint n (sent s off d)"
  using assms by (simp_all add: sent_def gapless_append endpoint_append)

lemma order_number:
  assumes "content_inv s" and "order_inv s" and "hand s \<noteq> []" and "nextOut_number (hand s) (tx s) = (off, r')"
  shows "order_inv (s\<lparr>tx := r', hand := [], chan := sent s off (hand s)\<rparr>)"
proof -
  note inv = content_invD [OF assms(1)] and ord = order_invD [OF assms(2)]
  have "length (hand s) \<le> length (drop (unat (sendOffset (tx s))) (written s))"
    using inv(5) by (metis length_append le_add1)
  then have "unat (sendOffset (tx s)) + length (hand s) < 2 ^ 64" using inv(2,3) by simp
  note num = nextOut_number_cases [OF inv(1) this assms(4)]
  have cur: "unat off \<le> endpoint (unat (recvOffset (rx s))) (chan s)" if "\<not> forced s" "up s"
    using ord(3) [OF assms(3)] ord(6) [OF that] num(1) by simp
  show ?thesis
  proof (rule order_invI)
    assume "\<not> broken (tx (s\<lparr>tx := r', hand := [], chan := sent s off (hand s)\<rparr>))"
    then show "unat (ackedOffset (tx (s\<lparr>tx := r', hand := [], chan := sent s off (hand s)\<rparr>))) \<le>
        unat (recvOffset (rx (s\<lparr>tx := r', hand := [], chan := sent s off (hand s)\<rparr>)))"
      using num(6,7) ord(2) by auto
  qed (use ord gapless_sent [OF ord(4), of off "hand s"] cur num(1,2,3) in auto)
qed

lemma order_replay:
  assumes "content_inv s" and "order_inv s" and "hand s = []" and "nextOut_replay cap (tx s) = Some (Some (off, d, r'))"
  shows "order_inv (s\<lparr>tx := r', chan := sent s off d\<rparr>)"
proof -
  note inv = content_invD [OF assms(1)] and ord = order_invD [OF assms(2)]
  have nb: "\<not> broken (tx s)" using assms(4) by (auto simp: nextOut_replay_def split: if_splits)
  note fr = replay_frame [OF inv(1) assms(4) inv(6) [OF nb] inv(3)]
  have same: "ackedOffset r' = ackedOffset (tx s)" by (subst fr(3)) simp
  have cur: "unat off \<le> endpoint (unat (recvOffset (rx s))) (chan s)" if "\<not> forced s" "up s"
    using ord(6) [OF that] fr(1) by simp
  show ?thesis
    by (rule order_invI) (use ord nb same assms(3) gapless_sent [OF ord(4), of off d] cur fr(1,4) in auto)
qed

lemma order_ack:
  assumes "content_inv s" and "order_inv s" and "acks s = as1 @ a # as2" and "ack a (tx s) = Some (e, r')"
  shows "e = None" and "order_inv (s\<lparr>acks := as1 @ as2, tx := r'\<rparr>)"
proof -
  note inv = content_invD [OF assms(1)] and ord = order_invD [OF assms(2)]
  have a: "unat a \<le> unat (recvOffset (rx s))" using ord(1) [of a] assms(3) by simp
  then have le: "a \<le> sendOffset (tx s)" using inv(4) by (simp add: word_le_nat_alt)
  have "e = None \<and> order_inv (s\<lparr>acks := as1 @ as2, tx := r'\<rparr>)"
    using inv(1)
  proof (cases rule: ack_cases [of "tx s" a])
    case bad
    with le show ?thesis by simp
  next
    case old
    then have "e = None" "r' = tx s" using assms(4) by simp_all
    then show ?thesis using ord assms(3) by (auto intro!: order_invI)
  next
    case moves
    then have r': "e = None" "broken r' = broken (tx s)" "ackedOffset r' = a" "sendOffset r' = sendOffset (tx s)"
        "sentCursor r' = max (sentCursor (tx s)) a"
      using assms(4) by simp_all
    have "unat (sentCursor r') = max (unat (sentCursor (tx s))) (unat a)"
      by (simp add: r'(5) max_def word_le_nat_alt)
    moreover have "unat a \<le> endpoint (unat (recvOffset (rx s))) (chan s)"
      using a endpoint_ge [of "unat (recvOffset (rx s))" "chan s"] by simp
    moreover have "hand s \<noteq> [] \<Longrightarrow> sentCursor r' = sendOffset (tx s)" using ord(3) le r'(5) by simp
    ultimately show ?thesis using ord a r' assms(3) by (auto intro!: order_invI)
  qed
  then show "e = None" "order_inv (s\<lparr>acks := as1 @ as2, tx := r'\<rparr>)" by simp_all
qed

text \<open>Steps in which the receiver moves forward and the sender's layer is unchanged.\<close>

lemma order_forward:
  assumes "order_inv s" and "unat (recvOffset (rx s)) \<le> unat (recvOffset (rx t))"
    and same: "tx t = tx s" "hand t = hand s" "acks t = acks s" "forced t = forced s" "up t \<longrightarrow> up s"
    and chan: "\<not> forced s \<Longrightarrow> gapless (unat (recvOffset (rx t))) (chan t)"
      "\<not> forced s \<Longrightarrow> up t \<Longrightarrow>
         endpoint (unat (recvOffset (rx s))) (chan s) \<le> endpoint (unat (recvOffset (rx t))) (chan t)"
    and zombies: "\<And>fs. \<not> forced s \<Longrightarrow> fs \<in> set (zombies t) \<Longrightarrow> gapless (unat (recvOffset (rx t))) fs"
  shows "order_inv t"
proof -
  note ord = order_invD [OF assms(1)]
  show ?thesis
  proof (rule order_invI)
    show "unat a \<le> unat (recvOffset (rx t))" if "a \<in> set (acks t)" for a
      using ord(1) [of a] assms(2) same(3) that by simp
    show "unat (ackedOffset (tx t)) \<le> unat (recvOffset (rx t))" if "\<not> broken (tx t)"
      using ord(2) assms(2) same(1) that by simp
    show "unat (sentCursor (tx t)) \<le> endpoint (unat (recvOffset (rx t))) (chan t)" if "\<not> forced t" "up t"
      using ord(6) chan(2) same that by fastforce
  qed (use ord(3) same chan(1) zombies in simp_all)
qed

text \<open>A frame that arrives moves the receiver forward, and what is behind it on the wire still follows.\<close>

lemma order_arrival:
  assumes "content_inv s" and "order_inv s" and "frame_of (written s) (unat (sendOffset (tx s))) (off, d)"
    and "recv_frame off d (rx s) (inp s) = Some (e, r', i')"
  shows "chan s = (off, d) # rest \<Longrightarrow> e = None \<Longrightarrow> order_inv (s\<lparr>chan := rest, rx := r', inp := i'\<rparr>)"
    and "order_inv (s\<lparr>chan := [], up := False, rx := r', inp := i'\<rparr>)"
    and "zombies s = zs1 @ ((off, d) # rest) # zs2 \<Longrightarrow>
           order_inv (s\<lparr>zombies := zs1 @ (if e = None then [rest] else []) @ zs2, rx := r', inp := i'\<rparr>)"
proof -
  note inv = content_invD [OF assms(1)] and ord = order_invD [OF assms(2)]
  note ext = recv_frame_extends [OF assms(3) inv(3,2,9) assms(4)]
  show "order_inv (s\<lparr>chan := rest, rx := r', inp := i'\<rparr>)" if "chan s = (off, d) # rest" "e = None"
    by (rule order_forward [OF assms(2)]) (use ord(4,5) gapless_mono [OF ext(2)] ext(4) that in auto)
  show "order_inv (s\<lparr>chan := [], up := False, rx := r', inp := i'\<rparr>)"
    by (rule order_forward [OF assms(2)]) (use ext(2) ord(5) gapless_mono [OF ext(2)] in auto)
  assume late: "zombies s = zs1 @ ((off, d) # rest) # zs2"
  then have "gapless (unat (recvOffset r')) rest" if "\<not> forced s" "e = None" using ord(5) [of "(off, d) # rest"] ext(4) that by simp
  then show "order_inv (s\<lparr>zombies := zs1 @ (if e = None then [rest] else []) @ zs2, rx := r', inp := i'\<rparr>)"
    by (intro order_forward [OF assms(2)])
      (use ext(2) ord(4,5) gapless_mono [OF ext(2)] endpoint_mono [OF ext(2)] late in \<open>auto split: if_splits\<close>)
qed

lemma order_step: "link_step s t \<Longrightarrow> content_inv s \<Longrightarrow> order_inv s \<Longrightarrow> order_inv t"
proof (induction rule: link_step.induct)
  case (take_new s cap)
  then show ?case
    using replay_none_cursor [OF content_invD(1) [OF take_new(5)] take_new(2)] by (simp add: order_inv_def Let_def)
next
  case (deliver s off d rest r' i')
  show ?case by (rule order_arrival(1) [OF deliver(3,4) content_frames(1) [OF deliver(3,1)] deliver(2,1)]) simp
next
  case (deliver_fails s off d rest e r' i')
  show ?case by (rule order_arrival(2) [OF deliver_fails(3,4) content_frames(1) [OF deliver_fails(3,1)] deliver_fails(2)])
next
  case (deliver_late s zs1 off d rest zs2 e r' i')
  show ?case by (rule order_arrival(3) [OF deliver_late(3,4) content_frames(2) [OF deliver_late(3,1)] deliver_late(2,1)])
next
  case (send_ack s a r')
  then have "recvOffset r' = recvOffset (rx s)" "a = recvOffset (rx s)" by (auto simp: takeAck_def split: if_splits)
  with send_ack(3) show ?case by (auto simp: order_inv_def Let_def)
next
  case (resume s n r')
  have n: "unat n \<le> unat (recvOffset (rx s))" using resume(2) by (simp add: recvOffsetNow_def word_le_nat_alt)
  have "sentCursor r' = n" "ackedOffset r' = n"
    using resume(3) by (auto simp: resumeOut_def split: if_splits option.splits)
  with n order_invD [OF resume(5)] resume(1) show ?case by (auto intro!: order_invI)
next
  case (rewind s)
  have "unat (ackedOffset (tx s)) \<le> unat (sentCursor (tx s))"
    using content_invD(1) [OF rewind(2)] by (simp add: rel_inv_nat)
  with rewind(1,3) show ?case by (auto simp: order_inv_def Let_def rewindToAcked_def)
next
  case (number s off r')
  then show ?case by (intro order_number)
next
  case (replay s cap off d r')
  then show ?case by (intro order_replay)
next
  case (recv_ack s as1 a as2 e r')
  then show ?case by (intro order_ack(2))
qed (auto simp: order_inv_def Let_def gapless_take resetAck_def recvOffsetNow_def markBroken_def)

lemma link_inv_init: "link_init s \<Longrightarrow> link_inv s"
  by (auto simp: link_init_def link_inv_def content_inv_def order_inv_def Let_def rel_inv_newReliable)
    (auto simp: newReliable_def NewBufferedPipe_def segment_def)

interpretation link: inductive_invariant link_init link_step link_inv
  by unfold_locales (auto simp: link_inv_init, auto simp: link_inv_def intro: content_step order_step)

lemma reach_link_inv: "reach link_init link_step s \<Longrightarrow> content_inv s \<and> order_inv s"
  using link.reachable by (simp add: link_inv_def)

lemma recv_frame_total:
  assumes "frame_of w n (off, d)" and "n \<le> length w" and "length w < 2 ^ 64"
  obtains e r' i' where "recv_frame off d r i = Some (e, r', i')"
proof -
  have "length d < 2 ^ 64" using assms by (simp add: frame_of_def)
  then show thesis
    by (cases rule: recvIn_cases [where p = d and r = r and off = off and inp = i and out = NewBufferedPipe])
      (auto intro: that simp: recv_frame_def)
qed

text \<open>A frame that starts no later than the receiver's offset is accepted unless the pipe is closed.\<close>

lemma recv_frame_accepted:
  assumes "content_inv s" and "frame_of (written s) (unat (sendOffset (tx s))) (off, d)"
    and "unat off \<le> unat (recvOffset (rx s))"
  obtains e r' i' where "recv_frame off d (rx s) (inp s) = Some (e, r', i')"
    and "e = None \<or> e = Some ErrClosedPipe \<and> p_closed (inp s)"
proof -
  note inv = content_invD [OF assms(1)]
  obtain e r' i' where run: "recv_frame off d (rx s) (inp s) = Some (e, r', i')"
    using recv_frame_total [OF assms(2) inv(3,2)] by blast
  from recv_frame_extends(5,6) [OF assms(2) inv(3,2,9) run] assms(3) run that show thesis by blast
qed

text \<open>The layer breaks by itself only when more bytes were written than it may retain.\<close>

definition full_inv :: "link \<Rightarrow> bool" where
  "full_inv s \<longleftrightarrow> link_inv s \<and> (broken (tx s) \<longrightarrow> forced s \<or> maxReplay (tx s) < int (length (written s)))"

lemma full_number:
  assumes "content_inv s" and "nextOut_number (hand s) (tx s) = (off, r')"
  shows "maxReplay r' = maxReplay (tx s) \<and>
     (broken r' \<longrightarrow> broken (tx s) \<or> maxReplay (tx s) < int (length (written s)))"
proof -
  note inv = content_invD [OF assms(1)]
  have len: "length (drop (unat (sendOffset (tx s))) (written s)) = length (hand s) + length (p_buf (outp s))"
    using arg_cong [OF inv(5), of length] by simp
  then have "unat (sendOffset (tx s)) + length (hand s) < 2 ^ 64" using inv(2,3) by simp
  note num = nextOut_number_cases [OF inv(1) this assms(2)]
  have "length (replay (tx s)) \<le> unat (sendOffset (tx s))" if "\<not> broken (tx s)"
    using inv(1) that by (simp add: rel_inv_nat)
  then have "length (replay (tx s) @ hand s) \<le> length (written s)" if "\<not> broken (tx s)"
    using that len inv(3) by simp
  moreover have "maxReplay r' = maxReplay (tx s)"
    using assms(2) by (auto simp: nextOut_number_def Let_def split: if_splits)
  ultimately show ?thesis using num(6) by fastforce
qed

lemma full_step: "link_step s t \<Longrightarrow> full_inv s \<Longrightarrow> full_inv t"
proof -
  assume step: "link_step s t" and full: "full_inv s"
  then have inv: "content_inv s" "order_inv s" by (simp_all add: full_inv_def link_inv_def)
  have "broken (tx t) \<longrightarrow> forced t \<or> maxReplay (tx t) < int (length (written t))"
    using step full inv
  proof (induction rule: link_step.induct)
    case (number s off r')
    with full_number [OF number(4) number(2)] show ?case by (auto simp: full_inv_def)
  next
    case (replay s cap off d r')
    note c = content_invD [OF replay(5)]
    have nb: "\<not> broken (tx s)" using replay(2) by (auto simp: nextOut_replay_def split: if_splits)
    have "broken r' = broken (tx s)"
      by (subst replay_frame(3) [OF c(1) replay(2) c(6) [OF nb] c(3)]) simp
    with nb show ?case by simp
  next
    case (recv_ack s as1 a as2 e r')
    have "e = None" by (rule order_ack(1) [OF recv_ack(4,5,1,2)])
    with recv_ack(2) have "broken r' = broken (tx s) \<and> maxReplay r' = maxReplay (tx s)"
      by (auto simp: ack_def split: if_splits option.splits)
    with recv_ack(3) show ?case by (simp add: full_inv_def)
  next
    case (resume s n r')
    then have "broken r' = broken (tx s) \<and> maxReplay r' = maxReplay (tx s)"
      by (auto simp: resumeOut_def split: if_splits option.splits)
    with resume(4) show ?case by (simp add: full_inv_def)
  qed (auto simp: full_inv_def rewindToAcked_def)
  with step full show ?thesis by (simp add: full_inv_def link.inv_step [of s t])
qed

interpretation link_full: inductive_invariant link_init link_step full_inv
proof
  show "full_inv s" if "link_init s" for s
    using link_inv_init [OF that] that by (auto simp: full_inv_def link_init_def newReliable_def)
  show "full_inv t" if "full_inv s" "link_step s t" for s t
    using full_step that by blast
qed

section \<open>Rounds\<close>

text \<open>The state of a freshly attached transport between two rounds.\<close>

definition ready :: "link \<Rightarrow> bool" where
  "ready s \<longleftrightarrow> link_inv s \<and> hand s = [] \<and> chan s = [] \<and> up s \<and> \<not> forced s \<and> \<not> p_closed (inp s)"

lemma link_inv_steps: "link_step\<^sup>*\<^sup>* s t \<Longrightarrow> link_inv s \<Longrightarrow> link_inv t"
  by (rule link.along_run)

text \<open>
  Sending one frame: the cursor moves and one frame is in flight unless everything written has
  been sent, and nothing but the sender changes.
\<close>

definition sends :: "link \<Rightarrow> link \<Rightarrow> bool" where
  "sends s t \<longleftrightarrow> link_step\<^sup>*\<^sup>* s t \<and> hand t = [] \<and> up t \<and> \<not> forced t \<and> inp t = inp s \<and> written t = written s \<and>
     (if unat (sentCursor (tx s)) < length (written s)
      then unat (sentCursor (tx s)) < unat (sentCursor (tx t)) \<and> (\<exists>f. chan t = [f]) else t = s)"

lemma sends_replay:
  assumes "ready s" and "cap > 0" and pend: "\<not> broken (tx s)" "sentCursor (tx s) < sendOffset (tx s)"
  shows "sends s (send_one cap s)"
proof -
  have inv: "content_inv s" and h: "hand s = []" "chan s = []" "up s" "\<not> forced s"
    using assms(1) by (simp_all add: ready_def link_inv_def)
  note c = content_invD [OF inv]
  define d where "d = take cap (drop (unat (sentCursor (tx s)) - unat (ackedOffset (tx s))) (Reliable.replay (tx s)))"
  define r' where "r' = tx s\<lparr>sentCursor := sentCursor (tx s) + of_nat (length d)\<rparr>"
  note nx = nextOut_replay_pending [OF c(1) pend, of cap, folded d_def, folded r'_def]
  have one: "send_one cap s = s\<lparr>tx := r', chan := [(sentCursor (tx s), d)]\<rparr>"
    using nx(1) h by (simp add: send_one_def sent_def)
  have "link_step s (s\<lparr>tx := r', chan := sent s (sentCursor (tx s)) d\<rparr>)"
    by (rule link_step.replay [OF h(1) nx(1) assms(2)])
  then have "link_step s (send_one cap s)" using h by (simp add: one sent_def)
  moreover have "unat (sentCursor (tx s)) < unat (sentCursor r')" using nx(2,4) assms(2) by (simp add: r'_def)
  moreover have "unat (sentCursor (tx s)) < length (written s)" using pend(2) c(3) by (simp add: word_less_nat_alt)
  ultimately show ?thesis using h by (simp add: one sends_def)
qed

lemma sends_new:
  assumes "ready s" and "cap > 0" and none: "nextOut_replay cap (tx s) = Some None" and data: "p_buf (outp s) \<noteq> []"
  shows "sends s (send_one cap s)"
proof -
  have inv: "content_inv s" and h: "hand s = []" "chan s = []" "up s" "\<not> forced s"
    using assms(1) by (simp_all add: ready_def link_inv_def)
  note c = content_invD [OF inv]
  have cur: "sentCursor (tx s) = sendOffset (tx s)" by (rule replay_none_cursor [OF c(1) none])
  define d where "d = take cap (p_buf (outp s))"
  obtain off r' where num: "nextOut_number d (tx s) = (off, r')" by (cases "nextOut_number d (tx s)")
  let ?s1 = "s\<lparr>hand := d, outp := snd (take_out cap (outp s))\<rparr>"
  have one: "send_one cap s = s\<lparr>outp := snd (take_out cap (outp s)), tx := r', chan := [(off, d)]\<rparr>"
    using none data num h by (simp add: send_one_def sent_def Let_def d_def)
  have d: "d \<noteq> []" using data assms(2) by (simp add: d_def)
  have "link_step s ?s1" using take_new [OF h(1) none data assms(2)] by (simp add: d_def)
  moreover have "link_step ?s1 (?s1\<lparr>tx := r', hand := [], chan := sent ?s1 off d\<rparr>)"
    using link_step.number [of ?s1 off r'] d num by simp
  moreover have "?s1\<lparr>tx := r', hand := [], chan := sent ?s1 off d\<rparr> = send_one cap s"
    unfolding one using h by (intro link.equality) (simp_all add: sent_def)
  ultimately have steps: "link_step\<^sup>*\<^sup>* s (send_one cap s)" by (metis converse_rtranclp_into_rtranclp r_into_rtranclp)
  have "drop (unat (sendOffset (tx s))) (written s) = p_buf (outp s)" using c(5) h(1) by simp
  then have "length (written s) - unat (sendOffset (tx s)) = length (p_buf (outp s))" by (metis length_drop)
  then have fits: "unat (sendOffset (tx s)) + length d \<le> length (written s)" using c(3) by (simp add: d_def)
  then have "unat (sendOffset (tx s)) + length d < 2 ^ 64" using c(2) by simp
  note facts = nextOut_number_cases [OF c(1) this num]
  have "unat (sendOffset (tx s)) < length (written s)" using d fits by (cases d) auto
  then show ?thesis using steps one h facts(2,3) cur d by (simp add: sends_def)
qed

lemma sends_one:
  assumes "ready s" and "cap > 0"
  shows "sends s (send_one cap s)"
proof (cases "\<not> broken (tx s) \<and> sentCursor (tx s) < sendOffset (tx s)")
  case True
  with sends_replay [OF assms] show ?thesis by simp
next
  case False
  then have none: "nextOut_replay cap (tx s) = Some None" by (rule nextOut_replay_none)
  show ?thesis
  proof (cases "p_buf (outp s) = []")
    case True
    have c: "content_inv s" "hand s = []" using assms(1) by (simp_all add: ready_def link_inv_def)
    have "length (written s) = unat (sentCursor (tx s))"
      using content_invD(3,5) [OF c(1)] replay_none_cursor [OF content_invD(1) [OF c(1)] none] c(2) True by simp
    moreover have "send_one cap s = s" using none True by (simp add: send_one_def)
    ultimately show ?thesis using assms(1) by (simp add: sends_def ready_def)
  qed (rule sends_new [OF assms none])
qed

text \<open>One round keeps the transport ready and moves the cursor.\<close>

lemma link_round_ready:
  assumes "ready s" and "cap > 0"
  shows "ready (link_round cap s)" and "link_step\<^sup>*\<^sup>* s (link_round cap s)" and "written (link_round cap s) = written s"
    and "unat (sentCursor (tx s)) < length (written s) \<Longrightarrow>
           unat (sentCursor (tx s)) < unat (sentCursor (tx (link_round cap s)))"
proof -
  let ?t = "send_one cap s"
  have snd: "sends s ?t" by (rule sends_one [OF assms])
  have inv: "link_inv ?t" using snd assms(1) link_inv_steps by (auto simp: sends_def ready_def)
  have "ready (link_round cap s) \<and> link_step\<^sup>*\<^sup>* s (link_round cap s) \<and> written (link_round cap s) = written s \<and>
    (unat (sentCursor (tx s)) < length (written s) \<longrightarrow>
       unat (sentCursor (tx s)) < unat (sentCursor (tx (link_round cap s))))"
  proof (cases "unat (sentCursor (tx s)) < length (written s)")
    case True
    then obtain off d where chan: "chan ?t = [(off, d)]" using snd by (auto simp: sends_def)
    have c: "content_inv ?t" "order_inv ?t" "\<not> forced ?t" using inv snd by (simp_all add: link_inv_def sends_def)
    have "unat off \<le> unat (recvOffset (rx ?t))" using order_invD(4) [OF c(2,3)] chan by simp
    moreover have "frame_of (written ?t) (unat (sendOffset (tx ?t))) (off, d)"
      using content_invD(7) [OF c(1), of "(off, d)"] chan by simp
    ultimately obtain e r' i' where run: "recv_frame off d (rx ?t) (inp ?t) = Some (e, r', i')"
      and "e = None \<or> p_closed (inp ?t)" using recv_frame_accepted [OF c(1)] by blast
    moreover have "\<not> p_closed (inp ?t)" using snd assms(1) by (simp add: sends_def ready_def)
    ultimately have run: "recv_frame off d (rx ?t) (inp ?t) = Some (None, r', i')" by simp
    then have round: "link_round cap s = ?t\<lparr>chan := [], rx := r', inp := i'\<rparr>"
      using chan by (simp add: link_round_def deliver_one_def)
    have step: "link_step ?t (link_round cap s)" unfolding round by (rule deliver [OF chan run])
    moreover have "\<not> p_closed i'"
      using run \<open>\<not> p_closed (inp ?t)\<close>
      by (auto simp: recv_frame_def recvIn_def Let_def Write_def split: if_splits option.splits)
    ultimately show ?thesis
      using snd True link.inv_step [OF inv step] unfolding sends_def ready_def
      by (simp add: round) (metis round rtranclp.rtrancl_into_rtrancl step)
  next
    case False
    then have "?t = s" using snd by (simp add: sends_def)
    moreover have "chan s = []" using assms(1) by (simp add: ready_def)
    ultimately have "link_round cap s = s" by (simp add: link_round_def deliver_one_def)
    with False assms(1) show ?thesis by simp
  qed
  then show "ready (link_round cap s)" "link_step\<^sup>*\<^sup>* s (link_round cap s)" "written (link_round cap s) = written s"
    "unat (sentCursor (tx s)) < length (written s) \<Longrightarrow> unat (sentCursor (tx s)) < unat (sentCursor (tx (link_round cap s)))"
    by simp_all
qed

lemma ready_done:
  assumes "ready s" and "\<not> unat (sentCursor (tx s)) < length (written s)"
  shows "delivered s @ p_buf (inp s) = written s"
proof -
  have inv: "content_inv s" "order_inv s" and "chan s = []" "up s" "\<not> forced s"
    using assms(1) by (simp_all add: ready_def link_inv_def)
  then have "unat (sentCursor (tx s)) \<le> unat (recvOffset (rx s))" using order_invD(6) [OF inv(2)] by simp
  with assms(2) content_invD(3,4,9) [OF inv(1)] show ?thesis by simp
qed

lemma rounds_deliver:
  assumes "ready s" and "cap > 0" and "length (written s) - unat (sentCursor (tx s)) \<le> k"
  shows "link_step\<^sup>*\<^sup>* s ((link_round cap ^^ k) s) \<and> written ((link_round cap ^^ k) s) = written s \<and>
     delivered ((link_round cap ^^ k) s) @ p_buf (inp ((link_round cap ^^ k) s)) = written s"
  using assms(1,3)
proof (induction k arbitrary: s)
  case 0
  with ready_done show ?case by simp
next
  case (Suc k)
  let ?t = "link_round cap s"
  note round = link_round_ready [OF Suc.prems(1) assms(2)]
  have "length (written ?t) - unat (sentCursor (tx ?t)) \<le> k"
  proof (cases "unat (sentCursor (tx s)) < length (written s)")
    case True
    with round(3,4) Suc.prems(2) show ?thesis by simp
  next
    case False
    have "sends s (send_one cap s)" by (rule sends_one [OF Suc.prems(1) assms(2)])
    then have "send_one cap s = s" using False by (simp add: sends_def)
    then have "?t = s" using Suc.prems(1) by (simp add: link_round_def deliver_one_def ready_def)
    with False show ?thesis by simp
  qed
  from Suc.IH [OF round(1) this] round(2,3) show ?case
    by (simp add: funpow_swap1 del: funpow.simps) (simp add: funpow_swap1, meson rtranclp_trans)
qed

section \<open>Properties\<close>

text \<open>
  C1: In every state the system can reach, whatever was cut, replayed, delayed, reordered among
  the acknowledgements or given up, what the receiving application has read and still has
  buffered is exactly the first \<open>recvOffset\<close> bytes the sending application wrote: nothing is
  lost, duplicated, reordered or corrupted.
\<close>

theorem delivered_is_prefix:
  assumes "reach link_init link_step s"
  shows "delivered s @ p_buf (inp s) = take (unat (recvOffset (rx s))) (written s) \<and>
     unat (recvOffset (rx s)) \<le> unat (sendOffset (tx s)) \<and> unat (sendOffset (tx s)) \<le> length (written s)"
  using content_invD(3,4,9) [of s] reach_link_inv [OF assms] by blast


text \<open>
  C4: A resume at the offset the receiver has reached is accepted exactly if the layer is not
  broken, and a layer that was not given up is broken only if more was written than it may
  retain.
\<close>

theorem resume_accepted:
  assumes "reach link_init link_step s"
  shows "(\<exists>r'. resumeOut (recvOffsetNow (rx s)) (tx s) = Some (\<not> broken (tx s), r')) \<and>
     (broken (tx s) \<longrightarrow> forced s \<or> maxReplay (tx s) < int (length (written s)))"
proof -
  have inv: "content_inv s" "order_inv s" using reach_link_inv [OF assms] by simp_all
  have range: "\<not> broken (tx s) \<Longrightarrow> ackedOffset (tx s) \<le> recvOffset (rx s)" "recvOffset (rx s) \<le> sendOffset (tx s)"
    using order_invD(2) [OF inv(2)] content_invD(4) [OF inv(1)] by (simp_all add: word_le_nat_alt)
  have "\<exists>r'. resumeOut (recvOffset (rx s)) (tx s) = Some (\<not> broken (tx s), r')"
    using content_invD(1) [OF inv(1)]
    by (cases rule: resumeOut_cases [of "tx s" "recvOffset (rx s)"]) (use range in \<open>auto simp: not_le [symmetric]\<close>)
  moreover have "broken (tx s) \<longrightarrow> forced s \<or> maxReplay (tx s) < int (length (written s))"
    using link_full.reachable [OF assms] by (simp add: full_inv_def)
  ultimately show ?thesis by (simp add: recvOffsetNow_def)
qed

text \<open>
  C3: A resumed session delivers everything. From any reachable state in which the layer is
  intact and the sender has stopped, the handshake followed by as many rounds of a working
  transport as bytes were written, with any positive frame size, brings every byte written to
  the receiver, even if the replay buffer overflows on the way.
\<close>

theorem resumed_delivers_all:
  assumes "reach link_init link_step s" and "hand s = []" and "\<not> broken (tx s)" and "\<not> forced s"
    and "\<not> p_closed (inp s)" and "cap > 0"
    and "resumeOut (recvOffsetNow (rx s)) (tx s) = Some (True, r')"
  shows "let s1 = s\<lparr>tx := r', zombies := chan s # zombies s, chan := [], up := True\<rparr>;
             t = (link_round cap ^^ length (written s)) s1
         in link_step\<^sup>*\<^sup>* s t \<and> written t = written s \<and> delivered t @ p_buf (inp t) = written s"
proof -
  let ?s1 = "s\<lparr>tx := r', zombies := chan s # zombies s, chan := [], up := True\<rparr>"
  have step: "link_step s ?s1" by (rule resume [OF assms(2) order_refl assms(7)])
  have "link_inv ?s1" using link.reachable [OF reach_step [OF assms(1) step]] .
  then have ready: "ready ?s1" using assms(2,4,5) by (simp add: ready_def)
  from rounds_deliver [OF this assms(6), of "length (written s)"] show ?thesis
    using step by (simp add: Let_def converse_rtranclp_into_rtranclp)
qed

section \<open>Witnesses\<close>

text \<open>
  A run: five bytes are written, two frames are sent, the transport is cut after the first one
  arrived.
\<close>

definition start :: link where
  "start = \<lparr>tx = newReliable 0, outp = NewBufferedPipe, hand = [], rx = newReliable 0, inp = NewBufferedPipe,
     chan = [], zombies = [], acks = [], up = True, written = [], delivered = [], forced = False\<rparr>"

definition after_write :: link where
  "after_write = start\<lparr>outp := snd (snd (Write NewBufferedPipe [1, 2, 3, 4, 5])), written := [1, 2, 3, 4, 5]\<rparr>"

lemma reach_after_write: "reach link_init link_step after_write"
proof -
  have "reach link_init link_step start" by (rule reach_init) (auto simp: link_init_def start_def)
  moreover have "link_step start after_write"
  proof -
    obtain l out' where w: "Write (outp start) [1, 2, 3, 4, 5] = (Inr 5, l, out')"
      by (simp add: Write_def start_def NewBufferedPipe_def Let_def)
    from app_write [OF w] show ?thesis
      using w by (simp add: after_write_def start_def)
  qed
  ultimately show ?thesis by (rule reach_step)
qed

lemma ready_after_write: "ready after_write"
  using link.reachable [OF reach_after_write]
  by (simp add: ready_def after_write_def start_def NewBufferedPipe_def)

lemma reach_one_frame: "reach link_init link_step (send_one 3 after_write)"
  using sends_one [OF ready_after_write, of 3] reach_rtranclp [OF reach_after_write] by (simp add: sends_def)

lemma one_frame: "chan (send_one 3 after_write) = [(0, [1, 2, 3])]"
  by (simp add: send_one_def after_write_def start_def nextOut_replay_def newReliable_def Let_def sent_def
      nextOut_number_def Write_def NewBufferedPipe_def)

theorem delivered_is_prefix_witness:
  "let s = link_round 3 after_write in
   delivered s @ p_buf (inp s) = take (unat (recvOffset (rx s))) [1, 2, 3, 4, 5] \<and> link_step\<^sup>*\<^sup>* after_write s"
proof -
  let ?s = "link_round 3 after_write"
  note round = link_round_ready [OF ready_after_write, of 3]
  have "reach link_init link_step ?s" using reach_rtranclp [OF reach_after_write] round(2) by simp
  from delivered_is_prefix [OF this] round(2,3) show ?thesis by (simp add: Let_def after_write_def)
qed


theorem resume_accepted_witness:
  "\<exists>r'. resumeOut (recvOffsetNow (rx after_write)) (tx after_write) = Some (True, r')"
  using resume_accepted [OF reach_after_write] by (simp add: after_write_def start_def newReliable_def)

theorem resumed_delivers_all_witness:
  "\<exists>t. link_step\<^sup>*\<^sup>* after_write t \<and> delivered t @ p_buf (inp t) = [1, 2, 3, 4, 5]"
proof -
  obtain r' where r': "resumeOut (recvOffsetNow (rx after_write)) (tx after_write) = Some (True, r')"
    by (simp add: resumeOut_def recvOffsetNow_def after_write_def start_def newReliable_def)
  have "hand after_write = []" "\<not> broken (tx after_write)" "\<not> forced after_write" "\<not> p_closed (inp after_write)"
    by (simp_all add: after_write_def start_def newReliable_def NewBufferedPipe_def)
  from resumed_delivers_all [OF reach_after_write this _ r', of 2] show ?thesis
    by (auto simp: Let_def after_write_def)
qed

end
