(* ===== verification/Attachments.thy ===== *)
theory Attachments
  imports Pollmux_Prelude
begin

text \<open>
  The ownership of a resumable session's directions, \<^verbatim>\<open>resume_server.go\<close>: \<open>attachments\<close> with its
  two slots and the flag of a resume in progress, one definition per locked section, and
  \<open>attach\<close> and \<open>kickAll\<close> as the loops around them. An attachment is a number: the identity of
  the \<^verbatim>\<open>*attachment\<close> a handler created.

  The second half is the system of all handlers of one session and the resume handshake, as a
  step relation over the locked sections. Its properties: a direction has at most one owner,
  once the handshake has waited out the previous owners nobody is attached until it ends, and
  an owner stays current until it leaves by itself.
\<close>

section \<open>The slots\<close>

type_synonym att = nat

datatype attachKind = attachDown | attachUp | attachBoth

record attachments =
  a_down :: "att option"
  a_up :: "att option"
  a_resuming :: bool

definition newAttachments :: attachments where
  "newAttachments = \<lparr>a_down = None, a_up = None, a_resuming = False\<rparr>"

definition slot :: "attachments \<Rightarrow> attachKind \<Rightarrow> att option" where
  "slot a kind = (if kind = attachUp then a_up a else a_down a)"

definition set_slot :: "attachKind \<Rightarrow> att \<Rightarrow> attachments \<Rightarrow> attachments" where
  "set_slot kind att a = (if kind = attachUp then a\<lparr>a_up := Some att\<rparr> else a\<lparr>a_down := Some att\<rparr>)"

definition detach :: "att \<Rightarrow> attachments \<Rightarrow> attachments" where
  "detach att a =
     (let a1 = (if a_down a = Some att then a\<lparr>a_down := None\<rparr> else a)
      in if a_up a1 = Some att then a1\<lparr>a_up := None\<rparr> else a1)"

definition isCurrent :: "att \<Rightarrow> attachments \<Rightarrow> bool" where
  "isCurrent att a \<longleftrightarrow> a_down a = Some att \<or> a_up a = Some att"

definition beginResume :: "attachments \<Rightarrow> bool \<times> attachments" where
  "beginResume a = (if a_resuming a then (False, a) else (True, a\<lparr>a_resuming := True\<rparr>))"

definition endResume :: "attachments \<Rightarrow> attachments" where
  "endResume a = a\<lparr>a_resuming := False\<rparr>"

section \<open>Attaching\<close>

text \<open>The locked section of one turn of the loop in \<open>attach\<close>.\<close>

datatype turn = Refused | Claimed attachments | Occupied att

definition attach_turn :: "attachKind \<Rightarrow> att \<Rightarrow> attachments \<Rightarrow> turn" where
  "attach_turn k att a =
     (if a_resuming a then Refused
      else (case slot a k of None \<Rightarrow> Claimed (set_slot k att a) | Some old \<Rightarrow> Occupied old))"

definition kinds :: "attachKind \<Rightarrow> attachKind list" where
  "kinds kind = (if kind = attachBoth then [attachDown, attachUp] else [kind])"

text \<open>
  \<open>attach\<close> for a handler that meets the waits \<open>env\<close>: each \<open>kickAndWait\<close> either times out or
  returns, and meanwhile other handlers have changed the slots. \<open>None\<close>: still waiting when
  \<open>env\<close> is used up.
\<close>

function attach_kinds :: "attachKind list \<Rightarrow> att \<Rightarrow> attachments \<Rightarrow> (bool \<times> (attachments \<Rightarrow> attachments)) list
    \<Rightarrow> (error option \<times> attachments) option" where
  "attach_kinds [] att a env = Some (None, a)"
| "attach_kinds (k # ks) att a env =
     (case attach_turn k att a of
        Refused \<Rightarrow> Some (Some ErrStillAttached, detach att a)
      | Claimed a' \<Rightarrow> attach_kinds ks att a' env
      | Occupied old \<Rightarrow>
          (case env of
             [] \<Rightarrow> None
           | (timedOut, meanwhile) # env' \<Rightarrow>
               if timedOut then Some (Some ErrStillAttached, detach att (meanwhile a))
               else attach_kinds (k # ks) att (meanwhile a) env'))"
  by pat_completeness auto
termination
  by (relation "measures [\<lambda>(ks, _, _, env). length env, \<lambda>(ks, _, _, _). length ks]") auto

definition attach :: "attachKind \<Rightarrow> att \<Rightarrow> attachments \<Rightarrow> (bool \<times> (attachments \<Rightarrow> attachments)) list
    \<Rightarrow> (error option \<times> attachments) option" where
  "attach kind att a env = attach_kinds (kinds kind) att a env"

text \<open>The owners \<open>kickAll\<close> finds, in the order in which it waits for them.\<close>

definition kick_targets :: "attachments \<Rightarrow> att list" where
  "kick_targets a = map the (filter (\<lambda>x. x \<noteq> None) [a_down a, a_up a])"

text \<open>\<open>kickAll\<close>: each wait times out or not; the first that does ends it.\<close>

fun kickAll :: "att list \<Rightarrow> bool list \<Rightarrow> error option option" where
  "kickAll [] waits = Some None"
| "kickAll (old # olds) [] = None"
| "kickAll (old # olds) (timedOut # waits) =
     (if timedOut then Some (Some ErrStillAttached) else kickAll olds waits)"

section \<open>The system of handlers\<close>

text \<open>
  A handler of the session: not there yet, inside \<open>attach\<close> with the directions it still has to
  claim and those it has claimed, the owner of its directions, or gone (\<^verbatim>\<open>done\<close> is closed).
  The handshake: none, begun, waiting for the owners it found, or past the wait.
\<close>

datatype phase = Idle | Trying "attachKind list" "attachKind list" | Holding "attachKind list" | Left

datatype handshake = NoResume | Begun | Waiting "att list" | Quiet

record att_sys =
  sys_a :: attachments
  sys_ph :: "att \<Rightarrow> phase"
  sys_r :: handshake

definition sys_init :: "att_sys \<Rightarrow> bool" where
  "sys_init s \<longleftrightarrow> s = \<lparr>sys_a = newAttachments, sys_ph = (\<lambda>_. Idle), sys_r = NoResume\<rparr>"

text \<open>A wait that times out may do so although the owner has just left.\<close>

inductive sys_step :: "att_sys \<Rightarrow> att_sys \<Rightarrow> bool" where
  arrive: "sys_ph s h = Idle \<Longrightarrow> sys_step s (s\<lparr>sys_ph := (sys_ph s)(h := Trying (kinds kind) [])\<rparr>)"
| claim: "\<lbrakk>sys_ph s h = Trying (k # ks) got; attach_turn k h (sys_a s) = Claimed a'\<rbrakk> \<Longrightarrow>
     sys_step s (s\<lparr>sys_a := a', sys_ph := (sys_ph s)(h := if ks = [] then Holding (got @ [k]) else Trying ks (got @ [k]))\<rparr>)"
| refused: "\<lbrakk>sys_ph s h = Trying (k # ks) got; attach_turn k h (sys_a s) = Refused\<rbrakk> \<Longrightarrow>
     sys_step s (s\<lparr>sys_a := detach h (sys_a s), sys_ph := (sys_ph s)(h := Left)\<rparr>)"
| times_out: "\<lbrakk>sys_ph s h = Trying (k # ks) got\<rbrakk> \<Longrightarrow>
     sys_step s (s\<lparr>sys_a := detach h (sys_a s), sys_ph := (sys_ph s)(h := Left)\<rparr>)"
| leave: "sys_ph s h = Holding got \<Longrightarrow>
     sys_step s (s\<lparr>sys_a := detach h (sys_a s), sys_ph := (sys_ph s)(h := Left)\<rparr>)"
| begin_resume: "\<lbrakk>sys_r s = NoResume; beginResume (sys_a s) = (True, a')\<rbrakk> \<Longrightarrow>
     sys_step s (s\<lparr>sys_a := a', sys_r := Begun\<rparr>)"
| kick_all: "sys_r s = Begun \<Longrightarrow> sys_step s (s\<lparr>sys_r := Waiting (kick_targets (sys_a s))\<rparr>)"
| one_left: "\<lbrakk>sys_r s = Waiting (old # olds); sys_ph s old = Left\<rbrakk> \<Longrightarrow> sys_step s (s\<lparr>sys_r := Waiting olds\<rparr>)"
| all_left: "sys_r s = Waiting [] \<Longrightarrow> sys_step s (s\<lparr>sys_r := Quiet\<rparr>)"
| end_resume: "sys_r s \<noteq> NoResume \<Longrightarrow>
     sys_step s (s\<lparr>sys_a := endResume (sys_a s), sys_r := NoResume\<rparr>)"

text \<open>The directions a handler has claimed and not given back.\<close>

fun held :: "phase \<Rightarrow> attachKind list" where
  "held (Trying ks got) = got"
| "held (Holding got) = got"
| "held _ = []"

text \<open>A direction in these lists is a single one; an owner has at least one.\<close>

fun phase_ok :: "phase \<Rightarrow> bool" where
  "phase_ok (Trying ks got) \<longleftrightarrow> ks \<noteq> [] \<and> attachBoth \<notin> set ks \<union> set got"
| "phase_ok (Holding got) \<longleftrightarrow> got \<noteq> [] \<and> attachBoth \<notin> set got"
| "phase_ok _ \<longleftrightarrow> True"

text \<open>
  A slot names a handler exactly if that handler holds the direction; the flag says whether a
  handshake runs; the handshake's list covers every owner.
\<close>

definition sys_inv :: "att_sys \<Rightarrow> bool" where
  "sys_inv s \<longleftrightarrow>
     (\<forall>h. a_down (sys_a s) = Some h \<longleftrightarrow> attachDown \<in> set (held (sys_ph s h))) \<and>
     (\<forall>h. a_up (sys_a s) = Some h \<longleftrightarrow> attachUp \<in> set (held (sys_ph s h))) \<and>
     (\<forall>h. phase_ok (sys_ph s h)) \<and>
     (a_resuming (sys_a s) \<longleftrightarrow> sys_r s \<noteq> NoResume) \<and>
     (case sys_r s of
        Waiting olds \<Rightarrow> \<forall>h. isCurrent h (sys_a s) \<longrightarrow> h \<in> set olds
      | Quiet \<Rightarrow> \<forall>h. \<not> isCurrent h (sys_a s)
      | _ \<Rightarrow> True)"

section \<open>Lemmas\<close>

lemma detach_simps [simp]:
  "a_down (detach h a) = (if a_down a = Some h then None else a_down a)"
  "a_up (detach h a) = (if a_up a = Some h then None else a_up a)"
  "a_resuming (detach h a) = a_resuming a"
  by (simp_all add: detach_def Let_def)

lemma set_slot_simps [simp]:
  "a_down (set_slot k h a) = (if k = attachUp then a_down a else Some h)"
  "a_up (set_slot k h a) = (if k = attachUp then Some h else a_up a)"
  "a_resuming (set_slot k h a) = a_resuming a"
  by (simp_all add: set_slot_def)

lemma attach_turn_Claimed:
  "attach_turn k h a = Claimed a' \<Longrightarrow> \<not> a_resuming a \<and> slot a k = None \<and> a' = set_slot k h a"
  by (auto simp: attach_turn_def split: if_splits option.splits)

lemma kick_targets_iff: "h \<in> set (kick_targets a) \<longleftrightarrow> isCurrent h a"
  by (auto simp: kick_targets_def isCurrent_def)

text \<open>Ownership alone: a slot names its holder.\<close>

definition own_inv :: "att_sys \<Rightarrow> bool" where
  "own_inv s \<longleftrightarrow>
     (\<forall>h. a_down (sys_a s) = Some h \<longleftrightarrow> attachDown \<in> set (held (sys_ph s h))) \<and>
     (\<forall>h. a_up (sys_a s) = Some h \<longleftrightarrow> attachUp \<in> set (held (sys_ph s h)))"

lemma own_claim:
  assumes "own_inv s" and "sys_ph s h = Trying (k # ks) got" and "slot (sys_a s) k = None" and "k \<noteq> attachBoth"
    and "held ph = got @ [k]"
  shows "own_inv (s\<lparr>sys_a := set_slot k h (sys_a s), sys_ph := (sys_ph s)(h := ph)\<rparr>)"
proof -
  have free: "k \<notin> set (held (sys_ph s h'))" for h'
    using assms(1,3,4) by (cases k) (auto simp: own_inv_def slot_def)
  have "x \<in> set (held ph) \<longleftrightarrow> x = k \<or> x \<in> set (held (sys_ph s h))" for x
    using assms(2,5) by auto
  with assms(1,4) free show ?thesis by (cases k) (simp_all add: own_inv_def)
qed

lemma own_detach:
  assumes "own_inv s"
  shows "own_inv (s\<lparr>sys_a := detach h (sys_a s), sys_ph := (sys_ph s)(h := Left)\<rparr>)"
proof -
  have "attachDown \<in> set (held (sys_ph s h')) \<longleftrightarrow> a_down (sys_a s) = Some h'"
    and "attachUp \<in> set (held (sys_ph s h')) \<longleftrightarrow> a_up (sys_a s) = Some h'" for h'
    using assms by (simp_all add: own_inv_def)
  then show ?thesis by (simp add: own_inv_def)
qed

lemma own_step: "sys_step s t \<Longrightarrow> own_inv s \<Longrightarrow> \<forall>h. phase_ok (sys_ph s h) \<Longrightarrow> own_inv t"
proof (induction rule: sys_step.induct)
  case (claim s h k ks got a')
  then have "phase_ok (Trying (k # ks) got)" by metis
  then have "k \<noteq> attachBoth" by auto
  with claim show ?case
    using attach_turn_Claimed [OF claim(2)] own_claim [of s h k ks got "if ks = [] then Holding (got @ [k]) else Trying ks (got @ [k])"]
    by auto
qed (auto simp: own_detach, auto simp: own_inv_def endResume_def beginResume_def split: if_splits)

lemma kinds_single: "attachBoth \<notin> set (kinds kind)" "kinds kind \<noteq> []"
  by (cases kind; simp add: kinds_def)+

lemma sys_inv_own: "sys_inv s \<longleftrightarrow> own_inv s \<and>
     (\<forall>h. phase_ok (sys_ph s h)) \<and>
     (a_resuming (sys_a s) \<longleftrightarrow> sys_r s \<noteq> NoResume) \<and>
     (case sys_r s of Waiting olds \<Rightarrow> \<forall>h. isCurrent h (sys_a s) \<longrightarrow> h \<in> set olds
      | Quiet \<Rightarrow> \<forall>h. \<not> isCurrent h (sys_a s) | _ \<Rightarrow> True)"
  by (auto simp: sys_inv_def own_inv_def)

lemma isCurrent_detach: "isCurrent h (detach h' a) \<Longrightarrow> isCurrent h a"
  by (auto simp: isCurrent_def split: if_splits)

lemma not_isCurrent_detach [simp]: "\<not> isCurrent h (detach h a)"
  by (simp add: isCurrent_def)

lemma Holding_current:
  assumes "sys_inv s" and h: "sys_ph s h = Holding got"
  shows "isCurrent h (sys_a s)"
proof -
  have own: "own_inv s" and "phase_ok (sys_ph s h)" using assms(1) by (simp_all add: sys_inv_own)
  then obtain k where k: "k \<in> set got" "k \<noteq> attachBoth" using h by (cases got) auto
  have "held (sys_ph s h) = got" using h by simp
  with own k show ?thesis by (cases k) (auto simp: own_inv_def isCurrent_def)
qed

lemma Left_not_current: "own_inv s \<Longrightarrow> sys_ph s h = Left \<Longrightarrow> \<not> isCurrent h (sys_a s)"
  by (auto simp: own_inv_def isCurrent_def)

lemma sys_step_inv: "sys_step s t \<Longrightarrow> sys_inv s \<Longrightarrow> sys_inv t"
proof -
  assume step: "sys_step s t" and inv: "sys_inv s"
  have "own_inv s" and ok: "\<forall>h. phase_ok (sys_ph s h)" using inv by (simp_all add: sys_inv_own)
  then have own: "own_inv t" by (rule own_step [OF step])
  have "\<forall>h. phase_ok (sys_ph t h)"
    using step ok
  proof (induction rule: sys_step.induct)
    case (claim s h k ks got a')
    then have "phase_ok (Trying (k # ks) got)" by metis
    with claim(3) show ?case by auto
  qed (simp_all add: kinds_single)
  moreover have "a_resuming (sys_a t) \<longleftrightarrow> sys_r t \<noteq> NoResume"
    using step inv
    by (induction rule: sys_step.induct) (auto simp: sys_inv_own endResume_def beginResume_def dest: attach_turn_Claimed split: if_splits)
  moreover have "case sys_r t of Waiting olds \<Rightarrow> \<forall>h. isCurrent h (sys_a t) \<longrightarrow> h \<in> set olds
      | Quiet \<Rightarrow> \<forall>h. \<not> isCurrent h (sys_a t) | _ \<Rightarrow> True"
    using step inv
  proof (induction rule: sys_step.induct)
    case (claim s h k ks got a')
    then show ?case using attach_turn_Claimed [OF claim(2)] by (simp add: sys_inv_own)
  next
    case (one_left s old olds)
    then have "\<not> isCurrent old (sys_a s)" by (intro Left_not_current) (simp_all add: sys_inv_own)
    with one_left show ?case by (auto simp: sys_inv_own)
  qed (auto simp: sys_inv_own kick_targets_iff dest: isCurrent_detach split: handshake.splits)
  ultimately show ?thesis using own by (simp add: sys_inv_own)
qed

interpretation handlers: inductive_invariant sys_init sys_step sys_inv
  by unfold_locales
    (simp add: sys_init_def sys_inv_def newAttachments_def, rule sys_step_inv)

text \<open>What the loop of \<open>attach\<close> leaves behind.\<close>

lemma attach_kinds_outcome:
  assumes "attach_kinds ks att a env = Some (err, a')"
    and "\<forall>(timedOut, f) \<in> set env. \<forall>x k. slot x k = Some att \<longrightarrow> slot (f x) k = Some att"
    and "attachBoth \<notin> set ks"
  shows "(err = Some ErrStillAttached \<and> \<not> isCurrent att a') \<or>
     (err = None \<and> (\<forall>k \<in> set ks. slot a' k = Some att) \<and> (\<forall>k. slot a k = Some att \<longrightarrow> slot a' k = Some att))"
  using assms
proof (induction ks att a env rule: attach_kinds.induct)
  case (2 k ks att a env)
  show ?case
  proof (cases "attach_turn k att a")
    case Refused
    then show ?thesis using 2(3) by auto
  next
    case (Claimed a1)
    then have a1: "a1 = set_slot k att a" "slot a k = None" using attach_turn_Claimed by auto
    have IH: "(err = Some ErrStillAttached \<and> \<not> isCurrent att a') \<or>
       (err = None \<and> (\<forall>k \<in> set ks. slot a' k = Some att) \<and> (\<forall>k. slot a1 k = Some att \<longrightarrow> slot a' k = Some att))"
      using 2(1) [OF Claimed] 2(3-5) Claimed by auto
    moreover have "slot a1 k = Some att" "slot a j = Some att \<Longrightarrow> slot a1 j = Some att" for j
      using a1 by (auto simp: slot_def split: if_splits)
    ultimately show ?thesis by auto
  next
    case (Occupied old)
    with 2(3) obtain timedOut f env' where env: "env = (timedOut, f) # env'" by (cases env) auto
    show ?thesis
    proof (cases timedOut)
      case True
      with 2(3) Occupied env show ?thesis by auto
    next
      case False
      have "(err = Some ErrStillAttached \<and> \<not> isCurrent att a') \<or>
         (err = None \<and> (\<forall>k \<in> set (k # ks). slot a' k = Some att) \<and> (\<forall>k. slot (f a) k = Some att \<longrightarrow> slot a' k = Some att))"
        using 2(2) [OF Occupied env refl False] 2(3-5) Occupied env False by auto
      moreover have "\<forall>j. slot a j = Some att \<longrightarrow> slot (f a) j = Some att" using 2(4) env by auto
      ultimately show ?thesis by auto
    qed
  qed
qed simp

lemma attach_kinds_returns: "\<exists>f. (True, f) \<in> set env \<Longrightarrow> \<exists>r. attach_kinds ks att a env = Some r"
proof (induction ks att a env rule: attach_kinds.induct)
  case (2 k ks att a env)
  show ?case
  proof (cases "attach_turn k att a")
    case (Claimed a1)
    with 2(1) [OF Claimed 2(3)] show ?thesis by simp
  next
    case (Occupied old)
    obtain timedOut f env' where env: "env = (timedOut, f) # env'" using 2(3) by (cases env) auto
    show ?thesis
    proof (cases timedOut)
      case False
      then have "\<exists>g. (True, g) \<in> set env'" using 2(3) env by auto
      with 2(2) [OF Occupied env refl False] Occupied env False show ?thesis by simp
    qed (use Occupied env in simp)
  qed simp
qed simp

section \<open>Properties\<close>

text \<open>
  C30: A direction never has two owners: if two handlers have both finished attaching and neither
  has left, they hold different directions.
\<close>

theorem one_owner:
  assumes "reach sys_init sys_step s" and "sys_ph s h = Holding got" and "sys_ph s h' = Holding got'"
    and "k \<in> set got" and "k \<in> set got'"
  shows "h = h'"
proof -
  have inv: "own_inv s" "\<forall>h. phase_ok (sys_ph s h)"
    using handlers.reachable [OF assms(1)] by (simp_all add: sys_inv_own)
  then have "phase_ok (Holding got)" using assms(2) by metis
  with assms(4) have "k \<noteq> attachBoth" by auto
  with inv(1) assms(2-5) show ?thesis
    by (cases k) (auto simp: own_inv_def, (metis held.simps(2) option.inject)+)
qed

text \<open>
  C29: Once a resume handshake has waited out the owners it found, both directions are free, no
  handler owns anything, and every attempt to attach is refused until the handshake ends: the
  offsets it exchanges cannot move under it.
\<close>

theorem resume_is_quiet:
  assumes "reach sys_init sys_step s" and "sys_r s = Quiet"
  shows "a_down (sys_a s) = None \<and> a_up (sys_a s) = None \<and> (\<forall>h got. sys_ph s h \<noteq> Holding got) \<and>
     (\<forall>k h. attach_turn k h (sys_a s) = Refused)"
proof -
  have inv: "sys_inv s" by (rule handlers.reachable [OF assms(1)])
  then have none: "\<not> isCurrent h (sys_a s)" for h using assms(2) by (simp add: sys_inv_own)
  then have free: "a_down (sys_a s) = None" "a_up (sys_a s) = None"
    by (auto simp: isCurrent_def) (metis not_Some_eq)+
  have "sys_ph s h \<noteq> Holding got" for h got using Holding_current [OF inv] none by blast
  moreover have "a_resuming (sys_a s)" using inv assms(2) by (simp add: sys_inv_own)
  ultimately show ?thesis using free by (simp add: attach_turn_def)
qed

text \<open>
  A handler that owns a direction is current until it leaves by itself: being kicked does not
  change that. A handler that asks whether it is still current after an interrupt therefore
  always hears that it is.
\<close>

lemma owner_stays_current:
  assumes "reach sys_init sys_step s" and "sys_ph s h = Holding got"
  shows "isCurrent h (sys_a s)"
  by (rule Holding_current [OF handlers.reachable [OF assms(1)] assms(2)])

text \<open>
  \<open>attach\<close> is all or nothing, if others do not take away what it has claimed: it either
  returns the error and owns no direction, or succeeds and owns every direction it asked for.
  It returns as soon as one wait for a previous owner times out.
\<close>

lemma attach_outcome:
  assumes "\<forall>(timedOut, f) \<in> set env. \<forall>x k. slot x k = Some att \<longrightarrow> slot (f x) k = Some att"
  shows "(\<forall>err a'. attach kind att a env = Some (err, a') \<longrightarrow>
       (err = Some ErrStillAttached \<and> \<not> isCurrent att a') \<or>
       (err = None \<and> (\<forall>k \<in> set (kinds kind). slot a' k = Some att))) \<and>
     ((\<exists>f. (True, f) \<in> set env) \<longrightarrow> (\<exists>r. attach kind att a env = Some r))"
proof -
  have "(err = Some ErrStillAttached \<and> \<not> isCurrent att a') \<or>
      (err = None \<and> (\<forall>k \<in> set (kinds kind). slot a' k = Some att))"
    if "attach kind att a env = Some (err, a')" for err a'
    using attach_kinds_outcome [of "kinds kind" att a env err a'] that assms kinds_single(1) [of kind]
    by (auto simp: attach_def)
  then show ?thesis using attach_kinds_returns [of env "kinds kind" att a] by (simp add: attach_def)
qed

section \<open>Witnesses\<close>

text \<open>A WebSocket handler attaches to both directions of a new session.\<close>

definition sys0 :: att_sys where
  "sys0 = \<lparr>sys_a = newAttachments, sys_ph = (\<lambda>_. Idle), sys_r = NoResume\<rparr>"

definition sys_owned :: att_sys where
  "sys_owned = \<lparr>sys_a = \<lparr>a_down = Some 7, a_up = None, a_resuming = False\<rparr>,
     sys_ph = (\<lambda>_. Idle)(7 := Holding [attachDown]), sys_r = NoResume\<rparr>"

lemma reach_sys_owned: "reach sys_init sys_step sys_owned"
proof -
  have "reach sys_init sys_step sys0" by (rule reach_init) (simp add: sys_init_def sys0_def)
  moreover have "sys_step sys0 (sys0\<lparr>sys_ph := (sys_ph sys0)(7 := Trying (kinds attachDown) [])\<rparr>)"
    by (rule arrive) (simp add: sys0_def)
  ultimately have r: "reach sys_init sys_step (sys0\<lparr>sys_ph := (sys_ph sys0)(7 := Trying [attachDown] [])\<rparr>)"
    by (simp add: kinds_def reach_step)
  let ?s = "sys0\<lparr>sys_ph := (sys_ph sys0)(7 := Trying [attachDown] [])\<rparr>"
  have "attach_turn attachDown 7 (sys_a ?s) = Claimed \<lparr>a_down = Some 7, a_up = None, a_resuming = False\<rparr>"
    by (simp add: attach_turn_def slot_def set_slot_def sys0_def newAttachments_def)
  from claim [OF _ this, of "[]" "[]"] have "sys_step ?s sys_owned"
    by (simp add: sys0_def sys_owned_def)
  with r show ?thesis by (rule reach_step)
qed

theorem one_owner_witness: "{h. sys_ph sys_owned h = Holding [attachDown]} = {7}"
proof -
  have own: "sys_ph sys_owned 7 = Holding [attachDown]" by (simp add: sys_owned_def)
  have "h = 7" if "sys_ph sys_owned h = Holding [attachDown]" for h
    by (rule one_owner [OF reach_sys_owned that own, of attachDown]) simp_all
  with own show ?thesis by blast
qed

lemma owner_stays_current_witness: "isCurrent 7 (sys_a sys_owned)"
  by (rule owner_stays_current [OF reach_sys_owned]) (simp add: sys_owned_def)

theorem resume_is_quiet_witness:
  "\<exists>s. reach sys_init sys_step s \<and> sys_r s = Quiet \<and> a_down (sys_a s) = None"
proof -
  let ?a = "newAttachments\<lparr>a_resuming := True\<rparr>"
  let ?s = "\<lambda>r. \<lparr>sys_a = ?a, sys_ph = (\<lambda>_. Idle), sys_r = r\<rparr>"
  have r0: "reach sys_init sys_step sys0" by (rule reach_init) (simp add: sys_init_def sys0_def)
  have "sys_step sys0 (?s Begun)"
    using begin_resume [of sys0 ?a] by (simp add: sys0_def beginResume_def newAttachments_def)
  with r0 have r1: "reach sys_init sys_step (?s Begun)" by (rule reach_step)
  have "sys_step (?s Begun) (?s (Waiting []))"
    using kick_all [of "?s Begun"] by (simp add: kick_targets_def newAttachments_def)
  with r1 have r2: "reach sys_init sys_step (?s (Waiting []))" by (rule reach_step)
  have "sys_step (?s (Waiting [])) (?s Quiet)" using all_left [of "?s (Waiting [])"] by simp
  with r2 have r3: "reach sys_init sys_step (?s Quiet)" by (rule reach_step)
  from resume_is_quiet [OF r3] r3 show ?thesis by fastforce
qed

lemma attach_outcome_witness:
  "\<exists>a'. attach attachBoth 9 \<lparr>a_down = Some 7, a_up = None, a_resuming = False\<rparr>
     [(False, \<lambda>a. detach 7 a)] = Some (None, a') \<and> slot a' attachDown = Some 9 \<and> slot a' attachUp = Some 9"
proof -
  let ?a = "\<lparr>a_down = Some 7, a_up = None, a_resuming = False\<rparr>"
  have keeps: "\<forall>(timedOut, f) \<in> set [(False, \<lambda>a. detach 7 a)]. \<forall>x k. slot x k = Some 9 \<longrightarrow> slot (f x) k = Some 9"
    by (auto simp: slot_def)
  obtain a' where run: "attach attachBoth 9 ?a [(False, \<lambda>a. detach 7 a)] = Some (None, a')"
    by (simp add: attach_def kinds_def attach_turn_def slot_def set_slot_def)
  from attach_outcome [OF keeps, of attachBoth ?a] run show ?thesis by (auto simp: kinds_def)
qed

end
