(* ===== verification/Session.thy ===== *)
theory Session
  imports Reliable Attachments
begin

text \<open>
  \<^verbatim>\<open>session.go\<close>: one client's virtual connection on the server. The record has the fields of the
  source; the layer and the attachments of a resumable session are options, as the pointers
  may be nil. Every method holds the session's lock from start to end, so each is a function on
  the record; \<^verbatim>\<open>time.Now()\<close> is an argument. \<open>pollInFlight\<close> is an integer: 32 bits would
  overflow only with two thousand million requests attached at once.

  The lemmas show when a session can be attached to, that a refusal is final, how the count of
  attached transports and the grace period evolve, and that a session is closed once.
\<close>

section \<open>The session\<close>

record session =
  s_ID :: string
  toServer :: pipe
  toClient :: pipe
  s_meta :: meta
  s_pollMode :: string
  s_uploadStream :: bool
  s_batchResume :: bool
  s_transport :: string
  wsAttached :: bool
  pollInFlight :: int
  s_rs :: "reliable option"
  s_att :: "attachments option"
  s_resumeGrace :: duration
  s_pollGap :: duration
  s_lastActive :: instant
  s_closed :: bool
  s_detachedAt :: instant

definition newSession :: "string \<Rightarrow> meta \<Rightarrow> instant \<Rightarrow> session" where
  "newSession ident meta now =
     \<lparr>s_ID = ident, toServer = NewBufferedPipe, toClient = NewBufferedPipe, s_meta = meta,
      s_pollMode = '''', s_uploadStream = False, s_batchResume = False, s_transport = '''',
      wsAttached = False, pollInFlight = 0, s_rs = None, s_att = None, s_resumeGrace = 0, s_pollGap = 0,
      s_lastActive = now, s_closed = False, s_detachedAt = now\<rparr>"

definition enableResume :: "int \<Rightarrow> duration \<Rightarrow> session \<Rightarrow> session" where
  "enableResume max_replay grace s =
     s\<lparr>s_rs := Some (newReliable max_replay), s_att := Some newAttachments, s_resumeGrace := grace\<rparr>"

text \<open>\<^verbatim>\<open>s.rs != nil && !s.rs.isBroken()\<close>, the guard several methods share.\<close>

definition Resumable :: "session \<Rightarrow> bool" where
  "Resumable s = (case s_rs s of None \<Rightarrow> False | Some r \<Rightarrow> \<not> isBroken r)"

definition ResumeDeadline :: "session \<Rightarrow> instant option" where
  "ResumeDeadline s =
     (if \<not> Resumable s then None
      else if pollInFlight s \<noteq> 0 \<or> s_closed s then None
      else Some (s_detachedAt s + s_resumeGrace s))"

definition inResumeGraceLocked :: "instant \<Rightarrow> session \<Rightarrow> bool" where
  "inResumeGraceLocked now s \<longleftrightarrow>
     Resumable s \<and> pollInFlight s = 0 \<and> now - s_detachedAt s \<le> s_resumeGrace s"

definition resumeExpiredLocked :: "instant \<Rightarrow> session \<Rightarrow> bool" where
  "resumeExpiredLocked now s \<longleftrightarrow>
     Resumable s \<and> pollInFlight s = 0 \<and> now - s_detachedAt s > s_resumeGrace s"

definition detachedBeyondPollGapLocked :: "instant \<Rightarrow> session \<Rightarrow> bool" where
  "detachedBeyondPollGapLocked now s \<longleftrightarrow> pollInFlight s = 0 \<and> now - s_detachedAt s > s_pollGap s"

definition watchHighWater :: "int \<Rightarrow> bool \<Rightarrow> session \<Rightarrow> session" where
  "watchHighWater threshold logger s =
     (if threshold \<le> 0 \<or> \<not> logger then s
      else s\<lparr>toServer := WatchHighWater (toServer s) threshold True,
             toClient := WatchHighWater (toClient s) threshold True\<rparr>)"

definition Session_Read :: "nat \<Rightarrow> session \<Rightarrow> schedule \<Rightarrow> ((error + bytes) \<times> session \<times> schedule) option" where
  "Session_Read cap s sch =
     map_option (\<lambda>(res, p, sch'). (res, s\<lparr>toServer := p\<rparr>, sch')) (Read cap (toServer s) sch)"

definition Session_Write :: "session \<Rightarrow> bytes \<Rightarrow> (error + nat) \<times> session" where
  "Session_Write s d = (case Write (toClient s) d of (res, _, p) \<Rightarrow> (res, s\<lparr>toClient := p\<rparr>))"

definition writeUpstream :: "session \<Rightarrow> bytes \<Rightarrow> (error + nat) \<times> session" where
  "writeUpstream s d = (case Write (toServer s) d of (res, _, p) \<Rightarrow> (res, s\<lparr>toServer := p\<rparr>))"

section \<open>Closing\<close>

definition markClosedLocked :: "session \<Rightarrow> bool \<times> session" where
  "markClosedLocked s = (if s_closed s then (False, s) else (True, s\<lparr>s_closed := True\<rparr>))"

definition closePipes :: "session \<Rightarrow> session" where
  "closePipes s = s\<lparr>toServer := Close (toServer s), toClient := Close (toClient s)\<rparr>"

definition closeOnce :: "session \<Rightarrow> bool \<times> session" where
  "closeOnce s = (case markClosedLocked s of (won, s1) \<Rightarrow> (won, if won then closePipes s1 else s1))"

definition Session_Close :: "session \<Rightarrow> session" where
  "Session_Close s = snd (closeOnce s)"

section \<open>Attaching and detaching\<close>

definition beginPoll :: "instant \<Rightarrow> session \<Rightarrow> bool \<times> session" where
  "beginPoll now s =
     (if s_closed s \<or> resumeExpiredLocked now s then (False, s)
      else (True, s\<lparr>pollInFlight := pollInFlight s + 1\<rparr>))"

definition noteDetachedLocked :: "instant \<Rightarrow> session \<Rightarrow> session" where
  "noteDetachedLocked now s =
     (if s_rs s \<noteq> None \<and> pollInFlight s = 0 then s\<lparr>s_detachedAt := now\<rparr> else s)"

definition endPoll :: "instant \<Rightarrow> session \<Rightarrow> session" where
  "endPoll now s = noteDetachedLocked now (s\<lparr>pollInFlight := pollInFlight s - 1\<rparr>)"

definition beginWebSocket :: "instant \<Rightarrow> session \<Rightarrow> bool \<times> session" where
  "beginWebSocket now s =
     (if s_closed s \<or> wsAttached s \<or> resumeExpiredLocked now s then (False, s)
      else (True, s\<lparr>wsAttached := True, pollInFlight := pollInFlight s + 1\<rparr>))"

definition endWebSocket :: "instant \<Rightarrow> session \<Rightarrow> session" where
  "endWebSocket now s =
     noteDetachedLocked now (s\<lparr>wsAttached := False, pollInFlight := pollInFlight s - 1\<rparr>)"

definition refusesAttach :: "instant \<Rightarrow> session \<Rightarrow> bool" where
  "refusesAttach now s \<longleftrightarrow> s_closed s \<or> resumeExpiredLocked now s"

definition IsClosed :: "session \<Rightarrow> bool" where
  "IsClosed s = s_closed s"

definition LastActive :: "session \<Rightarrow> instant" where
  "LastActive s = s_lastActive s"

definition touch :: "instant \<Rightarrow> session \<Rightarrow> session" where
  "touch now s = s\<lparr>s_lastActive := now\<rparr>"

definition PollInFlight :: "session \<Rightarrow> int" where
  "PollInFlight s = pollInFlight s"

definition Meta :: "session \<Rightarrow> meta" where
  "Meta s = s_meta s"

definition Session_HiWater :: "session \<Rightarrow> nat \<times> nat" where
  "Session_HiWater s = (HiWater (toServer s), HiWater (toClient s))"

section \<open>Histories of transports\<close>

text \<open>
  What the handlers and the application do to a session's lifecycle, each at an instant. A
  handler that was refused has nothing to end; \<open>run_life\<close> therefore counts the transports that
  are attached, and an end without a beginning does not happen (\<open>None\<close>).
\<close>

datatype life = LBegin | LEnd | LBeginWS | LEndWS | LTouch | LClose

record life_state =
  l_s :: session
  l_polls :: nat
  l_ws :: nat

fun run_life :: "(life \<times> instant) list \<Rightarrow> life_state \<Rightarrow> life_state option" where
  "run_life [] st = Some st"
| "run_life ((LBegin, now) # es) st =
     (case beginPoll now (l_s st) of (ok, s') \<Rightarrow>
        run_life es (st\<lparr>l_s := s', l_polls := (if ok then Suc (l_polls st) else l_polls st)\<rparr>))"
| "run_life ((LEnd, now) # es) st =
     (if l_polls st = 0 then None
      else run_life es (st\<lparr>l_s := endPoll now (l_s st), l_polls := l_polls st - 1\<rparr>))"
| "run_life ((LBeginWS, now) # es) st =
     (case beginWebSocket now (l_s st) of (ok, s') \<Rightarrow>
        run_life es (st\<lparr>l_s := s', l_ws := (if ok then Suc (l_ws st) else l_ws st)\<rparr>))"
| "run_life ((LEndWS, now) # es) st =
     (if l_ws st = 0 then None
      else run_life es (st\<lparr>l_s := endWebSocket now (l_s st), l_ws := l_ws st - 1\<rparr>))"
| "run_life ((LTouch, now) # es) st = run_life es (st\<lparr>l_s := touch now (l_s st)\<rparr>)"
| "run_life ((LClose, now) # es) st = run_life es (st\<lparr>l_s := Session_Close (l_s st)\<rparr>)"

definition life_inv :: "life_state \<Rightarrow> bool" where
  "life_inv st \<longleftrightarrow>
     pollInFlight (l_s st) = int (l_polls st + l_ws st) \<and> l_ws st \<le> 1 \<and> (wsAttached (l_s st) \<longleftrightarrow> l_ws st = 1)"

section \<open>Lemmas\<close>

lemma session_rs_simps [simp]:
  "Resumable (s\<lparr>pollInFlight := n\<rparr>) = Resumable s" "Resumable (s\<lparr>wsAttached := b\<rparr>) = Resumable s"
  "Resumable (s\<lparr>s_closed := b\<rparr>) = Resumable s" "Resumable (s\<lparr>s_lastActive := t\<rparr>) = Resumable s"
  "Resumable (s\<lparr>s_detachedAt := t\<rparr>) = Resumable s" "Resumable (s\<lparr>toServer := p\<rparr>) = Resumable s"
  "Resumable (s\<lparr>toClient := p\<rparr>) = Resumable s"
  by (simp_all add: Resumable_def)

lemma noteDetached_simps [simp]:
  "pollInFlight (noteDetachedLocked now s) = pollInFlight s" "wsAttached (noteDetachedLocked now s) = wsAttached s"
  "s_closed (noteDetachedLocked now s) = s_closed s" "s_rs (noteDetachedLocked now s) = s_rs s"
  "s_resumeGrace (noteDetachedLocked now s) = s_resumeGrace s" "s_lastActive (noteDetachedLocked now s) = s_lastActive s"
  by (simp_all add: noteDetachedLocked_def)

lemma closePipes_simps [simp]:
  "pollInFlight (closePipes s) = pollInFlight s" "wsAttached (closePipes s) = wsAttached s"
  "s_closed (closePipes s) = s_closed s" "s_rs (closePipes s) = s_rs s" "s_ID (closePipes s) = s_ID s"
  "s_lastActive (closePipes s) = s_lastActive s" "s_detachedAt (closePipes s) = s_detachedAt s"
  "s_resumeGrace (closePipes s) = s_resumeGrace s" "s_pollGap (closePipes s) = s_pollGap s"
  "p_closed (toServer (closePipes s))" "p_closed (toClient (closePipes s))"
  by (simp_all add: closePipes_def)

lemma Resumable_rs: "s_rs s = s_rs s' \<Longrightarrow> Resumable s = Resumable s'"
  by (simp add: Resumable_def)

lemma Session_Close_simps [simp]:
  "pollInFlight (Session_Close s) = pollInFlight s" "wsAttached (Session_Close s) = wsAttached s"
  "s_closed (Session_Close s)"
  by (simp_all add: Session_Close_def closeOnce_def markClosedLocked_def)

lemma life_inv_new: "life_inv \<lparr>l_s = newSession i m now, l_polls = 0, l_ws = 0\<rparr>"
  by (simp add: life_inv_def newSession_def)

lemma life_inv_step:
  "life_inv st \<Longrightarrow> life_inv (st\<lparr>l_s := snd (beginPoll now (l_s st)),
     l_polls := (if fst (beginPoll now (l_s st)) then Suc (l_polls st) else l_polls st)\<rparr>)"
  "life_inv st \<Longrightarrow> l_polls st \<noteq> 0 \<Longrightarrow> life_inv (st\<lparr>l_s := endPoll now (l_s st), l_polls := l_polls st - 1\<rparr>)"
  "life_inv st \<Longrightarrow> life_inv (st\<lparr>l_s := snd (beginWebSocket now (l_s st)),
     l_ws := (if fst (beginWebSocket now (l_s st)) then Suc (l_ws st) else l_ws st)\<rparr>)"
  "life_inv st \<Longrightarrow> l_ws st \<noteq> 0 \<Longrightarrow> life_inv (st\<lparr>l_s := endWebSocket now (l_s st), l_ws := l_ws st - 1\<rparr>)"
  "life_inv st \<Longrightarrow> life_inv (st\<lparr>l_s := touch now (l_s st)\<rparr>)"
  "life_inv st \<Longrightarrow> life_inv (st\<lparr>l_s := Session_Close (l_s st)\<rparr>)"
  by (auto simp: life_inv_def beginPoll_def endPoll_def beginWebSocket_def endWebSocket_def touch_def)

lemma run_life_inv: "run_life es st = Some st' \<Longrightarrow> life_inv st \<Longrightarrow> life_inv st'"
proof (induction es arbitrary: st)
  case (Cons e es)
  obtain x now where e: "e = (x, now)" by (cases e)
  show ?case
  proof (cases x)
    case LBegin
    then show ?thesis using Cons.IH Cons.prems life_inv_step(1) [of st now] by (simp add: e split_beta)
  next
    case LEnd
    then show ?thesis using Cons.IH Cons.prems life_inv_step(2) [of st now] by (simp add: e split: if_splits)
  next
    case LBeginWS
    then show ?thesis using Cons.IH Cons.prems life_inv_step(3) [of st now] by (simp add: e split_beta)
  next
    case LEndWS
    then show ?thesis using Cons.IH Cons.prems life_inv_step(4) [of st now] by (simp add: e split: if_splits)
  next
    case LTouch
    then show ?thesis using Cons.IH Cons.prems life_inv_step(5) [of st now] by (simp add: e)
  next
    case LClose
    then show ?thesis using Cons.IH Cons.prems life_inv_step(6) [of st] by (simp add: e)
  qed
qed simp

text \<open>A refusal persists: the session stays closed, or expired with nothing attached.\<close>

lemma refusal_kept:
  assumes "run_life es st = Some st'" and "life_inv st" and "refusesAttach now (l_s st)"
    and "\<forall>e \<in> set es. now \<le> snd e"
  shows "refusesAttach now (l_s st')"
  using assms
proof (induction es arbitrary: st)
  case (Cons e es)
  obtain x t where e: "e = (x, t)" by (cases e)
  have later: "refusesAttach t (l_s st)"
    using Cons.prems(3,4) e by (auto simp: refusesAttach_def resumeExpiredLocked_def)
  have idle: "l_polls st = 0 \<and> l_ws st = 0" if "\<not> s_closed (l_s st)"
    using Cons.prems(2,3) that by (auto simp: refusesAttach_def resumeExpiredLocked_def life_inv_def)
  have ends: "s_closed (endPoll t s) = s_closed s" "s_closed (endWebSocket t s) = s_closed s" for t s
    by (simp_all add: endPoll_def endWebSocket_def)
  have stays: "refusesAttach now (endPoll t (l_s st))" "refusesAttach now (endWebSocket t (l_s st))"
    if "s_closed (l_s st)" using that by (simp_all add: refusesAttach_def ends)
  have same: "beginPoll t (l_s st) = (False, l_s st)" "beginWebSocket t (l_s st) = (False, l_s st)"
    using later by (auto simp: refusesAttach_def beginPoll_def beginWebSocket_def)
  have other: "refusesAttach now (touch t (l_s st))" "refusesAttach now (Session_Close (l_s st))"
    using Cons.prems(3) by (auto simp: refusesAttach_def touch_def resumeExpiredLocked_def)
  from Cons.prems(4) have rest: "\<forall>e \<in> set es. now \<le> snd e" by simp
  show ?case
  proof (cases x)
    case LBegin
    then show ?thesis using Cons.IH [OF _ _ _ rest] Cons.prems life_inv_step(1) [of st t] same by (simp add: e)
  next
    case LEnd
    then have n: "l_polls st \<noteq> 0" using Cons.prems(1) by (simp add: e split: if_splits)
    then have "refusesAttach now (endPoll t (l_s st))" using idle stays(1) by (cases "s_closed (l_s st)") simp_all
    then show ?thesis
      using LEnd n Cons.IH [OF _ _ _ rest] Cons.prems(1,2) life_inv_step(2) [of st t] by (simp add: e)
  next
    case LBeginWS
    then show ?thesis using Cons.IH [OF _ _ _ rest] Cons.prems life_inv_step(3) [of st t] same by (simp add: e)
  next
    case LEndWS
    then have n: "l_ws st \<noteq> 0" using Cons.prems(1) by (simp add: e split: if_splits)
    then have "refusesAttach now (endWebSocket t (l_s st))" using idle stays(2) by (cases "s_closed (l_s st)") simp_all
    then show ?thesis
      using LEndWS n Cons.IH [OF _ _ _ rest] Cons.prems(1,2) life_inv_step(4) [of st t] by (simp add: e)
  next
    case LTouch
    then show ?thesis using Cons.IH [OF _ _ _ rest] other(1) Cons.prems(1,2) life_inv_step(5) [of st t] by (simp add: e)
  next
    case LClose
    then show ?thesis using Cons.IH [OF _ _ _ rest] other(2) Cons.prems(1,2) life_inv_step(6) [of st] by (simp add: e)
  qed
qed simp

section \<open>Properties\<close>


text \<open>
  A refusal is final. Once a session refuses attachments, because it is closed or because
  its grace ran out while detached, it refuses them after every further history of requests,
  endings, activity and closes, at any later time: a late attach cannot revive it.
\<close>

lemma refusal_is_final:
  assumes "refusesAttach now (l_s st)" and "life_inv st"
    and "run_life es st = Some st'" and "\<forall>e \<in> set es. now \<le> snd e" and "now \<le> later"
  shows "refusesAttach later (l_s st') \<and> beginPoll later (l_s st') = (False, l_s st') \<and>
     beginWebSocket later (l_s st') = (False, l_s st')"
proof -
  have "refusesAttach now (l_s st')" by (rule refusal_kept [OF assms(3,2,1,4)])
  then have "refusesAttach later (l_s st')"
    using assms(5) by (auto simp: refusesAttach_def resumeExpiredLocked_def)
  then show ?thesis by (auto simp: refusesAttach_def beginPoll_def beginWebSocket_def)
qed

text \<open>
  The deadline the application is given is the moment the library acts on: up to it the
  session counts as waiting to be resumed and can be attached to, after it it counts as expired
  and cannot.
\<close>

lemma ResumeDeadline_exact:
  assumes "ResumeDeadline s = Some t"
  shows "(inResumeGraceLocked now s \<longleftrightarrow> now \<le> t) \<and> (resumeExpiredLocked now s \<longleftrightarrow> t < now) \<and>
     (fst (beginPoll now s) \<longleftrightarrow> now \<le> t) \<and> (refusesAttach now s \<longleftrightarrow> t < now)"
  using assms
  by (auto simp: ResumeDeadline_def inResumeGraceLocked_def resumeExpiredLocked_def beginPoll_def refusesAttach_def
      split: if_splits)

text \<open>
  Closing happens once and cuts both directions. Of any two closes only the first reports
  that it closed the session; afterwards writes in either direction fail without effect, and
  both pipes are closed, so that a parked poll ends.
\<close>

lemma close_once:
  "fst (closeOnce s) = (\<not> IsClosed s) \<and> closeOnce (snd (closeOnce s)) = (False, snd (closeOnce s)) \<and>
   (let s' = snd (closeOnce s) in fst (closeOnce s) \<longrightarrow>
      p_closed (toServer s') \<and> p_closed (toClient s') \<and>
      Session_Write s' d = (Inl ErrClosedPipe, s') \<and> writeUpstream s' d = (Inl ErrClosedPipe, s') \<and>
      p_buf (toServer s') = p_buf (toServer s))"
  by (simp add: closeOnce_def markClosedLocked_def IsClosed_def Let_def Session_Write_def writeUpstream_def closePipes_def)

section \<open>Witnesses\<close>

definition sample_session :: session where
  "sample_session = enableResume 0 30 (newSession ''a'' Map.empty 0)"


lemma refusal_is_final_witness:
  "refusesAttach 31 sample_session \<and> beginPoll 50 sample_session = (False, sample_session)"
proof -
  have r: "refusesAttach 31 sample_session"
    by (simp add: sample_session_def refusesAttach_def resumeExpiredLocked_def enableResume_def newSession_def
        Resumable_def isBroken_def newReliable_def)
  let ?st = "\<lparr>l_s = sample_session, l_polls = 0, l_ws = 0\<rparr>"
  have "life_inv ?st" by (simp add: life_inv_def sample_session_def enableResume_def newSession_def)
  with refusal_is_final [of 31 ?st "[]" ?st 50] r show ?thesis by simp
qed

lemma ResumeDeadline_exact_witness:
  "ResumeDeadline sample_session = Some 30 \<and> fst (beginPoll 30 sample_session)"
proof -
  have d: "ResumeDeadline sample_session = Some 30"
    by (simp add: sample_session_def ResumeDeadline_def enableResume_def newSession_def Resumable_def isBroken_def
        newReliable_def)
  with ResumeDeadline_exact [OF d, of 30] show ?thesis by simp
qed

lemma close_once_witness: "closeOnce (Session_Close sample_session) = (False, Session_Close sample_session)"
  using close_once [of sample_session] by (simp add: Session_Close_def)

end
