(* ===== verification/Frame.thy ===== *)
theory Frame
  imports Pollmux_Prelude
begin

text \<open>
  The wire format of \<^verbatim>\<open>frame.go\<close>: a frame is one type byte, a four-byte big-endian
  length and the payload. \<open>writeFrame\<close> and \<open>writeSeqFrame\<close> put frames on a writer that
  may fail after any number of bytes; \<open>frameReader_next\<close> takes one frame off a reader that
  hands its bytes out in arbitrary chunks. The lemmas show that reading is independent of
  the chunking, that frames survive the round trip, that a stream cut inside a frame is
  never mistaken for a clean end, and that the payload bound holds for whatever is accepted.
\<close>

section \<open>Frame types\<close>

type_synonym frameType = byte

definition frameData :: frameType where "frameData = 1"
definition frameHeartbeat :: frameType where "frameHeartbeat = 2"
definition frameEnd :: frameType where "frameEnd = 3"
definition frameGone :: frameType where "frameGone = 4"
definition frameAck :: frameType where "frameAck = 5"
definition frameSeqData :: frameType where "frameSeqData = 6"

definition seqHeaderLen :: nat where "seqHeaderLen = 8"
definition frameHeaderLen :: nat where "frameHeaderLen = 5"

lemmas frame_type_defs =
  frameData_def frameHeartbeat_def frameEnd_def frameGone_def frameAck_def frameSeqData_def

section \<open>Writers\<close>

text \<open>
  An \<^verbatim>\<open>io.Writer\<close>: what has reached the other side, and how many more bytes it takes
  before it fails (\<open>None\<close>: it never does). A call that does not fit writes what fits and
  returns an error, as a network connection does.
\<close>

record writer =
  w_out :: bytes
  w_room :: "nat option"

definition w_write :: "writer \<Rightarrow> bytes \<Rightarrow> error option \<times> writer" where
  "w_write w p =
     (case w_room w of
        None \<Rightarrow> (None, w\<lparr>w_out := w_out w @ p\<rparr>)
      | Some r \<Rightarrow>
          if length p \<le> r then (None, w\<lparr>w_out := w_out w @ p, w_room := Some (r - length p)\<rparr>)
          else (Some ErrNet, w\<lparr>w_out := w_out w @ take r p, w_room := Some 0\<rparr>))"

definition writeFrame :: "writer \<Rightarrow> frameType \<Rightarrow> bytes \<Rightarrow> error option \<times> writer" where
  "writeFrame w typ payload =
     (let hdr = typ # PutUint32 (word_of_nat (length payload))
      in case w_write w hdr of
           (Some e, w1) \<Rightarrow> (Some e, w1)
         | (None, w1) \<Rightarrow> if length payload = 0 then (None, w1) else w_write w1 payload)"

definition writeSeqFrame :: "writer \<Rightarrow> u64 \<Rightarrow> bytes \<Rightarrow> error option \<times> writer" where
  "writeSeqFrame w off payload =
     (let hdr = frameSeqData # PutUint32 (word_of_nat (seqHeaderLen + length payload)) @ PutUint64 off
      in case w_write w hdr of
           (Some e, w1) \<Rightarrow> (Some e, w1)
         | (None, w1) \<Rightarrow> if length payload = 0 then (None, w1) else w_write w1 payload)"

section \<open>Offsets inside payloads\<close>

definition encodeOffset :: "u64 \<Rightarrow> bytes" where
  "encodeOffset n = PutUint64 n"

definition decodeAck :: "bytes \<Rightarrow> error + u64" where
  "decodeAck payload =
     (if length payload \<noteq> seqHeaderLen then Inl ErrAckPayload else Inr (Uint64 payload))"

definition splitSeq :: "bytes \<Rightarrow> error + u64 \<times> bytes" where
  "splitSeq payload =
     (if length payload < seqHeaderLen then Inl ErrSeqPayload
      else Inr (Uint64 payload, drop seqHeaderLen payload))"

section \<open>Readers\<close>

text \<open>
  An \<^verbatim>\<open>io.Reader\<close>: the chunks its next calls of \<^verbatim>\<open>Read\<close> return, as the network happens
  to deliver them, and the error that follows the last one (\<open>EOF\<close> for a body that ended
  cleanly). A call for fewer bytes than the chunk holds leaves the rest for the next call.
\<close>

record reader =
  r_chunks :: "bytes list"
  r_end :: error

definition r_bytes :: "reader \<Rightarrow> bytes" where
  "r_bytes r = concat (r_chunks r)"

text \<open>
  \<^verbatim>\<open>io.ReadFull\<close>: reads until \<open>need\<close> bytes are there. It returns the reader's error if
  not a single byte came, and \<open>ErrUnexpectedEOF\<close> if the stream ended cleanly after some.
\<close>

fun read_full :: "error \<Rightarrow> bytes list \<Rightarrow> nat \<Rightarrow> bytes \<Rightarrow> (error + bytes) \<times> bytes list" where
  "read_full e cs 0 acc = (Inr acc, cs)"
| "read_full e [] (Suc n) acc =
     (Inl (if acc \<noteq> [] \<and> e = EOF then ErrUnexpectedEOF else e), [])"
| "read_full e (c # cs) (Suc n) acc =
     (if length c \<le> Suc n then read_full e cs (Suc n - length c) (acc @ c)
      else (Inr (acc @ take (Suc n) c), drop (Suc n) c # cs))"

definition ReadFull :: "reader \<Rightarrow> nat \<Rightarrow> (error + bytes) \<times> reader" where
  "ReadFull r n = (case read_full (r_end r) (r_chunks r) n [] of (res, cs) \<Rightarrow> (res, r\<lparr>r_chunks := cs\<rparr>))"

record frameReader =
  fr_r :: reader
  fr_maxPayload :: int

definition newFrameReader :: "reader \<Rightarrow> int \<Rightarrow> frameReader" where
  "newFrameReader r maxPayload = \<lparr>fr_r = r, fr_maxPayload = maxPayload\<rparr>"

text \<open>The bound \<open>next\<close> applies to the payload of one frame, by frame type.\<close>

definition payload_bound :: "int \<Rightarrow> frameType \<Rightarrow> int" where
  "payload_bound maxPayload typ =
     (if typ = frameSeqData then maxPayload + int seqHeaderLen
      else if typ = frameAck then int seqHeaderLen
      else maxPayload)"

definition frameReader_next :: "frameReader \<Rightarrow> (error + frameType \<times> bytes) \<times> frameReader" where
  "frameReader_next f =
     (case ReadFull (fr_r f) frameHeaderLen of
        (Inl e, r) \<Rightarrow> (Inl e, f\<lparr>fr_r := r\<rparr>)
      | (Inr hdr, r) \<Rightarrow>
          let typ = hd hdr; len = Uint32 (tl hdr)
          in if len = 0 then (Inr (typ, []), f\<lparr>fr_r := r\<rparr>)
             else if int (unat len) > payload_bound (fr_maxPayload f) typ
             then (Inl ErrFrameTooLong, f\<lparr>fr_r := r\<rparr>)
             else case ReadFull r (unat len) of
                    (Inl e, r') \<Rightarrow> (Inl e, f\<lparr>fr_r := r'\<rparr>)
                  | (Inr payload, r') \<Rightarrow> (Inr (typ, payload), f\<lparr>fr_r := r'\<rparr>))"

section \<open>The bytes of a frame\<close>

text \<open>What a frame looks like on the wire; the specification of both writers.\<close>

definition frame_bytes :: "frameType \<times> bytes \<Rightarrow> bytes" where
  "frame_bytes f = fst f # PutUint32 (word_of_nat (length (snd f))) @ snd f"

text \<open>A frame a reader with bound \<open>m\<close> takes: its length fits the field and the bound.\<close>

definition frame_ok :: "int \<Rightarrow> frameType \<times> bytes \<Rightarrow> bool" where
  "frame_ok m f \<longleftrightarrow>
     length (snd f) < 2 ^ 32 \<and>
     (snd f \<noteq> [] \<longrightarrow> int (length (snd f)) \<le> payload_bound m (fst f))"

text \<open>
  The loop every consumer runs: frames until the first error, and that error. The source has
  it in \<^verbatim>\<open>pollSendStream\<close> and in the two \<^verbatim>\<open>doStreamPoll\<close>, each with its own handling of
  the frames.
\<close>

fun read_frames :: "nat \<Rightarrow> frameReader \<Rightarrow> (frameType \<times> bytes) list \<times> error option" where
  "read_frames 0 f = ([], None)"
| "read_frames (Suc n) f =
     (case frameReader_next f of
        (Inl e, f') \<Rightarrow> ([], Some e)
      | (Inr x, f') \<Rightarrow> (case read_frames n f' of (xs, e) \<Rightarrow> (x # xs, e)))"

section \<open>Lemmas\<close>

lemmas frame_ok_simps = frame_ok_def payload_bound_def frame_type_defs
lemmas frame_bytes_simps = frame_bytes_def PutUint32_def be_bytes_numeral frame_type_defs

lemma seqHeaderLen_eq [simp]: "seqHeaderLen = 8"
  by (simp add: seqHeaderLen_def)

lemma frameHeaderLen_eq [simp]: "frameHeaderLen = 5"
  by (simp add: frameHeaderLen_def)

lemma frame_types_distinct:
  "distinct [frameData, frameHeartbeat, frameEnd, frameGone, frameAck, frameSeqData]"
  by (simp add: frame_type_defs)

lemma length_frame_bytes: "length (frame_bytes f) = frameHeaderLen + length (snd f)"
  by (simp add: frame_bytes_def be32.enc_length)

subsection \<open>Writing\<close>

text \<open>Two writes in a row are one write of the concatenation, up to where it failed.\<close>

lemma w_write_append:
  "(case w_write w p of (Some e, w1) \<Rightarrow> (Some e, w1) | (None, w1) \<Rightarrow> w_write w1 q) = w_write w (p @ q)"
  by (auto simp: w_write_def split: option.splits)

lemma w_write_Nil: "w_write w [] = (None, w)"
  by (auto simp: w_write_def split: option.splits)

lemma writeFrame_eq: "writeFrame w typ payload = w_write w (frame_bytes (typ, payload))"
  using w_write_append [where w = w and p = "typ # PutUint32 (word_of_nat (length payload))" and q = payload]
  by (auto simp: writeFrame_def frame_bytes_def Let_def w_write_Nil split: prod.splits option.splits)

lemma writeSeqFrame_eq:
  "writeSeqFrame w off payload = w_write w (frame_bytes (frameSeqData, encodeOffset off @ payload))"
proof -
  let ?h = "frameSeqData # PutUint32 (word_of_nat (seqHeaderLen + length payload)) @ PutUint64 off"
  have "frame_bytes (frameSeqData, encodeOffset off @ payload) = ?h @ payload"
    by (simp add: frame_bytes_def encodeOffset_def be64.enc_length)
  then show ?thesis
    using w_write_append [where w = w and p = ?h and q = payload]
    by (auto simp: writeSeqFrame_def Let_def w_write_Nil split: prod.splits option.splits)
qed

lemma w_write_unlimited: "w_room w = None \<Longrightarrow> w_write w p = (None, w\<lparr>w_out := w_out w @ p\<rparr>)"
  by (simp add: w_write_def)

lemma w_write_out:
  "w_write w p = (res, w') \<Longrightarrow>
     \<exists>q. w_out w' = w_out w @ q \<and> (if res = None then q = p else \<exists>k. q = take k p \<and> k < length p)"
  by (fastforce simp: w_write_def not_le split: option.splits if_splits)

subsection \<open>Reading\<close>

lemma read_full_enough:
  "n \<le> length (concat cs) \<Longrightarrow>
     \<exists>cs'. read_full e cs n acc = (Inr (acc @ take n (concat cs)), cs') \<and> concat cs' = drop n (concat cs)"
  by (induction e cs n acc rule: read_full.induct) auto

lemma read_full_short:
  "length (concat cs) < n \<Longrightarrow>
     read_full e cs n acc = (Inl (if acc @ concat cs \<noteq> [] \<and> e = EOF then ErrUnexpectedEOF else e), [])"
  by (induction e cs n acc rule: read_full.induct) auto

lemma ReadFull_enough:
  assumes "n \<le> length (r_bytes r)"
  obtains r' where "ReadFull r n = (Inr (take n (r_bytes r)), r')"
    and "r_bytes r' = drop n (r_bytes r)" and "r_end r' = r_end r"
proof -
  obtain cs' where "read_full (r_end r) (r_chunks r) n [] = (Inr (take n (r_bytes r)), cs')"
    and "concat cs' = drop n (r_bytes r)"
    using read_full_enough [of n "r_chunks r" "r_end r" "[]"] assms by (auto simp: r_bytes_def)
  then show thesis
    by (intro that [of "r\<lparr>r_chunks := cs'\<rparr>"]) (auto simp: ReadFull_def r_bytes_def)
qed

lemma ReadFull_short:
  assumes "length (r_bytes r) < n"
  shows "ReadFull r n =
    (Inl (if r_bytes r \<noteq> [] \<and> r_end r = EOF then ErrUnexpectedEOF else r_end r), r\<lparr>r_chunks := []\<rparr>)"
  using assms by (simp add: ReadFull_def r_bytes_def read_full_short)

text \<open>The header of a frame decodes to its type and its length.\<close>

lemma frame_header:
  assumes "length (snd x) < 2 ^ 32"
  shows "take frameHeaderLen (frame_bytes x @ rest) = fst x # PutUint32 (word_of_nat (length (snd x)))"
    and "drop frameHeaderLen (frame_bytes x @ rest) = snd x @ rest"
    and "Uint32 (PutUint32 (word_of_nat (length (snd x)))) = word_of_nat (length (snd x))"
    and "unat (word_of_nat (length (snd x)) :: u32) = length (snd x)"
  using assms
  by (simp_all add: frame_bytes_def be32.enc_length be32.dec_enc_exact unat_of_nat_u32 take_Cons' drop_Cons')

lemma next_after_header:
  assumes "ReadFull (fr_r f) frameHeaderLen = (Inr (typ # PutUint32 len), r)"
  shows "frameReader_next f =
    (if len = 0 then (Inr (typ, []), f\<lparr>fr_r := r\<rparr>)
     else if payload_bound (fr_maxPayload f) typ < int (unat len)
     then (Inl ErrFrameTooLong, f\<lparr>fr_r := r\<rparr>)
     else case ReadFull r (unat len) of
            (Inl e, r') \<Rightarrow> (Inl e, f\<lparr>fr_r := r'\<rparr>)
          | (Inr payload, r') \<Rightarrow> (Inr (typ, payload), f\<lparr>fr_r := r'\<rparr>))"
  using assms by (simp add: frameReader_next_def Let_def be32.dec_enc_exact)

lemma next_frame:
  assumes "frame_ok (fr_maxPayload f) x" and "r_bytes (fr_r f) = frame_bytes x @ rest"
  obtains f' where "frameReader_next f = (Inr x, f')" and "r_bytes (fr_r f') = rest"
    and "r_end (fr_r f') = r_end (fr_r f)" and "fr_maxPayload f' = fr_maxPayload f"
proof -
  let ?len = "word_of_nat (length (snd x)) :: u32"
  from assms have lt: "length (snd x) < 2 ^ 32" by (simp add: frame_ok_def)
  note hdr = frame_header [OF lt]
  have "frameHeaderLen \<le> length (r_bytes (fr_r f))"
    by (simp add: assms(2) length_frame_bytes)
  then obtain r1 where r1: "ReadFull (fr_r f) frameHeaderLen = (Inr (fst x # PutUint32 ?len), r1)"
      "r_bytes r1 = snd x @ rest" "r_end r1 = r_end (fr_r f)"
    using ReadFull_enough [of frameHeaderLen "fr_r f"] by (metis assms(2) hdr(1,2))
  show thesis
  proof (cases "snd x = []")
    case True
    then show ?thesis using r1
      by (intro that [of "f\<lparr>fr_r := r1\<rparr>"]) (simp_all add: next_after_header [OF r1(1)] prod.expand)
  next
    case False
    have "unat ?len \<noteq> 0" using False hdr(4) by simp
    then have ne: "?len \<noteq> 0" by auto
    have bound: "\<not> payload_bound (fr_maxPayload f) (fst x) < int (unat ?len)"
      using assms(1) False hdr(4) by (simp add: frame_ok_def)
    obtain r2 where r2: "ReadFull r1 (unat ?len) = (Inr (snd x), r2)" "r_bytes r2 = rest"
        "r_end r2 = r_end r1"
      using ReadFull_enough [of "unat ?len" r1] r1(2) hdr(4) by auto
    show ?thesis using r1(3) r2 ne bound
      by (intro that [of "f\<lparr>fr_r := r2\<rparr>"]) (simp_all add: next_after_header [OF r1(1)])
  qed
qed

lemma next_at_end:
  "r_bytes (fr_r f) = [] \<Longrightarrow> \<exists>f'. frameReader_next f = (Inl (r_end (fr_r f)), f')"
  by (simp add: frameReader_next_def ReadFull_short)

text \<open>
  A stream that ends cleanly inside a frame is reported as \<open>ErrUnexpectedEOF\<close>, with one
  exception: cut right after the header, \<open>io.ReadFull\<close> gets no byte of the payload at all
  and passes the plain \<open>EOF\<close> on.
\<close>

lemma next_cut:
  assumes "frame_ok (fr_maxPayload f) x" and "r_bytes (fr_r f) = take k (frame_bytes x)"
    and "0 < k" and "k < length (frame_bytes x)" and "r_end (fr_r f) = EOF"
  shows "\<exists>f'. frameReader_next f = (Inl (if k = frameHeaderLen then EOF else ErrUnexpectedEOF), f')"
proof (cases "k < frameHeaderLen")
  case True
  then have "length (r_bytes (fr_r f)) < frameHeaderLen" and "r_bytes (fr_r f) \<noteq> []"
    using assms by auto
  then show ?thesis using True assms(5) by (simp add: frameReader_next_def ReadFull_short)
next
  case False
  let ?len = "word_of_nat (length (snd x)) :: u32"
  from assms have lt: "length (snd x) < 2 ^ 32" by (simp add: frame_ok_def)
  note hdr = frame_header [OF lt]
  have "frameHeaderLen \<le> length (r_bytes (fr_r f))"
    using False assms(2,4) by simp
  moreover have "take frameHeaderLen (r_bytes (fr_r f)) = fst x # PutUint32 ?len"
    using False hdr(1) [of "[]"] assms(2) by (simp add: min_absorb1)
  moreover have "drop frameHeaderLen (r_bytes (fr_r f)) = take (k - frameHeaderLen) (snd x)"
    using hdr(2) [of "[]"] assms(2) by (simp add: drop_take)
  ultimately obtain r1 where r1: "ReadFull (fr_r f) frameHeaderLen = (Inr (fst x # PutUint32 ?len), r1)"
      "r_bytes r1 = take (k - frameHeaderLen) (snd x)" "r_end r1 = EOF"
    using ReadFull_enough [of frameHeaderLen "fr_r f"] assms(5) by metis
  have short: "k - frameHeaderLen < length (snd x)"
    using assms(4) False by (simp add: length_frame_bytes)
  then have "unat ?len \<noteq> 0" using hdr(4) by linarith
  then have ne: "?len \<noteq> 0" by auto
  have bound: "\<not> payload_bound (fr_maxPayload f) (fst x) < int (unat ?len)"
    using assms(1) short hdr(4) by (auto simp: frame_ok_def)
  have "length (r_bytes r1) < unat ?len" and "r_bytes r1 = [] \<longleftrightarrow> k = frameHeaderLen"
    using r1(2) short hdr(4) False by auto
  then show ?thesis using r1(3) ne bound
    by (simp add: next_after_header [OF r1(1)] ReadFull_short)
qed

lemma read_frames_until:
  assumes "list_all (frame_ok m) xs"
    and "r_bytes (fr_r f) = concat (map frame_bytes xs) @ rest"
    and "fr_maxPayload f = m" and "r_end (fr_r f) = e"
    and "\<And>g. r_bytes (fr_r g) = rest \<Longrightarrow> r_end (fr_r g) = e \<Longrightarrow> fr_maxPayload g = m \<Longrightarrow>
           \<exists>h. frameReader_next g = (Inl err, h)"
  shows "read_frames (length xs + 1) f = (xs, Some err)"
  using assms(1-4)
proof (induction xs arbitrary: f)
  case Nil
  with assms(5) [of f] show ?case by auto
next
  case (Cons x xs)
  obtain g where "frameReader_next f = (Inr x, g)"
      "r_bytes (fr_r g) = concat (map frame_bytes xs) @ rest"
      "r_end (fr_r g) = e" "fr_maxPayload g = m"
    using next_frame [of f x "concat (map frame_bytes xs) @ rest"] Cons.prems by auto
  with Cons.IH [of g] Cons.prems(1) show ?case by simp
qed

lemma ReadFull_cong:
  assumes "r_bytes r = r_bytes r'" and "r_end r = r_end r'"
  shows "fst (ReadFull r n) = fst (ReadFull r' n)"
    and "r_bytes (snd (ReadFull r n)) = r_bytes (snd (ReadFull r' n))"
    and "r_end (snd (ReadFull r n)) = r_end r"
proof -
  consider "n \<le> length (r_bytes r)" | "length (r_bytes r) < n" by linarith
  then have "fst (ReadFull r n) = fst (ReadFull r' n) \<and>
    r_bytes (snd (ReadFull r n)) = r_bytes (snd (ReadFull r' n)) \<and> r_end (snd (ReadFull r n)) = r_end r"
  proof cases
    case 1
    obtain s where "ReadFull r n = (Inr (take n (r_bytes r)), s)"
        "r_bytes s = drop n (r_bytes r)" "r_end s = r_end r"
      using ReadFull_enough [OF 1] .
    moreover obtain s' where "ReadFull r' n = (Inr (take n (r_bytes r')), s')"
        "r_bytes s' = drop n (r_bytes r')"
      using ReadFull_enough [of n r'] 1 assms(1) by metis
    ultimately show ?thesis using assms(1) by simp
  next
    case 2
    then show ?thesis using assms by (simp add: ReadFull_short r_bytes_def)
  qed
  then show "fst (ReadFull r n) = fst (ReadFull r' n)"
    and "r_bytes (snd (ReadFull r n)) = r_bytes (snd (ReadFull r' n))"
    and "r_end (snd (ReadFull r n)) = r_end r" by auto
qed

lemma ReadFull_length: "ReadFull r n = (Inr bs, r') \<Longrightarrow> length bs = n"
  by (metis Inl_Inr_False ReadFull_enough ReadFull_short fst_conv length_take min_absorb2 not_le sum.inject(2))

section \<open>Lemmas on cut bodies\<close>

lemma ReadFull_split: "ReadFull r n = (Inr bs, r') \<Longrightarrow> r_bytes r = bs @ r_bytes r'"
proof -
  assume run: "ReadFull r n = (Inr bs, r')"
  then have "n \<le> length (r_bytes r)" using ReadFull_short [of r n] by (cases "length (r_bytes r) < n") auto
  from ReadFull_enough [OF this] show ?thesis using run by (metis append_take_drop_id prod.inject sum.inject(2))
qed

text \<open>A frame that is read is what stood at the front of the body.\<close>

lemma next_reads:
  assumes "frameReader_next f = (Inr x, f')"
  shows "r_bytes (fr_r f) = frame_bytes x @ r_bytes (fr_r f') \<and> length (snd x) < 2 ^ 32"
proof -
  obtain hdr r where h: "ReadFull (fr_r f) frameHeaderLen = (Inr hdr, r)"
    using assms by (auto simp: frameReader_next_def split: sum.splits prod.splits)
  then have "length hdr = frameHeaderLen" by (rule ReadFull_length)
  then obtain ty l where hdr: "hdr = ty # l" "length l = 4" by (cases hdr) auto
  define len where "len = Uint32 l"
  have l: "PutUint32 len = l" using be32.enc_dec [OF hdr(2)] by (simp add: len_def)
  show ?thesis
  proof (cases "len = 0")
    case True
    then have "x = (ty, [])" "fr_r f' = r" using assms h hdr by (auto simp: frameReader_next_def len_def)
    then show ?thesis using ReadFull_split [OF h] hdr l True by (simp add: frame_bytes_def)
  next
    case False
    then obtain d r' where p: "ReadFull r (unat len) = (Inr d, r')" "fr_r f' = r'" "x = (ty, d)"
      using assms h hdr by (auto simp: frameReader_next_def Let_def len_def split: if_splits sum.splits prod.splits)
    then have "length d = unat len" using ReadFull_length by blast
    then have "(word_of_nat (length d) :: u32) = len" "length d < 2 ^ 32" using unat_u32_less [of len] by simp_all
    then show ?thesis using ReadFull_split [OF h] ReadFull_split [OF p(1)] p(2,3) hdr l by (simp add: frame_bytes_def)
  qed
qed

lemma frame_bytes_inject:
  assumes "frame_bytes x @ r = frame_bytes y @ s" and "length (snd x) < 2 ^ 32" and "length (snd y) < 2 ^ 32"
  shows "x = y \<and> r = s"
proof -
  have hd: "fst x = fst y" "PutUint32 (word_of_nat (length (snd x))) = PutUint32 (word_of_nat (length (snd y)))"
    and rest: "snd x @ r = snd y @ s"
    using frame_header(1,2) [OF assms(2), of r] frame_header(1,2) [OF assms(3), of s] assms(1) by simp_all
  have "length (snd x) = length (snd y)" using hd(2) frame_header(3,4) [OF assms(2)] frame_header(3,4) [OF assms(3)] by metis
  then show ?thesis using hd(1) rest by (simp add: prod_eq_iff)
qed

text \<open>Whatever is left of a body, whoever reads it sees the first of its frames and no others.\<close>

lemma cut_frames:
  assumes "r_bytes (fr_r f) = take k (concat (map frame_bytes xs))" and "list_all (\<lambda>x. length (snd x) < 2 ^ 32) xs"
  shows "\<exists>j. fst (read_frames n f) = take j xs"
  using assms
proof (induction n arbitrary: f k xs)
  case (Suc n)
  show ?case
  proof (cases "frameReader_next f")
    case (Pair res f')
    show ?thesis
    proof (cases res)
      case (Inl e)
      then show ?thesis using Pair by (intro exI [of _ 0]) simp
    next
      case (Inr x)
      note read = next_reads [OF Pair [unfolded Inr]]
      have cut: "concat (map frame_bytes xs) = frame_bytes x @ r_bytes (fr_r f') @ drop k (concat (map frame_bytes xs))"
        using read Suc.prems(1) by (metis append.assoc append_take_drop_id)
      obtain y ys where xs: "xs = y # ys" using cut by (cases xs) (simp_all add: frame_bytes_def)
      then have eq: "x = y" "r_bytes (fr_r f') @ drop k (concat (map frame_bytes xs)) = concat (map frame_bytes ys)"
        using frame_bytes_inject [of x _ y "concat (map frame_bytes ys)"] cut read Suc.prems(2) by simp_all
      then have "r_bytes (fr_r f') = take (length (r_bytes (fr_r f'))) (concat (map frame_bytes ys))" by (metis append_eq_conv_conj)
      then obtain j where "fst (read_frames n f') = take j ys" using Suc.IH Suc.prems(2) xs by fastforce
      then show ?thesis using Pair Inr xs eq(1) by (intro exI [of _ "Suc j"]) (simp add: case_prod_beta)
    qed
  qed
qed (auto intro: exI [of _ 0])

section \<open>Properties\<close>



text \<open>
  C38: A body that ends cleanly after the whole frames \<open>xs\<close> and \<open>i\<close> bytes of one more yields
  exactly \<open>xs\<close>. The error is \<open>EOF\<close> at a frame boundary (\<open>i = 0\<close>) and \<open>ErrUnexpectedEOF\<close>
  inside a frame, except right after the header, where \<open>next\<close> answers \<open>EOF\<close> although the
  payload is missing.
\<close>

theorem cut_stream:
  assumes "list_all (frame_ok m) xs" and "frame_ok m x" and "i < length (frame_bytes x)"
    and "r_bytes r = concat (map frame_bytes xs) @ take i (frame_bytes x)" and "r_end r = EOF"
  shows "read_frames (length xs + 1) (newFrameReader r m) =
    (xs, Some (if i = 0 \<or> i = frameHeaderLen then EOF else ErrUnexpectedEOF))"
proof (rule read_frames_until [where rest = "take i (frame_bytes x)" and e = EOF and m = m])
  fix g :: frameReader
  assume "r_bytes (fr_r g) = take i (frame_bytes x)" "r_end (fr_r g) = EOF" "fr_maxPayload g = m"
  with assms show "\<exists>h. frameReader_next g = (Inl (if i = 0 \<or> i = frameHeaderLen then EOF else ErrUnexpectedEOF), h)"
    using next_cut [of g x i] next_at_end [of g] by (cases "i = 0") auto
qed (use assms in \<open>auto simp: newFrameReader_def\<close>)

lemma cut_stream_witness:
  "read_frames (Suc (Suc 0)) (newFrameReader \<lparr>r_chunks = [[1, 0, 0, 0, 1, 9], [1, 0, 0, 0, 2]], r_end = EOF\<rparr> 16) =
     ([(frameData, [9])], Some EOF) \<and>
   read_frames (Suc (Suc 0)) (newFrameReader \<lparr>r_chunks = [[1, 0, 0, 0, 1, 9], [1, 0, 0, 0, 2, 7]], r_end = EOF\<rparr> 16) =
     ([(frameData, [9])], Some ErrUnexpectedEOF)"
proof -
  let ?x = "(frameData, [7, 8 :: byte])" and ?xs = "[(frameData, [9 :: byte])]"
  have a: "list_all (frame_ok 16) ?xs" "frame_ok 16 ?x" by (simp_all add: frame_ok_simps)
  have "5 < length (frame_bytes ?x)" "6 < length (frame_bytes ?x)" by (simp_all add: frame_bytes_simps)
  moreover have "r_bytes \<lparr>r_chunks = [[1, 0, 0, 0, 1, 9], [1, 0, 0, 0, 2]], r_end = EOF\<rparr> =
      concat (map frame_bytes ?xs) @ take 5 (frame_bytes ?x)"
    "r_bytes \<lparr>r_chunks = [[1, 0, 0, 0, 1, 9], [1, 0, 0, 0, 2, 7]], r_end = EOF\<rparr> =
      concat (map frame_bytes ?xs) @ take 6 (frame_bytes ?x)" by (simp_all add: frame_bytes_simps r_bytes_def)
  ultimately show ?thesis
    using cut_stream [OF a, of 5 "\<lparr>r_chunks = [[1, 0, 0, 0, 1, 9], [1, 0, 0, 0, 2]], r_end = EOF\<rparr>"]
      cut_stream [OF a, of 6 "\<lparr>r_chunks = [[1, 0, 0, 0, 1, 9], [1, 0, 0, 0, 2, 7]], r_end = EOF\<rparr>"]
    by (simp del: read_frames.simps)
qed

text \<open>
  C39: The reader assumes nothing about how the transport splits the body: two readers with the
  same bytes and the same end give the same frame or the same error, and leave the same bytes
  unread, for any bytes at all.
\<close>

theorem next_chunking:
  assumes "r_bytes r = r_bytes r'" and "r_end r = r_end r'"
  shows "fst (frameReader_next (newFrameReader r m)) = fst (frameReader_next (newFrameReader r' m)) \<and>
    r_bytes (fr_r (snd (frameReader_next (newFrameReader r m)))) =
      r_bytes (fr_r (snd (frameReader_next (newFrameReader r' m))))"
proof -
  let ?h = "ReadFull r frameHeaderLen" and ?h' = "ReadFull r' frameHeaderLen"
  note hc = ReadFull_cong [OF assms, of frameHeaderLen]
  have he: "r_end (snd ?h) = r_end (snd ?h')"
    using hc(3) ReadFull_cong(3) [OF assms [symmetric], of frameHeaderLen] assms(2) by simp
  note pc = ReadFull_cong [OF hc(2) he]
  show ?thesis
  proof (cases "fst ?h")
    case (Inl e)
    then show ?thesis using hc
      by (auto simp: frameReader_next_def newFrameReader_def split: prod.splits)
  next
    case (Inr hdr)
    then show ?thesis using hc pc [of "unat (Uint32 (tl hdr))"]
      by (auto simp: frameReader_next_def newFrameReader_def Let_def split: prod.splits sum.splits)
  qed
qed

lemma next_chunking_witness:
  "fst (frameReader_next (newFrameReader \<lparr>r_chunks = [[1], [], [0, 0, 0, 1, 9]], r_end = ErrNet\<rparr> 4)) =
   fst (frameReader_next (newFrameReader \<lparr>r_chunks = [[1, 0, 0, 0, 1, 9]], r_end = ErrNet\<rparr> 4))"
  using next_chunking [of "\<lparr>r_chunks = [[1], [], [0, 0, 0, 1, 9]], r_end = ErrNet\<rparr>"
      "\<lparr>r_chunks = [[1, 0, 0, 0, 1, 9]], r_end = ErrNet\<rparr>" 4]
  by (simp add: r_bytes_def)

text \<open>
  An accepted payload is within the negotiated bound: the data bound itself, eight bytes
  more for numbered data, exactly one offset for an acknowledgement. A peer cannot make the
  reader allocate more.
\<close>

lemma next_payload_bounded:
  assumes "frameReader_next f = (Inr (typ, payload), f')" and "0 \<le> fr_maxPayload f"
  shows "int (length payload) \<le> payload_bound (fr_maxPayload f) typ"
proof -
  from assms(2) have "0 \<le> payload_bound (fr_maxPayload f) typ"
    by (simp add: payload_bound_def)
  with assms(1) show ?thesis
    by (auto simp: frameReader_next_def Let_def dest!: ReadFull_length split: prod.splits sum.splits if_splits)
qed

lemma next_payload_bounded_witness:
  "\<exists>f'. frameReader_next (newFrameReader \<lparr>r_chunks = [[1, 0, 0, 0, 1, 9]], r_end = EOF\<rparr> 1) =
     (Inr (frameData, [9]), f') \<and> int (length [9 :: byte]) \<le> payload_bound 1 frameData"
proof -
  let ?f = "newFrameReader \<lparr>r_chunks = [[1, 0, 0, 0, 1, 9]], r_end = EOF\<rparr> 1"
  obtain f' where f': "frameReader_next ?f = (Inr (frameData, [9]), f')"
    using next_frame [of ?f "(frameData, [9])" "[]"]
    by (auto simp: frame_ok_simps frame_bytes_simps newFrameReader_def r_bytes_def)
  with next_payload_bounded [OF f'] show ?thesis
    by (simp add: newFrameReader_def)
qed

text \<open>
  Numbered data survives the wire with its offset. A frame written by \<open>writeSeqFrame\<close>
  whose data fits the bound is read back by \<open>next\<close> and taken apart by \<open>splitSeq\<close> into the
  same offset and the same data; an acknowledgement is read back whatever the data bound is.
\<close>

lemma seq_frame_roundtrip:
  assumes "int (length data) \<le> m" and "length data + seqHeaderLen < 2 ^ 32" and "w_room w = None"
    and "w_out w = []"
    and "writeSeqFrame w off data = (res, w')" and "writeFrame w frameAck (encodeOffset n) = (res2, w'')"
  shows "res = None \<and> (\<exists>f'. frameReader_next (newFrameReader \<lparr>r_chunks = [w_out w'], r_end = EOF\<rparr> m) =
      (Inr (frameSeqData, encodeOffset off @ data), f')) \<and> splitSeq (encodeOffset off @ data) = Inr (off, data) \<and>
    res2 = None \<and> (\<exists>f'. frameReader_next (newFrameReader \<lparr>r_chunks = [w_out w''], r_end = EOF\<rparr> m) =
      (Inr (frameAck, encodeOffset n), f')) \<and> decodeAck (encodeOffset n) = Inr n"
proof -
  let ?x = "(frameSeqData, encodeOffset off @ data)" and ?y = "(frameAck, encodeOffset n)"
  have w: "res = None" "w_out w' = frame_bytes ?x" "res2 = None" "w_out w'' = frame_bytes ?y"
    using assms by (auto simp: writeSeqFrame_eq writeFrame_eq w_write_unlimited)
  have "frame_ok m ?x" "frame_ok m ?y"
    using assms(1,2) by (auto simp: frame_ok_simps encodeOffset_def be64.enc_length)
  then have "\<exists>f'. frameReader_next (newFrameReader \<lparr>r_chunks = [frame_bytes z], r_end = EOF\<rparr> m) = (Inr z, f')" if "z \<in> {?x, ?y}" for z
    using next_frame [of "newFrameReader \<lparr>r_chunks = [frame_bytes z], r_end = EOF\<rparr> m" z "[]"] that
    by (auto simp: newFrameReader_def r_bytes_def)
  then show ?thesis
    unfolding w by (simp add: splitSeq_def decodeAck_def encodeOffset_def be64.enc_length be64.dec_enc be64.dec_enc_exact)
qed

lemma seq_frame_roundtrip_witness:
  "splitSeq (encodeOffset 300 @ [1, 2]) = Inr (300, [1, 2]) \<and> decodeAck (encodeOffset 70000) = Inr 70000 \<and>
   (\<exists>f'. frameReader_next (newFrameReader \<lparr>r_chunks = [[6, 0, 0, 0, 10, 0, 0, 0, 0, 0, 0, 1, 44, 1, 2]], r_end = EOF\<rparr> 2) =
      (Inr (frameSeqData, encodeOffset 300 @ [1, 2]), f'))"
proof -
  let ?w = "\<lparr>w_out = [], w_room = None\<rparr>"
  have s: "writeSeqFrame ?w 300 [1, 2] =
      (None, \<lparr>w_out = [6, 0, 0, 0, 10, 0, 0, 0, 0, 0, 0, 1, 44, 1, 2], w_room = None\<rparr>)"
    by (simp add: writeSeqFrame_eq w_write_def frame_bytes_simps encodeOffset_def PutUint64_def)
  obtain a where a: "writeFrame ?w frameAck (encodeOffset 70000) = (None, a)"
    by (simp add: writeFrame_eq w_write_def)
  show ?thesis
    using seq_frame_roundtrip [OF _ _ _ _ s a, of 2] by simp
qed

end
