(* ===== verification/Http.thy ===== *)
theory Http
  imports Protocol Frame
begin

text \<open>
  What the handlers and the client see of HTTP: headers as a map from names to the list of
  their values, requests, responses, bounded bodies, and the offsets that resumable batches
  carry in headers (\<open>batchOffset\<close> and \<open>setBatchOffset\<close> of \<^verbatim>\<open>batch.go\<close>). A response body is
  raw bytes, the bytes of a streamed response, or a JSON value; \<^verbatim>\<open>encoding/json\<close> is taken to
  deliver the value it was given. The texts of error messages are not modelled.

  The lemmas show that an offset survives the trip through a header.
\<close>

section \<open>Headers\<close>

type_synonym header = "string \<Rightarrow> string list"

definition HeaderSendOnly :: string where "HeaderSendOnly = ''X-Send-Only''"
definition HeaderReceiveOnly :: string where "HeaderReceiveOnly = ''X-Receive-Only''"
definition HeaderSendStream :: string where "HeaderSendStream = ''X-Send-Stream''"
definition HeaderSendStreamProbe :: string where "HeaderSendStreamProbe = ''X-Send-Stream-Probe''"
definition HeaderSendOffset :: string where "HeaderSendOffset = ''X-Send-Offset''"
definition HeaderRecvOffset :: string where "HeaderRecvOffset = ''X-Recv-Offset''"

lemmas header_names = HeaderSendOnly_def HeaderReceiveOnly_def HeaderSendStream_def
  HeaderSendStreamProbe_def HeaderSendOffset_def HeaderRecvOffset_def

text \<open>\<^verbatim>\<open>http.Header\<close>: \<open>Get\<close> is the first value or the empty string, \<open>Set\<close> replaces all values.\<close>

definition no_header :: header where
  "no_header = (\<lambda>_. [])"

definition header_Get :: "header \<Rightarrow> string \<Rightarrow> string" where
  "header_Get h name = (case h name of [] \<Rightarrow> [] | v # _ \<Rightarrow> v)"

definition header_Set :: "header \<Rightarrow> string \<Rightarrow> string \<Rightarrow> header" where
  "header_Set h name v = h(name := [v])"

definition header_true :: "header \<Rightarrow> string \<Rightarrow> bool" where
  "header_true h name \<longleftrightarrow> header_Get h name = ''true''"

section \<open>Decimal numbers\<close>

definition digit :: "nat \<Rightarrow> char" where
  "digit d = char_of (48 + d)"

definition digit_val :: "char \<Rightarrow> nat option" where
  "digit_val c = (let n = of_char c :: nat in if 48 \<le> n \<and> n \<le> 57 then Some (n - 48) else None)"

fun dec_digits :: "nat \<Rightarrow> string" where
  "dec_digits n = (if n < 10 then [digit n] else dec_digits (n div 10) @ [digit (n mod 10)])"

declare dec_digits.simps [simp del]

fun dec_value :: "nat \<Rightarrow> string \<Rightarrow> nat option" where
  "dec_value acc [] = Some acc"
| "dec_value acc (c # cs) = (case digit_val c of None \<Rightarrow> None | Some d \<Rightarrow> dec_value (acc * 10 + d) cs)"

text \<open>\<^verbatim>\<open>strconv.FormatUint(n, 10)\<close> and \<^verbatim>\<open>strconv.ParseUint(s, 10, 64)\<close>.\<close>

definition FormatUint :: "u64 \<Rightarrow> string" where
  "FormatUint n = dec_digits (unat n)"

definition ParseUint :: "string \<Rightarrow> error + u64" where
  "ParseUint s =
     (if s = [] then Inl ErrSyntax
      else case dec_value 0 s of
             None \<Rightarrow> Inl ErrSyntax
           | Some v \<Rightarrow> if v < 2 ^ 64 then Inr (word_of_nat v) else Inl ErrRange)"

definition batchOffset :: "header \<Rightarrow> string \<Rightarrow> error + u64" where
  "batchOffset h name =
     (case h name of
        [v] \<Rightarrow> ParseUint v
      | _ \<Rightarrow> Inl ErrHeaderCount)"

definition setBatchOffset :: "header \<Rightarrow> string \<Rightarrow> u64 \<Rightarrow> header" where
  "setBatchOffset h name off = header_Set h name (FormatUint off)"

section \<open>Requests and responses\<close>

text \<open>\<open>rq_ContentLength\<close> is \<open>-1\<close> when the length is unknown, as in the source.\<close>

record request =
  rq_header :: header
  rq_ContentLength :: int
  rq_body :: reader

datatype payload =
    NoBody
  | ErrorBody
  | Raw bytes
  | ConnectBody ConnectResponse
  | ResumeBody ResumeResponse

record response =
  rp_status :: nat
  rp_header :: header
  rp_body :: payload

definition WriteHeader :: "nat \<Rightarrow> response" where
  "WriteHeader status = \<lparr>rp_status = status, rp_header = no_header, rp_body = NoBody\<rparr>"

definition writeJSON :: "nat \<Rightarrow> payload \<Rightarrow> response" where
  "writeJSON status v =
     \<lparr>rp_status = status, rp_header = header_Set no_header ''Content-Type'' ''application/json'', rp_body = v\<rparr>"

definition writeError :: "nat \<Rightarrow> response" where
  "writeError status = writeJSON status ErrorBody"

text \<open>
  \<^verbatim>\<open>io.ReadAll(http.MaxBytesReader(w, body, n))\<close>: more than \<open>n\<close> bytes are an error of their
  own, whatever follows them.
\<close>

definition read_all_max :: "int \<Rightarrow> reader \<Rightarrow> error + bytes" where
  "read_all_max n r =
     (if int (length (r_bytes r)) > n then Inl ErrBodyTooLarge
      else if r_end r = EOF then Inr (r_bytes r)
      else Inl (r_end r))"

text \<open>\<^verbatim>\<open>io.ReadAll(io.LimitReader(body, n))\<close>: at most \<open>n\<close> bytes, and no error once they are there.\<close>

definition read_all_limit :: "nat \<Rightarrow> reader \<Rightarrow> error + bytes" where
  "read_all_limit n r =
     (if n \<le> length (r_bytes r) then Inr (take n (r_bytes r))
      else if r_end r = EOF then Inr (r_bytes r)
      else Inl (r_end r))"

text \<open>A response as the client gets it, and as it arrives when nothing goes wrong.\<close>

record wire =
  wr_status :: nat
  wr_header :: header
  wr_body :: reader

definition wire_of :: "response \<Rightarrow> wire" where
  "wire_of rp =
     \<lparr>wr_status = rp_status rp, wr_header = rp_header rp,
      wr_body = \<lparr>r_chunks = [case rp_body rp of Raw d \<Rightarrow> d | _ \<Rightarrow> []], r_end = EOF\<rparr>\<rparr>"

section \<open>Lemmas\<close>

lemma digit_val_digit [simp]: "d < 10 \<Longrightarrow> digit_val (digit d) = Some d"
  by (simp add: digit_val_def digit_def Let_def of_char_of)

lemma dec_value_append:
  "dec_value acc (xs @ ys) = (case dec_value acc xs of None \<Rightarrow> None | Some v \<Rightarrow> dec_value v ys)"
  by (induction xs arbitrary: acc) (auto split: option.splits)

lemma dec_digits_ne [simp]: "dec_digits n \<noteq> []"
  by (subst dec_digits.simps) simp

lemma dec_value_digits: "dec_value 0 (dec_digits n) = Some n"
proof (induction n rule: dec_digits.induct)
  case (1 n)
  show ?case
  proof (cases "n < 10")
    case False
    then have "dec_value 0 (dec_digits (n div 10)) = Some (n div 10)" using 1 by blast
    with False show ?thesis by (subst dec_digits.simps) (simp add: dec_value_append)
  qed (subst dec_digits.simps, simp)
qed

lemma ParseUint_FormatUint [simp]: "ParseUint (FormatUint n) = Inr n"
  using unat_u64_less [of n] by (simp add: ParseUint_def FormatUint_def dec_value_digits)

text \<open>An offset set in a header comes back; a header that was not set is an error.\<close>

lemma batchOffset_set [simp]:
  "batchOffset (setBatchOffset h name off) name = Inr off"
  "name \<noteq> name' \<Longrightarrow> batchOffset (setBatchOffset h name' off) name = batchOffset h name"
  by (simp_all add: batchOffset_def setBatchOffset_def header_Set_def)

lemma batchOffset_header_Set: "name \<noteq> name' \<Longrightarrow> batchOffset (header_Set h name' v) name = batchOffset h name"
  by (simp add: batchOffset_def header_Set_def)

lemma batchOffset_none [simp]: "batchOffset no_header name = Inl ErrHeaderCount"
  by (simp add: batchOffset_def no_header_def)

lemma header_offsets_differ [simp]: "HeaderSendOffset \<noteq> HeaderRecvOffset" "HeaderRecvOffset \<noteq> HeaderSendOffset"
  by (simp_all add: header_names)

end
