(* ===== verification/Stream.thy ===== *)
theory Stream
  imports Session Http
begin

text \<open>
  The streamed halves of \<^verbatim>\<open>PollHandler\<close> in \<^verbatim>\<open>handler.go\<close>: \<open>pollStream\<close> and
  \<open>pollStreamResumable\<close> hold a response open and write frames, \<open>pollSendStream\<close> reads frames
  off a request body. The first two wait in every turn; a turn is a record of what the
  environment does in it (the client leaves, other goroutines use the pipe and the layer, the
  clock passes the deadline), and a loop that has used up its turns has not returned. The
  third ends with its body, so it is a total function; \<open>others\<close> is what other goroutines do to
  the session before each frame is handled.

  The lemmas show that a streamed response is exactly the bytes taken from the pipe, framed and
  in order, that a resumable one numbers its frames without a gap or an overlap, that the
  loops return, and that an upload puts into the session exactly the bytes its frames carry.
\<close>

section \<open>The layer of a session\<close>

text \<open>\<^verbatim>\<open>s.rs.recvIn\<close> and \<^verbatim>\<open>s.rs.ack\<close>; \<open>None\<close> is a panic, also that of a nil layer.\<close>

definition rs_recvIn :: "u64 \<Rightarrow> bytes \<Rightarrow> session \<Rightarrow> (error option \<times> session) option" where
  "rs_recvIn off d s =
     (case s_rs s of
        None \<Rightarrow> None
      | Some r \<Rightarrow>
          map_option (\<lambda>(e, r', i, out). (e, s\<lparr>s_rs := Some r', toServer := i, toClient := out\<rparr>))
            (recvIn off d r (toServer s) (toClient s)))"

definition rs_ack :: "u64 \<Rightarrow> session \<Rightarrow> (error option \<times> session) option" where
  "rs_ack n s =
     (case s_rs s of
        None \<Rightarrow> None
      | Some r \<Rightarrow> map_option (\<lambda>(e, r'). (e, s\<lparr>s_rs := Some r'\<rparr>)) (ack n r))"

definition rs_markBroken :: "session \<Rightarrow> session" where
  "rs_markBroken s = s\<lparr>s_rs := map_option markBroken (s_rs s)\<rparr>"

section \<open>The download stream\<close>

text \<open>How the response ended.\<close>

datatype stream_end = CtxDone | SessionGone | WriteFailed | RolledOver | Replaced

text \<open>
  One turn of the plain loop: whether the request's context is done when it starts, what
  happened to the pipe since the last wait, the wait, and whether the deadline has passed.
\<close>

record stream_turn =
  t_ctxDone :: bool
  t_before :: "pipe_event list"
  t_wait :: schedule
  t_late :: bool

fun pollStream_loop :: "nat \<Rightarrow> stream_turn list \<Rightarrow> pipe \<Rightarrow> writer \<Rightarrow> (stream_end \<times> pipe \<times> writer) option" where
  "pollStream_loop cap [] p w = None"
| "pollStream_loop cap (t # ts) p w =
     (let p0 = after (t_before t) p in
      if t_ctxDone t then Some (CtxDone, p0, w)
      else
        (case ReadAvailable cap p0 (t_wait t) of
           None \<Rightarrow> None
         | Some (res, p1, _) \<Rightarrow>
             if res = Inl EOF then Some (SessionGone, p1, snd (writeFrame w frameGone []))
             else
               (case (case res of
                        Inr d \<Rightarrow> if d \<noteq> [] then writeFrame w frameData d else writeFrame w frameHeartbeat []
                      | Inl _ \<Rightarrow> writeFrame w frameHeartbeat []) of
                  (Some _, w1) \<Rightarrow> Some (WriteFailed, p1, w1)
                | (None, w1) \<Rightarrow>
                    if t_late t then Some (RolledOver, p1, snd (writeFrame w1 frameEnd []))
                    else pollStream_loop cap ts p1 w1)))"

text \<open>
  One turn of the resumable loop. The layer is shared with the upload handler, so other
  goroutines change it before the wait, during it, and between it and the acknowledgement;
  \<open>rt_slots\<close> are the attachments when the handler asks whether it is current.
\<close>

record resume_turn =
  rt_ctxDone :: bool
  rt_before :: "reliable \<times> pipe \<Rightarrow> reliable \<times> pipe"
  rt_wait :: schedule
  rt_meanwhile :: "reliable \<Rightarrow> reliable"
  rt_slots :: attachments
  rt_then :: "reliable \<Rightarrow> reliable"
  rt_late :: bool

text \<open>What one turn writes: an acknowledgement that is due, then data or a heartbeat.\<close>

definition write_turn :: "writer \<Rightarrow> u64 option \<Rightarrow> (error + u64 \<times> bytes) \<Rightarrow> error option \<times> writer" where
  "write_turn w due res =
     (case (case due of None \<Rightarrow> (None, w) | Some n \<Rightarrow> writeFrame w frameAck (encodeOffset n)) of
        (Some e, w1) \<Rightarrow> (Some e, w1)
      | (None, w1) \<Rightarrow>
          (case res of
             Inr (off, d) \<Rightarrow> if d \<noteq> [] then writeSeqFrame w1 off d else writeFrame w1 frameHeartbeat []
           | Inl e \<Rightarrow> if e = ErrPipeInterrupted then (None, w1) else writeFrame w1 frameHeartbeat []))"

fun pollStreamResumable :: "nat \<Rightarrow> att \<Rightarrow> resume_turn list \<Rightarrow> reliable \<times> pipe \<Rightarrow> writer
    \<Rightarrow> (stream_end \<times> (reliable \<times> pipe) \<times> writer) outcome" where
  "pollStreamResumable cap att [] st w = Sleeps"
| "pollStreamResumable cap att (t # ts) st w =
     (case rt_before t st of (r0, out0) \<Rightarrow>
       if rt_ctxDone t then Returns (CtxDone, (r0, out0), w)
       else
         (case nextOut cap r0 (rt_meanwhile t) out0 (rt_wait t) of
            Panics \<Rightarrow> Panics
          | Sleeps \<Rightarrow> Sleeps
          | Returns (res, r1, out1) \<Rightarrow>
              if res = Inl EOF then Returns (SessionGone, (r1, out1), snd (writeFrame w frameGone []))
              else if res = Inl ErrPipeInterrupted \<and> \<not> isCurrent att (rt_slots t)
              then Returns (Replaced, (r1, out1), w)
              else
                (case takeAck (rt_then t r1) of (due, r2) \<Rightarrow>
                   (case write_turn w due res of
                      (Some _, w1) \<Rightarrow> Returns (WriteFailed, (r2, out1), w1)
                    | (None, w1) \<Rightarrow>
                        if rt_late t then Returns (RolledOver, (r2, out1), snd (writeFrame w1 frameEnd []))
                        else pollStreamResumable cap att ts (r2, out1) w1))))"

text \<open>
  The handler: whether the response writer can flush, the waits inside \<open>attach\<close>, what happens to
  the session before the loop and while it runs outside the pipe and the layer, and the turns.
\<close>

record stream_env =
  se_flusher :: bool
  se_attach :: "(bool \<times> (attachments \<Rightarrow> attachments)) list"
  se_started :: "session \<Rightarrow> session"
  se_turns :: "stream_turn list"
  se_rturns :: "resume_turn list"
  se_finish :: "session \<Rightarrow> session"
  se_writer :: writer

datatype stream_answer = Refuse nat | Streamed stream_end bytes

definition detach_session :: "att \<Rightarrow> session \<Rightarrow> session" where
  "detach_session att s = s\<lparr>s_att := map_option (detach att) (s_att s)\<rparr>"

definition pollStream :: "nat \<Rightarrow> att \<Rightarrow> stream_env \<Rightarrow> session \<Rightarrow> (stream_answer \<times> session) outcome" where
  "pollStream cap att env s =
     (if \<not> se_flusher env then Returns (Refuse 500, s)
      else if s_rs s = None then
        (let s1 = se_started env s in
         case pollStream_loop cap (se_turns env) (toClient s1) (se_writer env) of
           None \<Rightarrow> Sleeps
         | Some (how, p, w) \<Rightarrow> Returns (Streamed how (w_out w), se_finish env (s1\<lparr>toClient := p\<rparr>)))
      else
        (case s_att s of
           None \<Rightarrow> Panics
         | Some a \<Rightarrow>
             (case attach attachDown att a (se_attach env) of
                None \<Rightarrow> Sleeps
              | Some (Some _, a') \<Rightarrow> Returns (Refuse 503, s\<lparr>s_att := Some a'\<rparr>)
              | Some (None, a') \<Rightarrow>
                  let s1 = se_started env (s\<lparr>s_att := Some a', s_rs := map_option resetAck (s_rs s)\<rparr>) in
                  (case s_rs s1 of
                     None \<Rightarrow> Panics
                   | Some r \<Rightarrow>
                       (case pollStreamResumable cap att (se_rturns env) (r, toClient s1) (se_writer env) of
                          Panics \<Rightarrow> Panics
                        | Sleeps \<Rightarrow> Sleeps
                        | Returns (how, (r', p), w) \<Rightarrow>
                            Returns (Streamed how (w_out w),
                              detach_session att (se_finish env (s1\<lparr>s_rs := Some r', toClient := p\<rparr>))))))))"

section \<open>The upload stream\<close>

text \<open>The switch on the frame's type: go on, or stop with a response or none.\<close>

datatype send_step = GoOn session | Stop "nat option" session

definition send_frame :: "bool \<Rightarrow> bool \<Rightarrow> frameType \<Rightarrow> bytes \<Rightarrow> session \<Rightarrow> send_step option" where
  "send_frame probe resumable typ payload s =
     (if typ = frameData then
        if payload = [] \<or> probe then Some (GoOn s)
        else if resumable then Some (Stop (Some 400) (rs_markBroken s))
        else (case writeUpstream s payload of
                (Inl _, s') \<Rightarrow> Some (Stop (Some 410) s')
              | (Inr _, s') \<Rightarrow> Some (GoOn s'))
      else if typ = frameSeqData then
        if \<not> resumable then Some (Stop (Some 400) s)
        else (case splitSeq payload of
                Inl _ \<Rightarrow> Some (Stop (Some 400) s)
              | Inr (off, d) \<Rightarrow>
                  (case rs_recvIn off d s of
                     None \<Rightarrow> None
                   | Some (None, s') \<Rightarrow> Some (GoOn s')
                   | Some (Some e, s') \<Rightarrow> Some (Stop (Some (if e = ErrClosedPipe then 410 else 400)) s')))
      else if typ = frameAck then
        if \<not> resumable then Some (Stop (Some 400) s)
        else (case decodeAck payload of
                Inl _ \<Rightarrow> Some (Stop (Some 400) s)
              | Inr n \<Rightarrow>
                  (case rs_ack n s of
                     None \<Rightarrow> None
                   | Some (None, s') \<Rightarrow> Some (GoOn s')
                   | Some (Some _, s') \<Rightarrow> Some (Stop (Some 400) s')))
      else if typ = frameHeartbeat then Some (GoOn s)
      else if typ = frameEnd then Some (Stop (Some 200) s)
      else Some (Stop (Some 400) s))"

lemma next_consumes:
  assumes "frameReader_next f = (Inr x, f')"
  shows "length (r_bytes (fr_r f')) < length (r_bytes (fr_r f))"
proof -
  obtain hdr r where h: "ReadFull (fr_r f) frameHeaderLen = (Inr hdr, r)"
    using assms by (auto simp: frameReader_next_def split: sum.splits prod.splits)
  have len: "frameHeaderLen \<le> length (r_bytes (fr_r f))"
    using h ReadFull_short [of "fr_r f" frameHeaderLen] by (cases "length (r_bytes (fr_r f)) < frameHeaderLen") auto
  then have r: "r_bytes r = drop frameHeaderLen (r_bytes (fr_r f))"
    using ReadFull_enough [OF len] h by (metis prod.inject)
  have "length (r_bytes (fr_r f')) \<le> length (r_bytes r)"
  proof (cases "Uint32 (tl hdr) = 0")
    case True
    then have "fr_r f' = r" using assms h by (auto simp: frameReader_next_def Let_def)
    then show ?thesis by simp
  next
    case False
    then obtain payload r' where p: "ReadFull r (unat (Uint32 (tl hdr))) = (Inr payload, r')" "fr_r f' = r'"
      using assms h by (auto simp: frameReader_next_def Let_def split: if_splits sum.splits prod.splits)
    then have "unat (Uint32 (tl hdr)) \<le> length (r_bytes r)"
      using ReadFull_short [of r "unat (Uint32 (tl hdr))"] by (cases "length (r_bytes r) < unat (Uint32 (tl hdr))") auto
    then show ?thesis using ReadFull_enough [of "unat (Uint32 (tl hdr))" r] p by (metis length_drop diff_le_self prod.inject)
  qed
  with len r show ?thesis by simp
qed

function send_loop :: "bool \<Rightarrow> bool \<Rightarrow> (nat \<Rightarrow> session \<Rightarrow> session) \<Rightarrow> nat \<Rightarrow> frameReader \<Rightarrow> session
    \<Rightarrow> (nat option \<times> session) outcome" where
  "send_loop probe resumable others k f s =
     (case frameReader_next f of
        (Inl e, _) \<Rightarrow> Returns (if e = EOF then Some 200 else None, others k s)
      | (Inr (typ, payload), f') \<Rightarrow>
          (case send_frame probe resumable typ payload (others k s) of
             None \<Rightarrow> Panics
           | Some (Stop st s') \<Rightarrow> Returns (st, s')
           | Some (GoOn s') \<Rightarrow> send_loop probe resumable others (Suc k) f' s'))"
  by pat_completeness auto
termination
  by (relation "measure (\<lambda>(_, _, _, _, f, _). length (r_bytes (fr_r f)))") (auto intro: next_consumes [OF sym])

declare send_loop.simps [simp del]

record send_env =
  sn_attach :: "(bool \<times> (attachments \<Rightarrow> attachments)) list"
  sn_others :: "nat \<Rightarrow> session \<Rightarrow> session"

definition pollSendStream :: "ServerConfig \<Rightarrow> request \<Rightarrow> att \<Rightarrow> send_env \<Rightarrow> session \<Rightarrow> (nat option \<times> session) outcome" where
  "pollSendStream cfg rq att env s =
     (let probe = header_true (rq_header rq) HeaderSendStreamProbe;
          resumable = (s_rs s \<noteq> None \<and> \<not> probe);
          f = newFrameReader (rq_body rq) (cfg_MaxSendBytes cfg)
      in if resumable then
           (case s_att s of
              None \<Rightarrow> Panics
            | Some a \<Rightarrow>
                (case attach attachUp att a (sn_attach env) of
                   None \<Rightarrow> Sleeps
                 | Some (Some _, a') \<Rightarrow> Returns (Some 503, s\<lparr>s_att := Some a'\<rparr>)
                 | Some (None, a') \<Rightarrow>
                     (case send_loop probe True (sn_others env) 0 f (s\<lparr>s_att := Some a'\<rparr>) of
                        Panics \<Rightarrow> Panics
                      | Sleeps \<Rightarrow> Sleeps
                      | Returns (st, s') \<Rightarrow> Returns (st, detach_session att s'))))
         else send_loop probe False (sn_others env) 0 f s)"

section \<open>Specification\<close>

text \<open>The payloads of the data frames, and the numbered payloads of the sequenced ones.\<close>

definition data_of :: "(frameType \<times> bytes) list \<Rightarrow> bytes" where
  "data_of fs = concat (map snd (filter (\<lambda>f. fst f = frameData) fs))"

definition seq_of :: "frameType \<times> bytes \<Rightarrow> (u64 \<times> bytes) list" where
  "seq_of f = (if fst f = frameSeqData then (case splitSeq (snd f) of Inl _ \<Rightarrow> [] | Inr x \<Rightarrow> [x]) else [])"

definition seqs_of :: "(frameType \<times> bytes) list \<Rightarrow> (u64 \<times> bytes) list" where
  "seqs_of fs = concat (map seq_of fs)"

text \<open>What other goroutines put into the pipe while the plain loop runs.\<close>

fun stream_in :: "nat \<Rightarrow> stream_turn list \<Rightarrow> pipe \<Rightarrow> bytes" where
  "stream_in cap [] p = []"
| "stream_in cap (t # ts) p =
     written_by (p_closed p) (t_before t) @
     (let p0 = after (t_before t) p in
      if t_ctxDone t then []
      else (case ReadAvailable cap p0 (t_wait t) of
              None \<Rightarrow> []
            | Some (res, p1, sch) \<Rightarrow>
                written_by (p_closed p0) (slept (t_wait t) sch) @
                (if res = Inl EOF \<or> t_late t then [] else stream_in cap ts p1)))"

text \<open>The frames of a response up to its last one, and the last one for each way to end.\<close>

definition body_frame :: "nat \<Rightarrow> frameType \<times> bytes \<Rightarrow> bool" where
  "body_frame cap f \<longleftrightarrow>
     f = (frameHeartbeat, []) \<or> (fst f = frameData \<and> snd f \<noteq> [] \<and> length (snd f) \<le> cap)"

fun last_frame :: "stream_end \<Rightarrow> (frameType \<times> bytes) list" where
  "last_frame SessionGone = [(frameGone, [])]"
| "last_frame RolledOver = [(frameEnd, [])]"
| "last_frame _ = []"

text \<open>
  Numbered chunks one after another from position \<open>n\<close> on: with equality for \<open>R\<close> without a gap
  or an overlap, with \<open>\<le>\<close> without an overlap.
\<close>

fun chain :: "(nat \<Rightarrow> nat \<Rightarrow> bool) \<Rightarrow> nat \<Rightarrow> (u64 \<times> bytes) list \<Rightarrow> bool" where
  "chain R n [] = True"
| "chain R n ((off, d) # xs) = (R n (unat off) \<and> d \<noteq> [] \<and> chain R (unat off + length d) xs)"

text \<open>Where a chain that starts at \<open>n\<close> ends.\<close>

fun chain_end :: "nat \<Rightarrow> (u64 \<times> bytes) list \<Rightarrow> nat" where
  "chain_end n [] = n"
| "chain_end n ((off, d) # xs) = chain_end (unat off + length d) xs"

text \<open>
  Other goroutines that leave the sending side alone but for acknowledgements: the invariant
  and the sent offset stay, the cursor moves as \<open>R\<close> allows.
\<close>

definition leaves_cursor :: "(nat \<Rightarrow> nat \<Rightarrow> bool) \<Rightarrow> (reliable \<Rightarrow> reliable) \<Rightarrow> bool" where
  "leaves_cursor R f \<longleftrightarrow>
     (\<forall>r. rel_inv r \<longrightarrow> rel_inv (f r) \<and> sendOffset (f r) = sendOffset r \<and> R (unat (sentCursor r)) (unat (sentCursor (f r))))"

definition calm_turn :: "(nat \<Rightarrow> nat \<Rightarrow> bool) \<Rightarrow> resume_turn \<Rightarrow> bool" where
  "calm_turn R t \<longleftrightarrow>
     (\<forall>p. leaves_cursor R (\<lambda>r. fst (rt_before t (r, p)))) \<and> leaves_cursor R (rt_meanwhile t) \<and> leaves_cursor R (rt_then t)"

section \<open>Lemmas on the plain stream\<close>

lemma data_of_simps [simp]:
  "data_of [] = []" "data_of (f # fs) = (if fst f = frameData then snd f else []) @ data_of fs"
  "data_of (fs @ gs) = data_of fs @ data_of gs"
  by (simp_all add: data_of_def)

lemma writeFrame_unlimited:
  "w_room w = None \<Longrightarrow> writeFrame w typ d = (None, w\<lparr>w_out := w_out w @ frame_bytes (typ, d)\<rparr>)"
  by (simp add: writeFrame_eq w_write_unlimited)

lemma pollStream_loop_turn:
  assumes "\<not> t_ctxDone t" and "ReadAvailable cap (after (t_before t) p) (t_wait t) = Some (res, p1, sch)"
  shows "pollStream_loop cap (t # ts) p w =
      (if res = Inl EOF then Some (SessionGone, p1, snd (writeFrame w frameGone []))
       else case (case res of
                    Inr d \<Rightarrow> if d \<noteq> [] then writeFrame w frameData d else writeFrame w frameHeartbeat []
                  | Inl _ \<Rightarrow> writeFrame w frameHeartbeat []) of
              (Some _, w1) \<Rightarrow> Some (WriteFailed, p1, w1)
            | (None, w1) \<Rightarrow>
                if t_late t then Some (RolledOver, p1, snd (writeFrame w1 frameEnd []))
                else pollStream_loop cap ts p1 w1)"
    and "stream_in cap (t # ts) p =
      written_by (p_closed p) (t_before t) @ written_by (p_closed (after (t_before t) p)) (slept (t_wait t) sch) @
      (if res = Inl EOF \<or> t_late t then [] else stream_in cap ts p1)"
  using assms by (simp_all only: pollStream_loop.simps stream_in.simps Let_def if_False option.case prod.case)

lemma pollStream_loop_done:
  "t_ctxDone t \<Longrightarrow> pollStream_loop cap (t # ts) p w = Some (CtxDone, after (t_before t) p, w)"
  "t_ctxDone t \<Longrightarrow> stream_in cap (t # ts) p = written_by (p_closed p) (t_before t)"
  "\<not> t_ctxDone t \<Longrightarrow> ReadAvailable cap (after (t_before t) p) (t_wait t) = None \<Longrightarrow> pollStream_loop cap (t # ts) p w = None"
  by simp_all

declare pollStream_loop.simps(2) [simp del] stream_in.simps(2) [simp del]

text \<open>The frame a turn writes, the bytes in it, and that it is a frame a client accepts.\<close>

definition turn_frame :: "error + bytes \<Rightarrow> frameType \<times> bytes" where
  "turn_frame res = (case res of Inr d \<Rightarrow> if d \<noteq> [] then (frameData, d) else (frameHeartbeat, []) | Inl _ \<Rightarrow> (frameHeartbeat, []))"

lemma turn_frame:
  "data_of [turn_frame res] = (case res of Inl _ \<Rightarrow> [] | Inr d \<Rightarrow> d)"
  "(case res of Inr d \<Rightarrow> length d \<le> cap | Inl _ \<Rightarrow> True) \<Longrightarrow> body_frame cap (turn_frame res)"
  "w_room w = None \<Longrightarrow>
     (case res of
        Inr d \<Rightarrow> if d \<noteq> [] then writeFrame w frameData d else writeFrame w frameHeartbeat []
      | Inl _ \<Rightarrow> writeFrame w frameHeartbeat []) = (None, w\<lparr>w_out := w_out w @ frame_bytes (turn_frame res)\<rparr>)"
  subgoal by (simp add: turn_frame_def frame_type_defs split: sum.split)
  subgoal by (simp add: turn_frame_def body_frame_def split: sum.splits)
  subgoal by (simp add: turn_frame_def writeFrame_unlimited split: sum.split)
  done

lemma pollStream_loop_frames:
  assumes "pollStream_loop cap ts p w = Some (how, p', w')" and "w_room w = None"
  shows "\<exists>fs. w_out w' = w_out w @ concat (map frame_bytes (fs @ last_frame how)) \<and> list_all (body_frame cap) fs \<and>
     p_buf p @ stream_in cap ts p = data_of fs @ p_buf p' \<and> how \<in> {CtxDone, SessionGone, RolledOver} \<and>
     (how = SessionGone \<longrightarrow> p_closed p' \<and> p_buf p' = [])"
  using assms
proof (induction ts arbitrary: p w)
  case (Cons t ts)
  define p0 where "p0 = after (t_before t) p"
  have buf0: "p_buf p0 = p_buf p @ written_by (p_closed p) (t_before t)" by (simp add: p0_def)
  show ?case
  proof (cases "t_ctxDone t")
    case True
    note fin = pollStream_loop_done(1,2) [OF True]
    have "how = CtxDone" "p' = p0" "w' = w" using Cons.prems(1) unfolding fin p0_def by simp_all
    then show ?thesis using buf0 by (intro exI [of _ "[]"]) (simp add: fin(2))
  next
    case False
    obtain res p1 sch where ra: "ReadAvailable cap p0 (t_wait t) = Some (res, p1, sch)"
      using Cons.prems(1) pollStream_loop_done(3) [OF False] unfolding p0_def by (metis option.distinct(1) prod_cases3 option.exhaust)
    note sl = ReadAvailable_slept(1) [OF ra]
    note turn = pollStream_loop_turn [OF False, of cap p res p1 sch ts, folded p0_def, OF ra]
    have part: "p_buf p @ written_by (p_closed p) (t_before t) @ written_by (p_closed p0) (slept (t_wait t) sch) =
        data_of [turn_frame res] @ p_buf p1"
      unfolding turn_frame(1) sl [symmetric] buf0 by simp
    show ?thesis
    proof (cases "res = Inl EOF")
      case True
      have "p_closed p1 \<and> p_buf p1 = []" using ra True by (cases rule: ReadAvailable_cases) simp_all
      moreover have "how = SessionGone" "p' = p1" "w' = snd (writeFrame w frameGone [])"
        using turn(1) [of w] Cons.prems(1) True by simp_all
      moreover have "p_buf p @ stream_in cap (t # ts) p = p_buf p1"
        using part unfolding turn(2) turn_frame(1) by (simp add: True)
      ultimately show ?thesis
        using Cons.prems(2) by (intro exI [of _ "[]"]) (simp add: writeFrame_unlimited)
    next
      case no_eof: False
      define w1 where "w1 = w\<lparr>w_out := w_out w @ frame_bytes (turn_frame res)\<rparr>"
      have fok: "body_frame cap (turn_frame res)"
        using ReadAvailable_outcome_length [OF ra] by (intro turn_frame(2)) (simp split: sum.split)
      have room: "w_room w1 = None" using Cons.prems(2) by (simp add: w1_def)
      have run: "pollStream_loop cap (t # ts) p w =
          (if t_late t then Some (RolledOver, p1, snd (writeFrame w1 frameEnd [])) else pollStream_loop cap ts p1 w1)"
        unfolding turn(1) turn_frame(3) [OF Cons.prems(2)] w1_def [symmetric] using no_eof by simp
      show ?thesis
      proof (cases "t_late t")
        case True
        then have out: "how = RolledOver" "p' = p1" "w' = snd (writeFrame w1 frameEnd [])"
          using run Cons.prems(1) by simp_all
        have "p_buf p @ stream_in cap (t # ts) p = data_of [turn_frame res] @ p_buf p1"
          using part unfolding turn(2) by (simp add: True)
        with out fok room show ?thesis
          by (intro exI [of _ "[turn_frame res]"]) (simp add: writeFrame_unlimited w1_def)
      next
        case False
        then have "pollStream_loop cap ts p1 w1 = Some (how, p', w')" using run Cons.prems(1) by simp
        from Cons.IH [OF this room] obtain fs where
          fs: "w_out w' = w_out w1 @ concat (map frame_bytes (fs @ last_frame how))" "list_all (body_frame cap) fs"
            "p_buf p1 @ stream_in cap ts p1 = data_of fs @ p_buf p'" "how \<in> {CtxDone, SessionGone, RolledOver}"
            "how = SessionGone \<longrightarrow> p_closed p' \<and> p_buf p' = []" by blast
        have "p_buf p @ stream_in cap (t # ts) p = (data_of [turn_frame res] @ p_buf p1) @ stream_in cap ts p1"
          unfolding turn(2) part [symmetric] using False no_eof by simp
        also have "\<dots> = data_of (turn_frame res # fs) @ p_buf p'" using fs(3) by simp
        finally show ?thesis using fs fok by (intro exI [of _ "turn_frame res # fs"]) (simp add: w1_def)
      qed
    qed
  qed
qed simp

section \<open>Lemmas on the resumable stream\<close>

lemma seqs_of_simps [simp]: "seqs_of [] = []" "seqs_of (f # fs) = seq_of f @ seqs_of fs" "seqs_of (fs @ gs) = seqs_of fs @ seqs_of gs"
  by (simp_all add: seqs_of_def)

lemma chain_weaken: "chain R n xs \<Longrightarrow> R m n \<Longrightarrow> transp R \<Longrightarrow> chain R m xs"
  by (cases "(R, n, xs)" rule: chain.cases) (auto dest: transpD)

lemma chain_end_weaken: "R (chain_end n xs) k \<Longrightarrow> R m n \<Longrightarrow> transp R \<Longrightarrow> R (chain_end m xs) k"
  by (cases "(n, xs)" rule: chain_end.cases) (auto dest: transpD)

text \<open>The frames a turn writes, and the numbered chunk among them.\<close>

definition turn_frames :: "u64 option \<Rightarrow> (error + u64 \<times> bytes) \<Rightarrow> (frameType \<times> bytes) list" where
  "turn_frames due res =
     (case due of None \<Rightarrow> [] | Some n \<Rightarrow> [(frameAck, encodeOffset n)]) @
     (case res of
        Inr (off, d) \<Rightarrow> if d \<noteq> [] then [(frameSeqData, encodeOffset off @ d)] else [(frameHeartbeat, [])]
      | Inl e \<Rightarrow> if e = ErrPipeInterrupted then [] else [(frameHeartbeat, [])])"

definition turn_chunk :: "error + u64 \<times> bytes \<Rightarrow> (u64 \<times> bytes) list" where
  "turn_chunk res = (case res of Inr (off, d) \<Rightarrow> if d \<noteq> [] then [(off, d)] else [] | Inl _ \<Rightarrow> [])"

lemma splitSeq_encode: "splitSeq (encodeOffset off @ d) = Inr (off, d)"
  by (simp add: splitSeq_def encodeOffset_def be64.enc_length be64.dec_enc)

lemma seqs_of_turn_frames: "seqs_of (turn_frames due res) = turn_chunk res"
  by (auto simp: turn_frames_def turn_chunk_def seq_of_def splitSeq_encode frame_type_defs split: option.split sum.split prod.split)

lemma write_turn_unlimited:
  assumes "w_room w = None"
  shows "write_turn w due res = (None, w\<lparr>w_out := w_out w @ concat (map frame_bytes (turn_frames due res))\<rparr>)"
proof -
  have seq: "w_room v = None \<Longrightarrow> writeSeqFrame v off d = (None, v\<lparr>w_out := w_out v @ frame_bytes (frameSeqData, encodeOffset off @ d)\<rparr>)"
    for v off d by (simp add: writeSeqFrame_eq w_write_unlimited)
  show ?thesis
    using assms by (auto simp: write_turn_def turn_frames_def writeFrame_unlimited seq split: option.split sum.split prod.split)
qed

text \<open>The chunk a call of \<open>nextOut\<close> hands out starts at the cursor, and the cursor moves past it.\<close>

lemma nextOut_chunk:
  assumes "rel_inv r" and "leaves_cursor R meanwhile" and "cap > 0" and "unat (sendOffset r) + cap < 2 ^ 64"
    and "nextOut cap r meanwhile out sch = Returns (res, r', out')" and "reflp R"
  shows "rel_inv r'" and "unat (sendOffset r') \<le> unat (sendOffset r) + cap"
    and "chain R (unat (sentCursor r)) (turn_chunk res)"
    and "R (chain_end (unat (sentCursor r)) (turn_chunk res)) (unat (sentCursor r'))"
proof -
  have m: "rel_inv (meanwhile r)" "sendOffset (meanwhile r) = sendOffset r" "R (unat (sentCursor r)) (unat (sentCursor (meanwhile r)))"
    using assms(1,2) by (simp_all add: leaves_cursor_def)
  have refl: "R n n" for n using assms(6) by (simp add: reflp_def)
  from assms(5,1) have "rel_inv r' \<and> unat (sendOffset r') \<le> unat (sendOffset r) + cap \<and> chain R (unat (sentCursor r)) (turn_chunk res) \<and>
    R (chain_end (unat (sentCursor r)) (turn_chunk res)) (unat (sentCursor r'))"
  proof (cases rule: nextOut_cases)
    case (replays d)
    then show ?thesis using assms(3) by (simp add: turn_chunk_def refl)
  next
    case (idle pres sch')
    then show ?thesis using m by (cases pres) (simp_all add: turn_chunk_def)
  next
    case (numbers off d sch')
    have "unat (sendOffset (meanwhile r)) + length d < 2 ^ 64" using numbers(5) m(2) assms(4) by simp
    note facts = nextOut_number_cases [OF m(1) this numbers(6)]
    show ?thesis using facts(1-3,8) numbers m(2) by (simp add: turn_chunk_def refl)
  qed
  then show "rel_inv r'" "unat (sendOffset r') \<le> unat (sendOffset r) + cap" "chain R (unat (sentCursor r)) (turn_chunk res)"
    "R (chain_end (unat (sentCursor r)) (turn_chunk res)) (unat (sentCursor r'))" by blast+
qed

lemma takeAck_keeps:
  "takeAck r = (due, r') \<Longrightarrow> rel_inv r \<Longrightarrow> rel_inv r' \<and> sendOffset r' = sendOffset r \<and> sentCursor r' = sentCursor r"
  by (auto simp: takeAck_def rel_inv_def split: if_splits)

text \<open>One turn of the loop, once \<open>nextOut\<close> has returned and the turn goes on.\<close>

lemma resumable_turn:
  assumes "rt_before t st = (r0, out0)"
  shows "rt_ctxDone t \<Longrightarrow> pollStreamResumable cap att (t # ts) st w = Returns (CtxDone, (r0, out0), w)"
    and "\<not> rt_ctxDone t \<Longrightarrow> nextOut cap r0 (rt_meanwhile t) out0 (rt_wait t) = Sleeps \<Longrightarrow>
       pollStreamResumable cap att (t # ts) st w = Sleeps"
    and "\<not> rt_ctxDone t \<Longrightarrow> nextOut cap r0 (rt_meanwhile t) out0 (rt_wait t) = Returns (res, r1, out1) \<Longrightarrow>
       pollStreamResumable cap att (t # ts) st w =
       (if res = Inl EOF then Returns (SessionGone, (r1, out1), snd (writeFrame w frameGone []))
        else if res = Inl ErrPipeInterrupted \<and> \<not> isCurrent att (rt_slots t) then Returns (Replaced, (r1, out1), w)
        else case write_turn w (fst (takeAck (rt_then t r1))) res of
               (Some _, w1) \<Rightarrow> Returns (WriteFailed, (snd (takeAck (rt_then t r1)), out1), w1)
             | (None, w1) \<Rightarrow>
                 if rt_late t then Returns (RolledOver, (snd (takeAck (rt_then t r1)), out1), snd (writeFrame w1 frameEnd []))
                 else pollStreamResumable cap att ts (snd (takeAck (rt_then t r1)), out1) w1)"
  using assms by (simp_all add: case_prod_beta)

declare pollStreamResumable.simps(2) [simp del]

text \<open>
  One turn of a numbered loop up to its write: the wait of \<open>nextOut\<close> goes on, or it returns with a
  chunk that continues the numbering, and the layer stays good until the acknowledgement is taken.
\<close>

lemma numbered_turn:
  assumes "rel_inv r" and "calm_turn R t" and "cap > 0" and "unat (sendOffset r) + cap < 2 ^ 64"
    and "reflp R" and "transp R" and "rt_before t (r, out) = (r0, out0)"
  obtains (sleeps) "nextOut cap r0 (rt_meanwhile t) out0 (rt_wait t) = Sleeps"
  | (got) res r1 out1 where "nextOut cap r0 (rt_meanwhile t) out0 (rt_wait t) = Returns (res, r1, out1)"
      "rel_inv r1" "unat (sendOffset r1) \<le> unat (sendOffset r) + cap"
      "turn_chunk res = [] \<longrightarrow> R (unat (sentCursor r)) (unat (sentCursor r1))"
      "rel_inv (snd (takeAck (rt_then t r1)))" "sendOffset (snd (takeAck (rt_then t r1))) = sendOffset r1"
      "chain R (unat (sentCursor r)) (turn_chunk res)"
      "R (chain_end (unat (sentCursor r)) (turn_chunk res)) (unat (sentCursor (snd (takeAck (rt_then t r1)))))"
proof -
  have "leaves_cursor R (\<lambda>r. fst (rt_before t (r, out)))" using assms(2) by (simp add: calm_turn_def)
  then have b: "rel_inv r0" "sendOffset r0 = sendOffset r" "R (unat (sentCursor r)) (unat (sentCursor r0))"
    using assms(1,7) by (simp_all add: leaves_cursor_def) (metis fst_conv)+
  have lm: "leaves_cursor R (rt_meanwhile t)" "leaves_cursor R (rt_then t)" using assms(2) by (simp_all add: calm_turn_def)
  then have m: "rel_inv (rt_meanwhile t r0)" "unat (sendOffset (rt_meanwhile t r0)) + cap < 2 ^ 64"
    using b assms(4) by (simp_all add: leaves_cursor_def)
  show thesis
  proof (cases "nextOut cap r0 (rt_meanwhile t) out0 (rt_wait t)")
    case Panics
    then show ?thesis using nextOut_safe [OF b(1)] by blast
  next
    case (Returns x)
    obtain res r1 out1 where x: "x = (res, r1, out1)" by (cases x) auto
    have b4: "unat (sendOffset r0) + cap < 2 ^ 64" using assms(4) b(2) by simp
    note chunk = nextOut_chunk [OF b(1) lm(1) assms(3) b4 Returns [unfolded x] assms(5)]
    have then': "rel_inv (rt_then t r1)" "sendOffset (rt_then t r1) = sendOffset r1"
        "R (unat (sentCursor r1)) (unat (sentCursor (rt_then t r1)))"
      using lm(2) chunk(1) by (simp_all add: leaves_cursor_def)
    define r2 where "r2 = snd (takeAck (rt_then t r1))"
    have r2: "rel_inv r2" "sendOffset r2 = sendOffset r1" "sentCursor r2 = sentCursor (rt_then t r1)"
      using takeAck_keeps [of "rt_then t r1" "fst (takeAck (rt_then t r1))" r2] then' by (simp_all add: r2_def)
    show ?thesis
    proof (rule got [OF Returns [unfolded x], folded r2_def])
      show "turn_chunk res = [] \<longrightarrow> R (unat (sentCursor r)) (unat (sentCursor r1))"
        using chunk(4) b(3) assms(6) by (auto dest: transpD)
      show "chain R (unat (sentCursor r)) (turn_chunk res)" using chain_weaken [OF chunk(3) b(3) assms(6)] .
      show "R (chain_end (unat (sentCursor r)) (turn_chunk res)) (unat (sentCursor r2))"
        using chain_end_weaken [OF chunk(4) b(3) assms(6)] then'(3) r2(3) assms(6) by (auto dest: transpD)
    qed (use chunk(1,2) b(2) r2 in simp_all)
  qed (rule sleeps)
qed

text \<open>What every turn that starts in a good state does: it never panics, and it keeps the state good.\<close>

lemma resumable_turn_cases:
  assumes "rel_inv r" and "calm_turn R t" and "cap > 0" and "unat (sendOffset r) + cap < 2 ^ 64"
    and "reflp R" and "transp R"
  obtains (sleeps) "pollStreamResumable cap att (t # ts) (r, out) w = Sleeps"
  | (leaves) how r' out' w' where "pollStreamResumable cap att (t # ts) (r, out) w = Returns (how, (r', out'), w')"
      "how \<in> {CtxDone, SessionGone, Replaced}" "rel_inv r'" "R (unat (sentCursor r)) (unat (sentCursor r'))"
      "w_room w = None \<longrightarrow> w_out w' = w_out w @ concat (map frame_bytes (last_frame how))"
      "unat (sendOffset r') \<le> unat (sendOffset r) + cap"
  | (fails) r' out' w' where "pollStreamResumable cap att (t # ts) (r, out) w = Returns (WriteFailed, (r', out'), w')"
      "rel_inv r'" "w_room w \<noteq> None" "unat (sendOffset r') \<le> unat (sendOffset r) + cap"
  | (writes) due res r' out' w1 where "chain R (unat (sentCursor r)) (turn_chunk res)"
      "R (chain_end (unat (sentCursor r)) (turn_chunk res)) (unat (sentCursor r'))" "rel_inv r'"
      "unat (sendOffset r') \<le> unat (sendOffset r) + cap"
      "w_room w = None \<longrightarrow> w1 = w\<lparr>w_out := w_out w @ concat (map frame_bytes (turn_frames due res))\<rparr>"
      "pollStreamResumable cap att (t # ts) (r, out) w =
         (if rt_late t then Returns (RolledOver, (r', out'), snd (writeFrame w1 frameEnd []))
          else pollStreamResumable cap att ts (r', out') w1)"
proof -
  obtain r0 out0 where before: "rt_before t (r, out) = (r0, out0)" by fastforce
  note turn = resumable_turn [OF before, where cap = cap and att = att and ts = ts and w = w]
  have "leaves_cursor R (\<lambda>r. fst (rt_before t (r, out)))" using assms(2) by (simp add: calm_turn_def)
  then have b: "rel_inv r0" "sendOffset r0 = sendOffset r" "R (unat (sentCursor r)) (unat (sentCursor r0))"
    using assms(1) before by (simp_all add: leaves_cursor_def) (metis fst_conv)+
  show thesis
  proof (cases "rt_ctxDone t")
    case True
    then show ?thesis using turn(1) b by (intro leaves [of CtxDone r0 out0 w]) simp_all
  next
    case go: False
    from assms before show ?thesis
    proof (cases rule: numbered_turn)
      case (got res r1 out1)
      note run = turn(3) [OF go got(1)]
      define r2 where "r2 = snd (takeAck (rt_then t r1))"
      define due where "due = fst (takeAck (rt_then t r1))"
      note r2 = got(5-8) [folded r2_def]
      consider (eof) "res = Inl EOF" | (replaced) "res = Inl ErrPipeInterrupted" "\<not> isCurrent att (rt_slots t)"
        | (on) "res \<noteq> Inl EOF" "\<not> (res = Inl ErrPipeInterrupted \<and> \<not> isCurrent att (rt_slots t))" by blast
      then show ?thesis
      proof cases
        case eof
        then have "turn_chunk res = []" by (simp add: turn_chunk_def)
        then show ?thesis using run eof got(2-4)
          by (intro leaves [of SessionGone r1 out1 "snd (writeFrame w frameGone [])"]) (simp_all add: writeFrame_unlimited)
      next
        case replaced
        then have "turn_chunk res = []" by (simp add: turn_chunk_def)
        then show ?thesis using run replaced got(2-4) by (intro leaves [of Replaced r1 out1 w]) simp_all
      next
        case on
        obtain e w1 where wt: "write_turn w due res = (e, w1)" by (cases "write_turn w due res")
        have run2: "pollStreamResumable cap att (t # ts) (r, out) w =
            (case e of Some _ \<Rightarrow> Returns (WriteFailed, (r2, out1), w1)
             | None \<Rightarrow> if rt_late t then Returns (RolledOver, (r2, out1), snd (writeFrame w1 frameEnd []))
                 else pollStreamResumable cap att ts (r2, out1) w1)"
          unfolding run due_def [symmetric] r2_def [symmetric] wt using on by (auto split: option.split)
        show ?thesis
        proof (cases e)
          case None
          then show ?thesis using wt write_turn_unlimited [of w due res] r2 got(3) run2
            by (intro writes [of res r2 w1 due out1]) simp_all
        next
          case (Some x)
          then have "w_room w \<noteq> None" using wt write_turn_unlimited [of w due res] by auto
          then show ?thesis using run2 Some r2 got(3) by (intro fails [of r2 out1 w1]) simp_all
        qed
      qed
    qed (use turn(2) go in \<open>intro sleeps\<close>)
  qed
qed

lemma chain_append: "chain R n (xs @ ys) \<longleftrightarrow> chain R n xs \<and> chain R (chain_end n xs) ys"
  by (induction R n xs rule: chain.induct) auto

lemma chain_end_append [simp]: "chain_end n (xs @ ys) = chain_end (chain_end n xs) ys"
  by (induction n xs rule: chain_end.induct) auto

lemma resumable_no_panic:
  assumes "rel_inv r" and "\<forall>t \<in> set ts. calm_turn R t" and "cap > 0"
    and "unat (sendOffset r) + length ts * cap < 2 ^ 64" and "reflp R" and "transp R"
  shows "pollStreamResumable cap att ts (r, out) w \<noteq> Panics"
  using assms(1,2,4)
proof (induction ts arbitrary: r out w)
  case (Cons t ts)
  have calm: "calm_turn R t" and small: "unat (sendOffset r) + cap < 2 ^ 64" using Cons.prems by simp_all
  from Cons.prems(1) calm assms(3) small assms(5,6) show ?case
  proof (cases rule: resumable_turn_cases [where ts = ts and out = out and w = w and att = att])
    case (writes due res r' out' w1)
    have "unat (sendOffset r') + length ts * cap < 2 ^ 64" using writes(4) Cons.prems(3) by simp
    with Cons.IH [OF writes(3)] Cons.prems(2) writes(6) show ?thesis by simp
  qed simp_all
qed simp

lemma resumable_frames:
  assumes "pollStreamResumable cap att ts (r, out) w = Returns (how, (r', out'), w')" and "w_room w = None"
    and "rel_inv r" and "\<forall>t \<in> set ts. calm_turn R t" and "unat (sendOffset r) + length ts * cap < 2 ^ 64"
    and "cap > 0" and "reflp R" and "transp R"
  shows "\<exists>fs. w_out w' = w_out w @ concat (map frame_bytes (fs @ last_frame how)) \<and> how \<noteq> WriteFailed \<and> rel_inv r' \<and>
     chain R (unat (sentCursor r)) (seqs_of fs) \<and> R (chain_end (unat (sentCursor r)) (seqs_of fs)) (unat (sentCursor r'))"
  using assms(1-5)
proof (induction ts arbitrary: r out w)
  case (Cons t ts)
  have calm: "calm_turn R t" and small: "unat (sendOffset r) + cap < 2 ^ 64" using Cons.prems by simp_all
  from Cons.prems(3) calm assms(6) small assms(7,8) show ?case
  proof (cases rule: resumable_turn_cases [where ts = ts and out = out and w = w and att = att])
    case (writes due res r1 out1 w1)
    have w1: "w1 = w\<lparr>w_out := w_out w @ concat (map frame_bytes (turn_frames due res))\<rparr>" using writes(5) Cons.prems(2) by simp
    then have room: "w_room w1 = None" using Cons.prems(2) by simp
    show ?thesis
    proof (cases "rt_late t")
      case True
      then have "how = RolledOver" "r' = r1" "w' = snd (writeFrame w1 frameEnd [])" using writes(6) Cons.prems(1) by simp_all
      then show ?thesis using writes(1-3) room
        by (intro exI [of _ "turn_frames due res"]) (simp add: writeFrame_unlimited w1 seqs_of_turn_frames)
    next
      case False
      then have "pollStreamResumable cap att ts (r1, out1) w1 = Returns (how, (r', out'), w')" using writes(6) Cons.prems(1) by simp
      moreover have "unat (sendOffset r1) + length ts * cap < 2 ^ 64" using writes(4) Cons.prems(5) by simp
      ultimately obtain fs where fs: "w_out w' = w_out w1 @ concat (map frame_bytes (fs @ last_frame how))" "how \<noteq> WriteFailed"
          "rel_inv r'" "chain R (unat (sentCursor r1)) (seqs_of fs)" "R (chain_end (unat (sentCursor r1)) (seqs_of fs)) (unat (sentCursor r'))"
        using Cons.IH [OF _ room writes(3)] Cons.prems(4) by auto
      note weak = chain_weaken [OF fs(4) writes(2) assms(8)] chain_end_weaken [OF fs(5) writes(2) assms(8)]
      show ?thesis
        by (rule exI [of _ "turn_frames due res @ fs"])
          (use fs(1-3) weak writes(1) in \<open>simp add: w1 seqs_of_turn_frames chain_append\<close>)
    qed
  next
    case (leaves how' r1 out1 w1)
    then have "how = how'" "r' = r1" "w' = w1" using Cons.prems(1) by simp_all
    then show ?thesis using leaves(2-5) Cons.prems(2) by (intro exI [of _ "[]"]) auto
  qed (use Cons.prems in simp_all)
qed simp

section \<open>Lemmas on uploads\<close>

text \<open>
  What others may do to a session during an upload: not touch what has been received. A
  resumable session keeps its layer, and the layer its invariant and its received offset.
\<close>

definition keeps_received :: "(session \<Rightarrow> session) \<Rightarrow> bool" where
  "keeps_received f \<longleftrightarrow>
     (\<forall>s. toServer (f s) = toServer s \<and>
       (\<forall>r. s_rs s = Some r \<longrightarrow> rel_inv r \<longrightarrow> (\<exists>r'. s_rs (f s) = Some r' \<and> rel_inv r' \<and> recvOffset r' = recvOffset r)))"

text \<open>The chunks are parts of one stream \<open>str\<close> of bytes, each at its own position.\<close>

definition chunks_of :: "bytes \<Rightarrow> (u64 \<times> bytes) list \<Rightarrow> bool" where
  "chunks_of str xs \<longleftrightarrow>
     length str < 2 ^ 64 \<and> (\<forall>(off, d) \<in> set xs. unat off + length d \<le> length str \<and> d = segment str (unat off) (length d))"

text \<open>The session has received \<open>d\<close>, the bytes of \<open>str\<close> that follow what it had.\<close>

definition received :: "bytes \<Rightarrow> session \<Rightarrow> session \<Rightarrow> bytes \<Rightarrow> bool" where
  "received str s s' d \<longleftrightarrow>
     p_buf (toServer s') = p_buf (toServer s) @ d \<and>
     (\<exists>r r'. s_rs s = Some r \<and> s_rs s' = Some r' \<and> rel_inv r' \<and> unat (recvOffset r') = unat (recvOffset r) + length d \<and>
        d = segment str (unat (recvOffset r)) (length d) \<and> unat (recvOffset r) + length d \<le> max (unat (recvOffset r)) (length str))"

lemma segment_append: "segment str a n @ segment str (a + n) m = segment str a (n + m)"
  using take_add [of n m "drop a str"] by (simp add: segment_def add.commute)

lemma received_refl: "s_rs s = Some r \<Longrightarrow> rel_inv r \<Longrightarrow> received str s s []"
  by (simp add: received_def segment_def)

lemma received_trans:
  assumes "received str s s1 d" and "received str s1 s2 e"
  shows "received str s s2 (d @ e)"
proof -
  obtain r r1 r2 where s: "s_rs s = Some r" "s_rs s1 = Some r1" "s_rs s2 = Some r2" "rel_inv r2"
    and o1: "unat (recvOffset r1) = unat (recvOffset r) + length d" "d = segment str (unat (recvOffset r)) (length d)"
      "unat (recvOffset r) + length d \<le> max (unat (recvOffset r)) (length str)"
    and o2: "unat (recvOffset r2) = unat (recvOffset r1) + length e" "e = segment str (unat (recvOffset r1)) (length e)"
      "unat (recvOffset r1) + length e \<le> max (unat (recvOffset r1)) (length str)"
    using assms by (auto simp: received_def)
  have "d @ e = segment str (unat (recvOffset r)) (length (d @ e))"
    using o1(1,2) o2(2) segment_append [of str "unat (recvOffset r)" "length d" "length e"] by (metis length_append)
  moreover have "unat (recvOffset r) + length (d @ e) \<le> max (unat (recvOffset r)) (length str)"
    using o1 o2 by auto
  moreover have "p_buf (toServer s2) = p_buf (toServer s) @ (d @ e)" using assms by (simp add: received_def)
  moreover have "unat (recvOffset r2) = unat (recvOffset r) + length (d @ e)" using o1(1) o2(1) by simp
  ultimately show ?thesis using s(1,3,4) unfolding received_def by blast
qed

lemma received_others:
  assumes "keeps_received f" and "s_rs s = Some r" and "rel_inv r"
  shows "received str s (f s) []"
  using assms by (fastforce simp: keeps_received_def received_def segment_def)

lemma rs_recvIn_received:
  assumes "s_rs s = Some r" and "rel_inv r" and "chunks_of str [(off, p)]"
  obtains e s' d where "rs_recvIn off p s = Some (e, s')" and "received str s s' d"
    and "e = None \<and> (\<exists>r'. s_rs s' = Some r' \<and> unat off + length p \<le> unat (recvOffset r')) \<or>
      e = Some ErrReplayGap \<and> off > recvOffset r \<or> e = Some ErrClosedPipe \<and> p_closed (toServer s)"
proof -
  have len: "unat off + length p \<le> length str" "length str < 2 ^ 64" "p = segment str (unat off) (length p)"
    using assms(3) by (auto simp: chunks_of_def)
  then have "length p < 2 ^ 64" by simp
  then show thesis
  proof (cases rule: recvIn_cases [where p = p and r = r and off = off and inp = "toServer s" and out = "toClient s"])
    case gap
    then have "rs_recvIn off p s = Some (Some ErrReplayGap, s\<lparr>s_rs := Some (markBrokenLocked r)\<rparr>)"
      using assms(1) by (simp add: rs_recvIn_def)
    moreover have "received str s (s\<lparr>s_rs := Some (markBrokenLocked r)\<rparr>) []"
      using assms rel_inv_markBroken by (simp add: received_def segment_def)
    ultimately show ?thesis using gap(1) that by blast
  next
    case dup
    then have "rs_recvIn off p s = Some (None, s\<lparr>s_rs := Some r\<rparr>)" using assms(1) by (simp add: rs_recvIn_def)
    moreover have "received str s (s\<lparr>s_rs := Some r\<rparr>) []" using assms by (simp add: received_def segment_def)
    moreover have "unat off + length p \<le> unat (recvOffset r)"
      using dup(2) unat_add_u64 [of off "length p"] len(1,2) by (simp add: word_le_nat_alt)
    ultimately show ?thesis using that [of None "s\<lparr>s_rs := Some r\<rparr>"] by simp
  next
    case closed
    then have "rs_recvIn off p s = Some (Some ErrClosedPipe, s\<lparr>s_rs := Some r\<rparr>)" using assms(1) by (simp add: rs_recvIn_def)
    moreover have "received str s (s\<lparr>s_rs := Some r\<rparr>) []" using assms by (simp add: received_def segment_def)
    ultimately show ?thesis using closed(2) that by blast
  next
    case (extends k out')
    let ?r = "r\<lparr>recvOffset := recvOffset r + of_nat (length p - k)\<rparr>"
    let ?s = "s\<lparr>s_rs := Some ?r, toServer := snd (snd (Write (toServer s) (drop k p))), toClient := out'\<rparr>"
    have off: "unat off + k = unat (recvOffset r)" using extends(1,3) by (simp add: word_le_nat_alt)
    have new: "unat (recvOffset r + of_nat (length p - k)) = unat (recvOffset r) + (length p - k)"
      by (rule unat_add_u64) (use extends(4,5) off in linarith)
    have d: "drop k p = segment str (unat (recvOffset r)) (length p - k)"
      using len(3) off by (metis drop_segment)
    have inv: "rel_inv ?r" using assms(2) new by (simp add: rel_inv_nat del: of_nat_diff)
    have "rs_recvIn off p s = Some (None, ?s)" using assms(1) extends(6) by (simp add: rs_recvIn_def del: of_nat_diff)
    moreover have "received str s ?s (drop k p)"
      unfolding received_def
    proof (intro conjI exI)
      show "p_buf (toServer ?s) = p_buf (toServer s) @ drop k p" using extends(2) by (simp add: Write_buf)
      show "s_rs s = Some r" "s_rs ?s = Some ?r" using assms(1) by simp_all
      show "rel_inv ?r" by (rule inv)
      show "unat (recvOffset ?r) = unat (recvOffset r) + length (drop k p)" using new by (simp del: of_nat_diff)
      show "drop k p = segment str (unat (recvOffset r)) (length (drop k p))" using d by (metis length_drop)
      show "unat (recvOffset r) + length (drop k p) \<le> max (unat (recvOffset r)) (length str)"
        using off len(1) extends(4) by simp
    qed
    moreover have "unat off + length p \<le> unat (recvOffset ?r)" using new off extends(4) by (simp del: of_nat_diff)
    ultimately show ?thesis using that [of None ?s] by simp
  qed
qed

lemma rs_ack_received:
  assumes "s_rs s = Some r" and "rel_inv r"
  obtains e s' where "rs_ack n s = Some (e, s')" and "received str s s' []"
proof -
  obtain e r' where a: "ack n r = Some (e, r')" by (cases rule: ack_cases [OF assms(2), of n]) auto
  have "\<exists>r'. run_op (OpAck n) r = Some r' \<and> rel_inv r'"
    using run_op_inv [OF assms(2), of "OpAck n"] unat_u64_less [of "sendOffset r"] unat_u64_less [of "recvOffset r"] by auto
  then have inv: "rel_inv r'" using a by simp
  have "recvOffset r' = recvOffset r"
    by (cases rule: ack_cases [OF assms(2), of n]) (use a in auto)
  then have "received str s (s\<lparr>s_rs := Some r'\<rparr>) []" using assms(1) inv by (simp add: received_def segment_def)
  moreover have "rs_ack n s = Some (e, s\<lparr>s_rs := Some r'\<rparr>)" using assms(1) a by (simp add: rs_ack_def)
  ultimately show thesis using that by blast
qed

lemma rs_markBroken_received:
  "s_rs s = Some r \<Longrightarrow> rel_inv r \<Longrightarrow> received str s (rs_markBroken s) []"
  by (simp add: received_def rs_markBroken_def markBroken_def rel_inv_markBroken segment_def)

lemma send_frame_received:
  assumes "s_rs s = Some r" and "rel_inv r" and "chunks_of str (seq_of (typ, payload))"
  obtains s' d where "send_frame False True typ payload s = Some (GoOn s')" and "received str s s' d"
  | st s' d where "send_frame False True typ payload s = Some (Stop st s')" and "received str s s' d"
proof -
  note defs = frame_types_distinct send_frame_def
  note stay = received_refl [OF assms(1,2), of str]
  consider (data) "typ = frameData" | (seq) "typ = frameSeqData" | (ackn) "typ = frameAck"
    | (other) "typ \<noteq> frameData" "typ \<noteq> frameSeqData" "typ \<noteq> frameAck" by blast
  then show thesis
  proof cases
    case data
    then show ?thesis
      using that stay rs_markBroken_received [OF assms(1,2), of str] by (cases "payload = []") (auto simp: send_frame_def)
  next
    case seq
    then have ne: "typ \<noteq> frameData" by (simp add: frame_type_defs)
    show ?thesis
    proof (cases "splitSeq payload")
      case (Inl e)
      then show ?thesis using that(2) stay ne seq by (simp add: send_frame_def)
    next
      case (Inr x)
      obtain off p where x: "x = (off, p)" by (cases x)
      have "chunks_of str [(off, p)]" using assms(3) seq Inr x by (simp add: seq_of_def)
      then obtain e s' d where "rs_recvIn off p s = Some (e, s')" "received str s s' d"
        using rs_recvIn_received [OF assms(1,2)] by blast
      then show ?thesis using that ne seq Inr x by (cases e) (auto simp: send_frame_def)
    qed
  next
    case ackn
    then have ne: "typ \<noteq> frameData" "typ \<noteq> frameSeqData" by (simp_all add: frame_type_defs)
    show ?thesis
    proof (cases "decodeAck payload")
      case (Inl e)
      then show ?thesis using that(2) stay ne ackn by (simp add: send_frame_def)
    next
      case (Inr n)
      obtain e s' where "rs_ack n s = Some (e, s')" "received str s s' []"
        using rs_ack_received [OF assms(1,2)] by blast
      then show ?thesis using that ne ackn Inr by (cases e) (auto simp: send_frame_def)
    qed
  next
    case other
    then have "send_frame False True typ payload s = Some (GoOn s) \<or> (\<exists>st. send_frame False True typ payload s = Some (Stop st s))"
      by (simp add: send_frame_def)
    then show ?thesis using that stay by blast
  qed
qed

lemma received_layer: "received str s s' d \<Longrightarrow> \<exists>r. s_rs s' = Some r \<and> rel_inv r"
  by (auto simp: received_def)

lemma chunks_of_append: "chunks_of str (xs @ ys) \<longleftrightarrow> chunks_of str xs \<and> chunks_of str ys"
  by (auto simp: chunks_of_def)

lemma send_loop_received:
  assumes "\<forall>k. keeps_received (others k)" and "\<forall>n. chunks_of str (seqs_of (fst (read_frames n f)))"
    and "s_rs s = Some r" and "rel_inv r"
  shows "\<exists>st s' d. send_loop False True others k f s = Returns (st, s') \<and> received str s s' d"
  using assms(2-4)
proof (induction "length (r_bytes (fr_r f))" arbitrary: k f s r rule: less_induct)
  case less
  note first = received_others [OF assms(1) [rule_format, of k] less.prems(2,3), of str]
  obtain r0 where r0: "s_rs (others k s) = Some r0" "rel_inv r0" using received_layer [OF first] by blast
  obtain res f' where fr: "frameReader_next f = (res, f')" by (cases "frameReader_next f")
  show ?case
  proof (cases res)
    case (Inl e)
    then show ?thesis using first fr by (subst send_loop.simps) auto
  next
    case (Inr x)
    obtain ty payload where x: "x = (ty, payload)" by (cases x)
    have here: "chunks_of str (seq_of (ty, payload))" and rest: "\<forall>n. chunks_of str (seqs_of (fst (read_frames n f')))"
    proof -
      have "fst (read_frames (Suc n) f) = (ty, payload) # fst (read_frames n f')" for n
        using fr Inr x by (simp add: case_prod_beta)
      then have "chunks_of str (seq_of (ty, payload) @ seqs_of (fst (read_frames n f')))" for n
        using less.prems(1) by (metis seqs_of_simps(2))
      then show "chunks_of str (seq_of (ty, payload))" "\<forall>n. chunks_of str (seqs_of (fst (read_frames n f')))"
        by (simp_all add: chunks_of_append)
    qed
    from r0 here show ?thesis
    proof (cases rule: send_frame_received)
      case (1 s1 d)
      obtain r1 where r1: "s_rs s1 = Some r1" "rel_inv r1" using received_layer [OF 1(2)] by blast
      obtain st s' e where go: "send_loop False True others (Suc k) f' s1 = Returns (st, s')" "received str s1 s' e"
        using less.hyps [OF next_consumes [OF fr [unfolded Inr]] rest r1] by blast
      have "send_loop False True others k f s = Returns (st, s')"
        using fr Inr x 1(1) go(1) by (subst send_loop.simps) simp
      with received_trans [OF received_trans [OF first 1(2)] go(2)] show ?thesis by blast
    next
      case (2 st s1 d)
      have "send_loop False True others k f s = Returns (st, s1)"
        using fr Inr x 2(1) by (subst send_loop.simps) simp
      with received_trans [OF first 2(2)] show ?thesis by blast
    qed
  qed
qed

lemma send_loop_plain:
  assumes "\<forall>k s. toServer (others k s) = toServer s" and "\<not> p_closed (toServer s)"
    and "r_bytes (fr_r f) = concat (map frame_bytes (xs @ tail))" and "list_all (frame_ok (fr_maxPayload f)) (xs @ tail)"
    and "\<forall>x \<in> set xs. fst x = frameData \<or> fst x = frameHeartbeat" and "tail = [] \<and> r_end (fr_r f) = EOF \<or> tail = [(frameEnd, [])]"
  shows "\<exists>s'. send_loop False False others k f s = Returns (Some 200, s') \<and> p_buf (toServer s') = p_buf (toServer s) @ data_of xs"
  using assms(2-6)
proof (induction xs arbitrary: k f s)
  case Nil
  show ?case
  proof (cases "tail = []")
    case True
    then obtain f' where "frameReader_next f = (Inl EOF, f')" using next_at_end [of f] Nil.prems(2,5) by auto
    then show ?thesis using assms(1) by (subst send_loop.simps) simp
  next
    case False
    then have "tail = [(frameEnd, [])]" using Nil.prems(5) by blast
    then obtain f' where "frameReader_next f = (Inr (frameEnd, []), f')"
      using next_frame [of f "(frameEnd, [])" "[]"] Nil.prems(2,3) by auto
    then show ?thesis using assms(1) by (subst send_loop.simps) (simp add: send_frame_def frame_type_defs)
  qed
next
  case (Cons x xs)
  obtain f' where f': "frameReader_next f = (Inr x, f')" "r_bytes (fr_r f') = concat (map frame_bytes (xs @ tail))"
      "r_end (fr_r f') = r_end (fr_r f)" "fr_maxPayload f' = fr_maxPayload f"
    using next_frame [of f x "concat (map frame_bytes (xs @ tail))"] Cons.prems(2,3) by auto
  obtain ty payload where x: "x = (ty, payload)" by (cases x)
  have "\<exists>s1. send_frame False False ty payload (others k s) = Some (GoOn s1) \<and> \<not> p_closed (toServer s1) \<and>
      p_buf (toServer s1) = p_buf (toServer s) @ data_of [x]"
  proof (cases "ty = frameData \<and> payload \<noteq> []")
    case True
    obtain n l p where w: "Write (toServer s) payload = (Inr n, l, p)"
      using Cons.prems(1) Write_result [of "toServer s" payload] by (cases "Write (toServer s) payload") auto
    have "p_buf p = p_buf (toServer s) @ payload" "\<not> p_closed p"
      using Write_buf [of "toServer s" payload] Write_frame(1) [of "toServer s" payload] Cons.prems(1) w by simp_all
    moreover have "send_frame False False ty payload (others k s) = Some (GoOn ((others k s)\<lparr>toServer := p\<rparr>))"
      using True w assms(1) by (simp add: send_frame_def writeUpstream_def)
    ultimately show ?thesis using True x by simp
  next
    case False
    then have "send_frame False False ty payload (others k s) = Some (GoOn (others k s))"
      using Cons.prems(4) x by (auto simp: send_frame_def frame_type_defs)
    moreover have "data_of [x] = []" using False x by auto
    ultimately show ?thesis using Cons.prems(1) assms(1) by simp
  qed
  then obtain s1 where s1: "send_frame False False ty payload (others k s) = Some (GoOn s1)" "\<not> p_closed (toServer s1)"
      "p_buf (toServer s1) = p_buf (toServer s) @ data_of [x]" by blast
  have "\<exists>s'. send_loop False False others (Suc k) f' s1 = Returns (Some 200, s') \<and> p_buf (toServer s') = p_buf (toServer s1) @ data_of xs"
    by (rule Cons.IH) (use s1(2) f' Cons.prems in simp_all)
  moreover have "send_loop False False others k f s = send_loop False False others (Suc k) f' s1"
    using f'(1) s1(1) x by (subst send_loop.simps) simp
  ultimately show ?case using s1(3) by (auto simp: data_of_def)
qed

lemma body_frames_ok:
  assumes "list_all (body_frame cap) fs" and "cap < 2 ^ 32" and "int cap \<le> m"
  shows "list_all (frame_ok m) (fs @ last_frame how)"
proof -
  have "frame_ok m f" if "body_frame cap f" for f
    using that assms(2,3) by (auto simp: body_frame_def frame_ok_def payload_bound_def frame_type_defs)
  then have "list_all (frame_ok m) fs" using assms(1) by (auto simp: list_all_iff)
  moreover have "list_all (frame_ok m) (last_frame how)" by (cases how) (simp_all add: frame_ok_def)
  ultimately show ?thesis by simp
qed

text \<open>A client that reads a complete response sees exactly the frames in it.\<close>

lemma frames_read:
  assumes "list_all (frame_ok m) fs" and "r_bytes rd = concat (map frame_bytes fs)" and "r_end rd = EOF"
  shows "read_frames (length fs + 1) (newFrameReader rd m) = (fs, Some EOF)"
proof (rule read_frames_until [where m = m and rest = "[]" and e = EOF])
  show "\<exists>h. frameReader_next g = (Inl EOF, h)" if "r_bytes (fr_r g) = []" "r_end (fr_r g) = EOF" for g
    using next_at_end [OF that(1)] that(2) by simp
qed (use assms in \<open>simp_all add: newFrameReader_def\<close>)

section \<open>Properties\<close>

text \<open>
  A streamed poll of a plain session hands over exactly the bytes of the pipe. Whatever the
  schedule and the chunking, a client that reads a complete response sees heartbeats and data
  frames of at most the buffer's size, whose payloads are, in order, all bytes that were in the
  pipe or came into it meanwhile but for those still in it; then one last frame exactly if the
  server ended the response, and the frame that says the session is gone only when the pipe is
  closed and drained.
\<close>

lemma stream_poll_exact:
  assumes "pollStream cap att env s = Returns (Streamed how bs, s')" and "s_rs s = None"
    and "w_room (se_writer env) = None" and "w_out (se_writer env) = []" and "\<forall>x. toClient (se_finish env x) = toClient x"
    and "cap < 2 ^ 32" and "int cap \<le> m" and "r_bytes rd = bs" and "r_end rd = EOF"
  shows "\<exists>fs. read_frames (length (fs @ last_frame how) + 1) (newFrameReader rd m) = (fs @ last_frame how, Some EOF) \<and>
     list_all (body_frame cap) fs \<and>
     p_buf (toClient (se_started env s)) @ stream_in cap (se_turns env) (toClient (se_started env s)) =
       data_of fs @ p_buf (toClient s') \<and>
     (how = SessionGone \<longrightarrow> p_closed (toClient s') \<and> p_buf (toClient s') = [])"
proof -
  obtain p w where run: "pollStream_loop cap (se_turns env) (toClient (se_started env s)) (se_writer env) = Some (how, p, w)"
    and w: "w_out w = bs" and s': "toClient s' = p"
    using assms(1,2,5) by (auto simp: pollStream_def Let_def split: if_splits option.splits prod.splits)
  obtain fs where fs: "w_out w = concat (map frame_bytes (fs @ last_frame how))" "list_all (body_frame cap) fs"
      "p_buf (toClient (se_started env s)) @ stream_in cap (se_turns env) (toClient (se_started env s)) = data_of fs @ p_buf p"
      "how = SessionGone \<longrightarrow> p_closed p \<and> p_buf p = []"
    using pollStream_loop_frames [OF run assms(3)] assms(4) by auto
  have "read_frames (length (fs @ last_frame how) + 1) (newFrameReader rd m) = (fs @ last_frame how, Some EOF)"
    by (rule frames_read) (use body_frames_ok [OF fs(2) assms(6,7)] fs(1) w assms(8,9) in simp_all)
  with fs s' show ?thesis by blast
qed


lemma upload_received:
  assumes "s_rs s = Some r" and "rel_inv r" and "s_att s = Some a" and "\<forall>k. keeps_received (sn_others env k)"
    and "\<not> header_true (rq_header rq) HeaderSendStreamProbe"
    and "\<forall>n. chunks_of str (seqs_of (fst (read_frames n (newFrameReader (rq_body rq) (cfg_MaxSendBytes cfg)))))"
  shows "pollSendStream cfg rq att env s \<noteq> Panics \<and>
    (\<forall>st s'. pollSendStream cfg rq att env s = Returns (st, s') \<longrightarrow>
       (\<exists>d r'. s_rs s' = Some r' \<and> p_buf (toServer s') = p_buf (toServer s) @ d \<and>
          d = segment str (unat (recvOffset r)) (length d) \<and> unat (recvOffset r') = unat (recvOffset r) + length d))"
proof (cases "attach attachUp att a (sn_attach env)")
  case None
  then show ?thesis using assms by (simp add: pollSendStream_def Let_def)
next
  case (Some x)
  obtain e a' where x: "x = (e, a')" by (cases x)
  let ?f = "newFrameReader (rq_body rq) (cfg_MaxSendBytes cfg)"
  show ?thesis
  proof (cases e)
    case (Some err)
    then show ?thesis using assms x \<open>attach attachUp att a (sn_attach env) = Some x\<close>
      by (auto simp: pollSendStream_def Let_def segment_def)
  next
    case None
    have "s_rs (s\<lparr>s_att := Some a'\<rparr>) = Some r" using assms(1) by simp
    from send_loop_received [OF assms(4,6) this assms(2), of 0] obtain st s1 d where
      run: "send_loop False True (sn_others env) 0 ?f (s\<lparr>s_att := Some a'\<rparr>) = Returns (st, s1)"
      and rec: "received str (s\<lparr>s_att := Some a'\<rparr>) s1 d" by blast
    have "pollSendStream cfg rq att env s = Returns (st, detach_session att s1)"
      using assms x None \<open>attach attachUp att a (sn_attach env) = Some x\<close> run by (simp add: pollSendStream_def Let_def)
    with rec assms(1) show ?thesis by (auto simp: received_def detach_session_def)
  qed
qed

text \<open>
  C13: A streamed upload of a resumable session adds to the session exactly the next bytes of the
  client's stream. Let the body be anything whose numbered frames carry parts of the stream,
  each at its position: complete or cut, in any chunks, with frames repeated, overlapping or
  missing. Then the handler does not panic, and whatever it answers, the session has received
  the bytes from its received offset on, and the offset has moved by their number.
\<close>

theorem upload_extends_stream:
  assumes "s_rs s = Some r" and "rel_inv r" and "s_att s = Some a" and "\<forall>k. keeps_received (sn_others env k)"
    and "\<not> header_true (rq_header rq) HeaderSendStreamProbe"
    and "\<forall>n. chunks_of str (seqs_of (fst (read_frames n (newFrameReader (rq_body rq) (cfg_MaxSendBytes cfg)))))"
  shows "pollSendStream cfg rq att env s \<noteq> Panics \<and>
    (\<forall>st s'. pollSendStream cfg rq att env s = Returns (st, s') \<longrightarrow>
       (\<exists>d r'. s_rs s' = Some r' \<and> p_buf (toServer s') = p_buf (toServer s) @ d \<and>
          d = segment str (unat (recvOffset r)) (length d) \<and> unat (recvOffset r') = unat (recvOffset r) + length d))"
  by (rule upload_received [OF assms])

text \<open>
  A streamed upload of a plain session adds to the session the payloads of its data frames,
  all of them and in order, and is answered with 200, whether it ends with an end frame or at a
  frame boundary, and whatever the chunking.
\<close>

lemma upload_plain_exact:
  assumes "s_rs s = None" and "\<not> p_closed (toServer s)" and "\<forall>k s. toServer (sn_others env k s) = toServer s"
    and "r_bytes (rq_body rq) = concat (map frame_bytes (xs @ tail))"
    and "list_all (frame_ok (cfg_MaxSendBytes cfg)) (xs @ tail)"
    and "\<forall>x \<in> set xs. fst x = frameData \<or> fst x = frameHeartbeat"
    and "tail = [] \<and> r_end (rq_body rq) = EOF \<or> tail = [(frameEnd, [])]"
    and "\<not> header_true (rq_header rq) HeaderSendStreamProbe"
  shows "\<exists>s'. pollSendStream cfg rq att env s = Returns (Some 200, s') \<and>
     p_buf (toServer s') = p_buf (toServer s) @ data_of xs"
proof -
  let ?f = "newFrameReader (rq_body rq) (cfg_MaxSendBytes cfg)"
  have "\<exists>s'. send_loop False False (sn_others env) 0 ?f s = Returns (Some 200, s') \<and> p_buf (toServer s') = p_buf (toServer s) @ data_of xs"
    by (rule send_loop_plain [where tail = tail]) (use assms in \<open>simp_all add: newFrameReader_def\<close>)
  then show ?thesis using assms(1,8) by (simp add: pollSendStream_def Let_def)
qed

section \<open>Witnesses\<close>

definition sample_body :: "bytes \<Rightarrow> request" where
  "sample_body bs = \<lparr>rq_header = no_header, rq_ContentLength = -1, rq_body = \<lparr>r_chunks = [bs], r_end = EOF\<rparr>\<rparr>"

lemma header_true_none [simp]: "\<not> header_true no_header name"
  by (simp add: header_true_def header_Get_def no_header_def)

lemma upload_plain_exact_witness:
  "\<exists>s'. pollSendStream (withDefaults sample_config) (sample_body (frame_bytes (frameData, [7, 8]))) 0
      \<lparr>sn_attach = [], sn_others = (\<lambda>_ s. s)\<rparr> (newSession ''a'' Map.empty 0) = Returns (Some 200, s') \<and>
     p_buf (toServer s') = [7, 8]"
  using upload_plain_exact [of "newSession ''a'' Map.empty 0" "\<lparr>sn_attach = [], sn_others = (\<lambda>_ s. s)\<rparr>"
      "sample_body (frame_bytes (frameData, [7, 8]))" "[(frameData, [7, 8])]" "[]" "withDefaults sample_config" 0]
  by (simp add: newSession_def NewBufferedPipe_def sample_body_def r_bytes_def frame_ok_def payload_bound_def frame_type_defs
      withDefaults_def sample_config_def DefaultMaxSendBytes_def)

text \<open>A session with one byte for the client, and one turn of the loop that ends at the deadline.\<close>

definition sample_stream :: stream_env where
  "sample_stream =
     \<lparr>se_flusher = True, se_attach = [], se_started = (\<lambda>s. s\<lparr>toClient := NewBufferedPipe\<lparr>p_buf := [5]\<rparr>\<rparr>),
      se_turns = [\<lparr>t_ctxDone = False, t_before = [], t_wait = [[EvTimer]], t_late = True\<rparr>],
      se_rturns = [], se_finish = (\<lambda>s. s), se_writer = \<lparr>w_out = [], w_room = None\<rparr>\<rparr>"

lemma stream_poll_exact_witness:
  "\<exists>bs s'. pollStream 8 0 sample_stream (newSession ''a'' Map.empty 0) = Returns (Streamed RolledOver bs, s') \<and>
     (\<exists>fs. read_frames (length (fs @ last_frame RolledOver) + 1) (newFrameReader \<lparr>r_chunks = [bs], r_end = EOF\<rparr> 8) =
       (fs @ last_frame RolledOver, Some EOF) \<and> data_of fs @ p_buf (toClient s') = [5])"
proof -
  let ?p = "NewBufferedPipe\<lparr>p_buf := [5]\<rparr>"
  have ra: "ReadAvailable 8 (after [] ?p) [[EvTimer]] = Some (Inr [5], NewBufferedPipe, [])"
    by (simp add: ReadAvailable_def coalesce_def NewBufferedPipe_def phase2_waits_def take_out_def)
  obtain bs s' where run: "pollStream 8 0 sample_stream (newSession ''a'' Map.empty 0) = Returns (Streamed RolledOver bs, s')"
    using pollStream_loop_turn(1) [of "\<lparr>t_ctxDone = False, t_before = [], t_wait = [[EvTimer]], t_late = True\<rparr>" 8 ?p, simplified, OF ra [simplified]]
    by (simp add: pollStream_def sample_stream_def newSession_def writeFrame_unlimited Let_def)
  have "stream_in 8 (se_turns sample_stream) ?p = []"
    using pollStream_loop_turn(2) [of "\<lparr>t_ctxDone = False, t_before = [], t_wait = [[EvTimer]], t_late = True\<rparr>" 8 ?p, simplified, OF ra [simplified]]
    by (simp add: sample_stream_def slept_def)
  then have "\<exists>fs. read_frames (length (fs @ last_frame RolledOver) + 1) (newFrameReader \<lparr>r_chunks = [bs], r_end = EOF\<rparr> 8) =
       (fs @ last_frame RolledOver, Some EOF) \<and> data_of fs @ p_buf (toClient s') = [5]"
    using stream_poll_exact [OF run, of 8 "\<lparr>r_chunks = [bs], r_end = EOF\<rparr>"]
    by (auto simp: sample_stream_def newSession_def r_bytes_def)
  with run show ?thesis by blast
qed

definition sample_turn :: resume_turn where
  "sample_turn =
     \<lparr>rt_ctxDone = False, rt_before = (\<lambda>x. x), rt_wait = [], rt_meanwhile = (\<lambda>r. r), rt_slots = newAttachments,
      rt_then = (\<lambda>r. r), rt_late = True\<rparr>"


lemma read_one_frame:
  assumes "frame_ok m x" and "r_bytes rd = frame_bytes x" and "r_end rd = EOF"
  shows "fst (read_frames n (newFrameReader rd m)) = take n [x]"
proof -
  obtain f' where f': "frameReader_next (newFrameReader rd m) = (Inr x, f')" "r_bytes (fr_r f') = []"
    using next_frame [of "newFrameReader rd m" x "[]"] assms(1,2) by (auto simp: newFrameReader_def)
  obtain e f'' where "frameReader_next f' = (Inl e, f'')" using next_at_end [OF f'(2)] by auto
  with f'(1) show ?thesis by (cases n; cases "n - 1") (simp_all add: case_prod_beta)
qed

theorem upload_extends_stream_witness:
  "\<exists>st s' d. pollSendStream (withDefaults sample_config) (sample_body (frame_bytes (frameSeqData, encodeOffset 0 @ [7, 8]))) 0
      \<lparr>sn_attach = [], sn_others = (\<lambda>_ s. s)\<rparr> sample_session = Returns (st, s') \<and>
     p_buf (toServer s') = d \<and> d = segment [7, 8] 0 (length d)"
proof -
  let ?x = "(frameSeqData, encodeOffset 0 @ [7, 8])"
  let ?rq = "sample_body (frame_bytes ?x)" and ?env = "\<lparr>sn_attach = [], sn_others = (\<lambda>_ s. s)\<rparr>" and ?cfg = "withDefaults sample_config"
  have ok: "frame_ok (cfg_MaxSendBytes ?cfg) ?x"
    by (simp add: frame_ok_def payload_bound_def encodeOffset_def be64.enc_length withDefaults_def sample_config_def
        DefaultMaxSendBytes_def)
  have parts: "chunks_of [7, 8] (seqs_of (fst (read_frames n (newFrameReader (rq_body ?rq) (cfg_MaxSendBytes ?cfg)))))" for n
  proof -
    have "fst (read_frames n (newFrameReader (rq_body ?rq) (cfg_MaxSendBytes ?cfg))) = take n [?x]"
      by (rule read_one_frame [OF ok]) (simp_all add: sample_body_def r_bytes_def)
    then show ?thesis by (cases n) (simp_all add: chunks_of_def seq_of_def splitSeq_encode segment_def)
  qed
  have s: "s_rs sample_session = Some (newReliable 0)" "s_att sample_session = Some newAttachments" "p_buf (toServer sample_session) = []"
    by (simp_all add: sample_session_def enableResume_def newSession_def NewBufferedPipe_def)
  have quiet: "\<forall>k. keeps_received (sn_others ?env k)" by (simp add: keeps_received_def)
  have h: "\<not> header_true (rq_header ?rq) HeaderSendStreamProbe" by (simp add: sample_body_def)
  have att: "attach attachUp 0 newAttachments [] = Some (None, newAttachments\<lparr>a_up := Some 0\<rparr>)"
    by (simp add: attach_def kinds_def attach_turn_def newAttachments_def slot_def set_slot_def)
  have s2: "s_rs (sample_session\<lparr>s_att := Some (newAttachments\<lparr>a_up := Some 0\<rparr>)\<rparr>) = Some (newReliable 0)" using s(1) by simp
  obtain st s1 where "send_loop False True (sn_others ?env) 0 (newFrameReader (rq_body ?rq) (cfg_MaxSendBytes ?cfg))
      (sample_session\<lparr>s_att := Some (newAttachments\<lparr>a_up := Some 0\<rparr>)\<rparr>) = Returns (st, s1)"
    using send_loop_received [OF quiet allI [OF parts] s2 rel_inv_newReliable, of 0] by blast
  then have run: "pollSendStream ?cfg ?rq 0 ?env sample_session = Returns (st, detach_session 0 s1)"
    using s h att by (simp add: pollSendStream_def Let_def)
  have "recvOffset (newReliable 0) = 0" by (simp add: newReliable_def)
  then show ?thesis
    using upload_extends_stream [OF s(1) rel_inv_newReliable s(2) quiet h allI [OF parts], of 0, THEN conjunct2, rule_format, OF run] s(3) run
    by auto
qed

end
