(* ===== verification/Store.thy ===== *)
theory Store
  imports Session
begin

text \<open>
  \<^verbatim>\<open>store.go\<close> and the lifecycle functions of \<^verbatim>\<open>handler.go\<close>: the sessions by id, their removal
  and the sweeper. Sessions are shared by pointer, so the state has a heap of them; a reference
  is an index into it, and the store maps ids to references. \<open>disconnects\<close> records the calls of
  \<^verbatim>\<open>Hooks.OnDisconnect\<close>. Ranging over the map takes the order of the ids as an argument.

  The sweeper holds the store's lock throughout but each session's lock only while it looks at
  it: between the scan and the eviction beyond the cap other goroutines may change sessions,
  which is the argument \<open>between\<close>.

  The properties: what the sweeper evicts and what it never evicts, that it enforces the cap
  on waiting sessions and takes the longest detached first, that a session's end is reported
  once, and that a session the application closed itself stays in the store.
\<close>

section \<open>The store\<close>

record server =
  heap :: "session list"
  sessions :: "string \<rightharpoonup> nat"
  maxDetachedResumable :: int
  disconnects :: "(nat \<times> DisconnectReason) list"

definition NewSessionStore :: server where
  "NewSessionStore = \<lparr>heap = [], sessions = Map.empty, maxDetachedResumable = 0, disconnects = []\<rparr>"

text \<open>The session a reference points to, and a change of it.\<close>

abbreviation sess :: "server \<Rightarrow> nat \<Rightarrow> session" where
  "sess sv r \<equiv> heap sv ! r"

definition upd :: "nat \<Rightarrow> (session \<Rightarrow> session) \<Rightarrow> server \<Rightarrow> server" where
  "upd r f sv = sv\<lparr>heap := (heap sv)[r := f (sess sv r)]\<rparr>"

definition add :: "nat \<Rightarrow> server \<Rightarrow> server" where
  "add r sv = sv\<lparr>sessions := (sessions sv)(s_ID (sess sv r) \<mapsto> r)\<rparr>"

definition Get :: "string \<Rightarrow> server \<Rightarrow> nat option" where
  "Get ident sv = sessions sv ident"

definition Remove :: "string \<Rightarrow> server \<Rightarrow> server" where
  "Remove ident sv = sv\<lparr>sessions := (sessions sv)(ident := None)\<rparr>"

definition All :: "string list \<Rightarrow> server \<Rightarrow> nat list" where
  "All ids sv = List.map_filter (sessions sv) ids"

definition Len :: "server \<Rightarrow> nat" where
  "Len sv = card (dom (sessions sv))"

section \<open>Removing one session\<close>

definition removeAndMarkClosed :: "instant \<Rightarrow> nat \<Rightarrow> bool \<Rightarrow> server \<Rightarrow> bool \<times> server" where
  "removeAndMarkClosed now r requireIdle sv =
     (let s = sess sv r in
      if sessions sv (s_ID s) \<noteq> Some r then (False, sv)
      else if s_closed s \<or> (requireIdle \<and> (pollInFlight s \<noteq> 0 \<or> inResumeGraceLocked now s)) then (False, sv)
      else (True, Remove (s_ID s) (upd r (\<lambda>s. s\<lparr>s_closed := True\<rparr>) sv)))"

definition OnDisconnect :: "nat \<Rightarrow> DisconnectReason \<Rightarrow> server \<Rightarrow> server" where
  "OnDisconnect r reason sv = sv\<lparr>disconnects := disconnects sv @ [(r, reason)]\<rparr>"

definition closeSession :: "instant \<Rightarrow> nat \<Rightarrow> DisconnectReason \<Rightarrow> server \<Rightarrow> server" where
  "closeSession now r reason sv =
     (case removeAndMarkClosed now r False sv of
        (False, sv1) \<Rightarrow> sv1
      | (True, sv1) \<Rightarrow> OnDisconnect r reason (upd r closePipes sv1))"

definition CloseSession :: "instant \<Rightarrow> nat \<Rightarrow> DisconnectReason \<Rightarrow> server \<Rightarrow> server" where
  "CloseSession now r reason sv = closeSession now r reason sv"

definition CloseSessionIfNoPollInFlight :: "instant \<Rightarrow> nat \<Rightarrow> DisconnectReason \<Rightarrow> server \<Rightarrow> bool \<times> server" where
  "CloseSessionIfNoPollInFlight now r reason sv =
     (case removeAndMarkClosed now r True sv of
        (False, sv1) \<Rightarrow> (False, sv1)
      | (True, sv1) \<Rightarrow> (True, OnDisconnect r reason (upd r closePipes sv1)))"

section \<open>The sweeper\<close>

text \<open>One turn of the scan: the loop's state is the server and the two lists.\<close>

definition sweep_visit :: "instant \<Rightarrow> duration \<Rightarrow> string \<Rightarrow> server \<times> nat list \<times> nat list
    \<Rightarrow> server \<times> nat list \<times> nat list" where
  "sweep_visit now timeout ident st =
     (case st of (sv, expired, detached) \<Rightarrow>
       (case sessions sv ident of
          None \<Rightarrow> st
        | Some r \<Rightarrow>
            let s = sess sv r;
                evicted = (Remove ident (upd r (\<lambda>s. s\<lparr>s_closed := True\<rparr>) sv), expired @ [r], detached)
            in if \<not> s_closed s \<and> pollInFlight s = 0 then
                 if Resumable s then
                   if now - s_detachedAt s > s_resumeGrace s then evicted
                   else if detachedBeyondPollGapLocked now s then (sv, expired, detached @ [r])
                   else st
                 else if now - s_lastActive s > timeout then evicted
                 else st
               else st))"

definition sweep_scan :: "instant \<Rightarrow> duration \<Rightarrow> string list \<Rightarrow> server \<Rightarrow> server \<times> nat list \<times> nat list" where
  "sweep_scan now timeout ids sv = fold (sweep_visit now timeout) ids (sv, [], [])"

definition cap_visit :: "instant \<Rightarrow> nat \<Rightarrow> server \<times> nat list \<Rightarrow> server \<times> nat list" where
  "cap_visit now r st =
     (case st of (sv, expired) \<Rightarrow>
        let s = sess sv r in
        if \<not> s_closed s \<and> detachedBeyondPollGapLocked now s
        then (Remove (s_ID s) (upd r (\<lambda>s. s\<lparr>s_closed := True\<rparr>) sv), expired @ [r])
        else st)"

text \<open>\<^verbatim>\<open>sort.Slice\<close> by \<open>detachedAt\<close>; among equal times the model takes the order of the scan.\<close>

definition sweep_cap :: "instant \<Rightarrow> nat list \<Rightarrow> server \<Rightarrow> nat list \<Rightarrow> server \<times> nat list" where
  "sweep_cap now detached sv expired =
     (let m = maxDetachedResumable sv in
      if m > 0 \<and> int (length detached) > m
      then fold (cap_visit now)
             (take (length detached - nat m) (sort_key (\<lambda>r. s_detachedAt (sess sv r)) detached)) (sv, expired)
      else (sv, expired))"

definition evict_notify :: "nat \<Rightarrow> server \<Rightarrow> server" where
  "evict_notify r sv = OnDisconnect r ReasonEvicted (upd r closePipes sv)"

definition sweep :: "instant \<Rightarrow> duration \<Rightarrow> string list \<Rightarrow> (server \<Rightarrow> server) \<Rightarrow> server \<Rightarrow> nat list \<times> server" where
  "sweep now timeout ids between sv =
     (case sweep_scan now timeout ids sv of (sv1, expired1, detached) \<Rightarrow>
       (case sweep_cap now detached (between sv1) expired1 of (sv2, expired) \<Rightarrow>
          (expired, fold evict_notify expired sv2)))"

text \<open>\<open>StartSweeper\<close> of \<^verbatim>\<open>handler.go\<close> hands the configured cap to the store before the loop starts.\<close>

definition set_cap :: "ServerConfig \<Rightarrow> server \<Rightarrow> server" where
  "set_cap cfg sv = sv\<lparr>maxDetachedResumable := max (cfg_MaxDetachedResumable (withDefaults cfg)) 0\<rparr>"

text \<open>The defaults \<open>SessionStore.StartSweeper\<close> applies to its interval and timeout.\<close>

definition sweeper_timings :: "duration \<Rightarrow> duration \<Rightarrow> duration \<times> duration" where
  "sweeper_timings interval timeout =
     (if interval \<le> 0 then DefaultSweepInterval else interval,
      if timeout \<le> 0 then DefaultSessionTimeout else timeout)"

section \<open>Histories\<close>

text \<open>
  Everything that happens to sessions of a store after they were registered. \<open>run_store\<close> skips
  a sweep whose order is not an enumeration of the store: ranging over a map visits each key
  once. \<open>OpHandler\<close> stands for whatever a handler does to a session's other fields.
\<close>

datatype store_op =
    OpClose nat DisconnectReason
  | OpCloseIdle nat DisconnectReason
  | OpSweep duration "string list"
  | OpSessionClose nat
  | OpHandler nat "session \<Rightarrow> session"

fun run_store :: "store_op \<Rightarrow> instant \<Rightarrow> server \<Rightarrow> server" where
  "run_store (OpClose r reason) now sv = CloseSession now r reason sv"
| "run_store (OpCloseIdle r reason) now sv = snd (CloseSessionIfNoPollInFlight now r reason sv)"
| "run_store (OpSweep timeout ids) now sv =
     (if distinct ids \<and> set ids = dom (sessions sv) then snd (sweep now timeout ids (\<lambda>x. x) sv) else sv)"
| "run_store (OpSessionClose r) now sv = upd r Session_Close sv"
| "run_store (OpHandler r f) now sv = upd r f sv"

text \<open>A handler neither renames nor closes a session, and references are valid.\<close>

fun op_ok :: "nat \<Rightarrow> store_op \<Rightarrow> bool" where
  "op_ok n (OpClose r _) = (r < n)"
| "op_ok n (OpCloseIdle r _) = (r < n)"
| "op_ok n (OpSweep _ _) = True"
| "op_ok n (OpSessionClose r) = (r < n)"
| "op_ok n (OpHandler r f) = (r < n \<and> (\<forall>s. s_ID (f s) = s_ID s \<and> s_closed (f s) = s_closed s))"

definition run_stores :: "(store_op \<times> instant) list \<Rightarrow> server \<Rightarrow> server" where
  "run_stores ops sv = fold (\<lambda>(op, now). run_store op now) ops sv"

section \<open>Specification\<close>

text \<open>The store's ids are the ids of its sessions.\<close>

definition store_inv :: "server \<Rightarrow> bool" where
  "store_inv sv \<longleftrightarrow> (\<forall>i r. sessions sv i = Some r \<longrightarrow> r < length (heap sv) \<and> s_ID (sess sv r) = i)"

definition idle_expired :: "instant \<Rightarrow> duration \<Rightarrow> session \<Rightarrow> bool" where
  "idle_expired now timeout s \<longleftrightarrow>
     \<not> s_closed s \<and> pollInFlight s = 0 \<and>
     (if Resumable s then now - s_detachedAt s > s_resumeGrace s else now - s_lastActive s > timeout)"

text \<open>A session that counts towards the cap: detached, resumable, within its grace, beyond its gap.\<close>

definition waiting :: "instant \<Rightarrow> session \<Rightarrow> bool" where
  "waiting now s \<longleftrightarrow>
     \<not> s_closed s \<and> pollInFlight s = 0 \<and> Resumable s \<and>
     s_pollGap s < now - s_detachedAt s \<and> now - s_detachedAt s \<le> s_resumeGrace s"

definition stored :: "server \<Rightarrow> nat \<Rightarrow> bool" where
  "stored sv r \<longleftrightarrow> sessions sv (s_ID (sess sv r)) = Some r"

definition evict :: "nat \<Rightarrow> server \<Rightarrow> server" where
  "evict r sv = Remove (s_ID (sess sv r)) (upd r (\<lambda>s. s\<lparr>s_closed := True\<rparr>) sv)"

section \<open>Lemmas on single changes\<close>

lemma upd_simps [simp]:
  "sessions (upd r f sv) = sessions sv" "maxDetachedResumable (upd r f sv) = maxDetachedResumable sv"
  "disconnects (upd r f sv) = disconnects sv" "length (heap (upd r f sv)) = length (heap sv)"
  by (simp_all add: upd_def)

lemma sess_upd: "r < length (heap sv) \<Longrightarrow> sess (upd r f sv) x = (if x = r then f (sess sv r) else sess sv x)"
  by (simp add: upd_def nth_list_update)

lemma Remove_simps [simp]:
  "heap (Remove i sv) = heap sv" "sessions (Remove i sv) = (sessions sv)(i := None)"
  "maxDetachedResumable (Remove i sv) = maxDetachedResumable sv" "disconnects (Remove i sv) = disconnects sv"
  by (simp_all add: Remove_def)

lemma OnDisconnect_simps [simp]:
  "heap (OnDisconnect r x sv) = heap sv" "sessions (OnDisconnect r x sv) = sessions sv"
  "maxDetachedResumable (OnDisconnect r x sv) = maxDetachedResumable sv"
  "disconnects (OnDisconnect r x sv) = disconnects sv @ [(r, x)]"
  by (simp_all add: OnDisconnect_def)

lemma Session_Close_ID [simp]: "s_ID (Session_Close s) = s_ID s"
  by (simp add: Session_Close_def closeOnce_def markClosedLocked_def)

lemma store_invD: "store_inv sv \<Longrightarrow> sessions sv i = Some r \<Longrightarrow> r < length (heap sv) \<and> s_ID (sess sv r) = i"
  by (simp add: store_inv_def)

lemma evict_simps:
  assumes "r < length (heap sv)"
  shows "sess (evict r sv) x = (if x = r then (sess sv r)\<lparr>s_closed := True\<rparr> else sess sv x)"
    and "sessions (evict r sv) = (sessions sv)(s_ID (sess sv r) := None)"
    and "length (heap (evict r sv)) = length (heap sv)"
    and "maxDetachedResumable (evict r sv) = maxDetachedResumable sv" "disconnects (evict r sv) = disconnects sv"
  using assms by (simp_all add: evict_def sess_upd)

lemma store_inv_evict: "store_inv sv \<Longrightarrow> r < length (heap sv) \<Longrightarrow> store_inv (evict r sv)"
  by (auto simp: store_inv_def evict_simps split: if_splits)

section \<open>Lemmas on the sweeper\<close>

text \<open>Evicting a list of sessions, pointwise.\<close>

lemma evict_all:
  assumes "store_inv sv" and "\<forall>r \<in> set rs. r < length (heap sv)"
  shows "sess (fold evict rs sv) x = (if x \<in> set rs then (sess sv x)\<lparr>s_closed := True\<rparr> else sess sv x)"
    and "sessions (fold evict rs sv) i = (if i \<in> (\<lambda>r. s_ID (sess sv r)) ` set rs then None else sessions sv i)"
    and "length (heap (fold evict rs sv)) = length (heap sv)"
    and "maxDetachedResumable (fold evict rs sv) = maxDetachedResumable sv"
    and "disconnects (fold evict rs sv) = disconnects sv" and "store_inv (fold evict rs sv)"
proof -
  have "(\<forall>x. sess (fold evict rs sv) x = (if x \<in> set rs then (sess sv x)\<lparr>s_closed := True\<rparr> else sess sv x)) \<and>
    (\<forall>i. sessions (fold evict rs sv) i = (if i \<in> (\<lambda>r. s_ID (sess sv r)) ` set rs then None else sessions sv i)) \<and>
    length (heap (fold evict rs sv)) = length (heap sv) \<and>
    maxDetachedResumable (fold evict rs sv) = maxDetachedResumable sv \<and>
    disconnects (fold evict rs sv) = disconnects sv \<and> store_inv (fold evict rs sv)"
    using assms
  proof (induction rs arbitrary: sv)
    case (Cons r rs)
    have r: "r < length (heap sv)" using Cons.prems(2) by simp
    note ev = evict_simps [OF r]
    have "(\<lambda>x. s_ID (sess (evict r sv) x)) ` set rs = (\<lambda>x. s_ID (sess sv x)) ` set rs"
      by (rule image_cong) (simp_all add: ev(1))
    with Cons.IH [OF store_inv_evict [OF Cons.prems(1) r]] Cons.prems(2) ev show ?case by simp
  qed simp
  then show "sess (fold evict rs sv) x = (if x \<in> set rs then (sess sv x)\<lparr>s_closed := True\<rparr> else sess sv x)"
    "sessions (fold evict rs sv) i = (if i \<in> (\<lambda>r. s_ID (sess sv r)) ` set rs then None else sessions sv i)"
    "length (heap (fold evict rs sv)) = length (heap sv)"
    "maxDetachedResumable (fold evict rs sv) = maxDetachedResumable sv"
    "disconnects (fold evict rs sv) = disconnects sv" "store_inv (fold evict rs sv)" by blast+
qed

text \<open>One visit: the session expires, waits, or is left alone.\<close>

lemma sweep_visit_cases:
  assumes "store_inv sv" and "sessions sv i = Some r"
  shows "sweep_visit now timeout i (sv, e, d) =
     (if idle_expired now timeout (sess sv r) then (evict r sv, e @ [r], d)
      else if waiting now (sess sv r) then (sv, e, d @ [r]) else (sv, e, d))"
  using store_invD [OF assms] assms(2)
  by (auto simp: sweep_visit_def Let_def idle_expired_def waiting_def evict_def detachedBeyondPollGapLocked_def)

text \<open>The scan finds exactly the expired and the waiting sessions, and evicts the former.\<close>

lemma sweep_fold:
  assumes "store_inv sv" and "distinct ids" and "\<forall>i \<in> set ids. sessions sv i \<noteq> None"
  shows "fold (sweep_visit now timeout) ids (sv, e, d) =
     (let rs = map (\<lambda>i. the (sessions sv i)) ids; ex = filter (\<lambda>r. idle_expired now timeout (sess sv r)) rs
      in (fold evict ex sv, e @ ex, d @ filter (\<lambda>r. waiting now (sess sv r)) rs))"
  using assms
proof (induction ids arbitrary: sv e d)
  case (Cons i ids)
  then obtain r where r: "sessions sv i = Some r" by auto
  then have len: "r < length (heap sv)" "s_ID (sess sv r) = i" using store_invD [OF Cons.prems(1)] by auto
  have other: "the (sessions sv j) \<noteq> r" if "j \<in> set ids" for j
    using Cons.prems(2,3) that len store_invD [OF Cons.prems(1), of j] by force
  show ?case
  proof (cases "idle_expired now timeout (sess sv r)")
    case True
    note ev = evict_simps [OF len(1)]
    have same: "map (\<lambda>j. the (sessions (evict r sv) j)) ids = map (\<lambda>j. the (sessions sv j)) ids"
      using Cons.prems(2) by (auto simp: ev(2) len(2))
    have sel: "filter (\<lambda>x. P (sess (evict r sv) x)) (map (\<lambda>j. the (sessions sv j)) ids) =
        filter (\<lambda>x. P (sess sv x)) (map (\<lambda>j. the (sessions sv j)) ids)" for P :: "session \<Rightarrow> bool"
      by (rule filter_cong) (use other in \<open>auto simp: ev(1)\<close>)
    have dom: "\<forall>j \<in> set ids. sessions (evict r sv) j \<noteq> None" using Cons.prems(2,3) by (auto simp: ev(2) len(2))
    have "\<not> waiting now (sess sv r)" using True by (auto simp: idle_expired_def waiting_def)
    with True r show ?thesis
      using Cons.IH [OF store_inv_evict [OF Cons.prems(1) len(1)] _ dom, of "e @ [r]" d] Cons.prems(2)
      by (simp add: Let_def same sel [of "idle_expired now timeout"] sel [of "waiting now"]
          sweep_visit_cases [OF Cons.prems(1) r])
  next
    case False
    then show ?thesis
      using Cons.IH [OF Cons.prems(1)] Cons.prems(2,3) r
      by (simp add: Let_def sweep_visit_cases [OF Cons.prems(1) r])
  qed
qed (simp add: Let_def)

text \<open>The eviction beyond the cap takes every victim that still waits.\<close>

lemma cap_fold:
  assumes "store_inv sv" and "distinct vs" and "\<forall>r \<in> set vs. r < length (heap sv)"
  shows "fold (cap_visit now) vs (sv, e) =
     (let ex = filter (\<lambda>r. \<not> s_closed (sess sv r) \<and> detachedBeyondPollGapLocked now (sess sv r)) vs
      in (fold evict ex sv, e @ ex))"
  using assms
proof (induction vs arbitrary: sv e)
  case (Cons r vs)
  have len: "r < length (heap sv)" using Cons.prems(3) by simp
  show ?case
  proof (cases "\<not> s_closed (sess sv r) \<and> detachedBeyondPollGapLocked now (sess sv r)")
    case True
    note ev = evict_simps [OF len]
    have sel: "filter (\<lambda>x. \<not> s_closed (sess (evict r sv) x) \<and> detachedBeyondPollGapLocked now (sess (evict r sv) x)) vs =
        filter (\<lambda>x. \<not> s_closed (sess sv x) \<and> detachedBeyondPollGapLocked now (sess sv x)) vs"
      by (rule filter_cong) (use Cons.prems(2) in \<open>auto simp: ev(1)\<close>)
    have "cap_visit now r (sv, e) = (evict r sv, e @ [r])"
      using True by (simp add: cap_visit_def evict_def Let_def)
    then show ?thesis
      using True Cons.IH [OF store_inv_evict [OF Cons.prems(1) len], of "e @ [r]"] Cons.prems(2,3) ev(3)
      by (simp add: Let_def sel)
  next
    case False
    then have "cap_visit now r (sv, e) = (sv, e)" by (auto simp: cap_visit_def Let_def)
    with False Cons.IH [OF Cons.prems(1)] Cons.prems(2,3) show ?thesis by (auto simp: Let_def)
  qed
qed (simp add: Let_def)

lemma closePipes_idem [simp]: "closePipes (closePipes s) = closePipes s"
  by (simp add: closePipes_def Close_def)

lemma notify_fold:
  assumes "\<forall>r \<in> set rs. r < length (heap sv)"
  shows "sessions (fold evict_notify rs sv) = sessions sv"
    and "disconnects (fold evict_notify rs sv) = disconnects sv @ map (\<lambda>r. (r, ReasonEvicted)) rs"
    and "length (heap (fold evict_notify rs sv)) = length (heap sv)"
    and "sess (fold evict_notify rs sv) x = (if x \<in> set rs then closePipes (sess sv x) else sess sv x)"
proof -
  have "sessions (fold evict_notify rs sv) = sessions sv \<and>
    disconnects (fold evict_notify rs sv) = disconnects sv @ map (\<lambda>r. (r, ReasonEvicted)) rs \<and>
    length (heap (fold evict_notify rs sv)) = length (heap sv) \<and>
    (\<forall>x. sess (fold evict_notify rs sv) x = (if x \<in> set rs then closePipes (sess sv x) else sess sv x))"
    using assms
  proof (induction rs arbitrary: sv)
    case (Cons r rs)
    have len: "r < length (heap sv)" "\<forall>x \<in> set rs. x < length (heap (evict_notify r sv))"
      using Cons.prems by (simp_all add: evict_notify_def)
    have one: "sess (evict_notify r sv) x = (if x = r then closePipes (sess sv r) else sess sv x)" for x
      using sess_upd [OF len(1), of closePipes x] by (simp add: evict_notify_def)
    have "sess (fold evict_notify (r # rs) sv) x = (if x \<in> set (r # rs) then closePipes (sess sv x) else sess sv x)" for x
      using Cons.IH [OF len(2)] by (simp add: one)
    moreover have "sessions (fold evict_notify (r # rs) sv) = sessions sv"
      "disconnects (fold evict_notify (r # rs) sv) = disconnects sv @ map (\<lambda>r. (r, ReasonEvicted)) (r # rs)"
      "length (heap (fold evict_notify (r # rs) sv)) = length (heap sv)"
      using Cons.IH [OF len(2)] by (simp_all add: evict_notify_def [of r sv])
    ultimately show ?case by blast
  qed simp
  then show "sessions (fold evict_notify rs sv) = sessions sv"
    "disconnects (fold evict_notify rs sv) = disconnects sv @ map (\<lambda>r. (r, ReasonEvicted)) rs"
    "length (heap (fold evict_notify rs sv)) = length (heap sv)"
    "sess (fold evict_notify rs sv) x = (if x \<in> set rs then closePipes (sess sv x) else sess sv x)"
    by blast+
qed

text \<open>The references in the store, in the order of the scan, and what the scan does to them.\<close>

definition refs :: "server \<Rightarrow> string list \<Rightarrow> nat list" where
  "refs sv ids = map (\<lambda>i. the (sessions sv i)) ids"

definition scan_order :: "server \<Rightarrow> string list \<Rightarrow> bool" where
  "scan_order sv ids \<longleftrightarrow> store_inv sv \<and> distinct ids \<and> set ids = dom (sessions sv)"

lemma refs_stored:
  assumes "scan_order sv ids"
  shows "r \<in> set (refs sv ids) \<longleftrightarrow> r < length (heap sv) \<and> stored sv r" and "distinct (refs sv ids)"
proof -
  have inv: "store_inv sv" "distinct ids" "set ids = dom (sessions sv)" using assms by (simp_all add: scan_order_def)
  show "r \<in> set (refs sv ids) \<longleftrightarrow> r < length (heap sv) \<and> stored sv r"
  proof
    assume "r \<in> set (refs sv ids)"
    then obtain i where "sessions sv i = Some r" using inv(3) by (auto simp: refs_def)
    with store_invD [OF inv(1)] show "r < length (heap sv) \<and> stored sv r" by (auto simp: stored_def)
  next
    assume "r < length (heap sv) \<and> stored sv r"
    then have "sessions sv (s_ID (sess sv r)) = Some r" by (simp add: stored_def)
    moreover from this have "s_ID (sess sv r) \<in> set ids" using inv(3) by (simp add: dom_def)
    ultimately show "r \<in> set (refs sv ids)" by (force simp: refs_def)
  qed
  have "inj_on (\<lambda>i. the (sessions sv i)) (set ids)"
  proof (rule inj_onI)
    fix i j
    assume "i \<in> set ids" "j \<in> set ids" and eq: "the (sessions sv i) = the (sessions sv j)"
    then obtain r r' where "sessions sv i = Some r" "sessions sv j = Some r'" using inv(3) by auto
    with eq store_invD [OF inv(1), of i r] store_invD [OF inv(1), of j r'] show "i = j" by simp
  qed
  then show "distinct (refs sv ids)" using inv(2) by (simp add: refs_def distinct_map)
qed

lemma sweep_scan_result:
  assumes "scan_order sv ids"
  shows "sweep_scan now timeout ids sv =
     (let ex = filter (\<lambda>r. idle_expired now timeout (sess sv r)) (refs sv ids)
      in (fold evict ex sv, ex, filter (\<lambda>r. waiting now (sess sv r)) (refs sv ids)))"
  using assms sweep_fold [of sv ids now timeout "[]" "[]"] by (auto simp: sweep_scan_def scan_order_def refs_def Let_def)

text \<open>The victims beyond the cap: the longest detached of the waiting sessions.\<close>

definition victims :: "server \<Rightarrow> nat list \<Rightarrow> nat list" where
  "victims sv detached =
     (let m = maxDetachedResumable sv in
      if m > 0 \<and> int (length detached) > m
      then take (length detached - nat m) (sort_key (\<lambda>r. s_detachedAt (sess sv r)) detached) else [])"

lemma victims_subset: "set (victims sv d) \<subseteq> set d" "distinct d \<Longrightarrow> distinct (victims sv d)"
  by (auto simp: victims_def Let_def dest: in_set_takeD)

lemma sweep_cap_result:
  assumes "store_inv sv" and "distinct d" and "\<forall>r \<in> set d. r < length (heap sv)"
  shows "sweep_cap now d sv e =
     (let ex = filter (\<lambda>r. \<not> s_closed (sess sv r) \<and> detachedBeyondPollGapLocked now (sess sv r)) (victims sv d)
      in (fold evict ex sv, e @ ex))"
proof -
  have "sweep_cap now d sv e = fold (cap_visit now) (victims sv d) (sv, e)"
    by (simp add: sweep_cap_def victims_def Let_def)
  with cap_fold [of sv "victims sv d" now e] victims_subset [where sv = sv and d = d] assms show ?thesis by auto
qed

lemma diff_take: "distinct xs \<Longrightarrow> set xs - set (take n xs) = set (drop n xs)"
proof -
  assume "distinct xs"
  then have "set (take n xs) \<inter> set (drop n xs) = {}" by (simp add: set_take_disj_set_drop_if_distinct)
  moreover have "set xs = set (take n xs) \<union> set (drop n xs)" by (metis append_take_drop_id set_append)
  ultimately show ?thesis by blast
qed

lemma victims_keep:
  assumes "distinct d" and "maxDetachedResumable sv > 0"
  shows "int (card (set d - set (victims sv d))) \<le> maxDetachedResumable sv"
    and "v \<in> set (victims sv d) \<Longrightarrow> u \<in> set d - set (victims sv d) \<Longrightarrow> s_detachedAt (sess sv v) \<le> s_detachedAt (sess sv u)"
proof -
  let ?m = "nat (maxDetachedResumable sv)" and ?k = "\<lambda>r. s_detachedAt (sess sv r)"
  let ?s = "sort_key ?k d"
  have dis: "distinct ?s" and set: "set ?s = set d" using assms(1) by simp_all
  consider (over) "victims sv d = take (length d - ?m) ?s" "length d > ?m" | (under) "victims sv d = []" "length d \<le> ?m"
    using assms(2) by (cases "int (length d) > maxDetachedResumable sv") (auto simp: victims_def Let_def)
  then have "int (card (set d - set (victims sv d))) \<le> maxDetachedResumable sv \<and>
    (\<forall>v \<in> set (victims sv d). \<forall>u \<in> set d - set (victims sv d). ?k v \<le> ?k u)"
  proof cases
    case over
    have split: "?s = take (length d - ?m) ?s @ drop (length d - ?m) ?s" by simp
    have "set d - set (victims sv d) = set (drop (length d - ?m) ?s)"
      using diff_take [of ?s "length d - ?m"] dis set over(1) by simp
    moreover have "card (set (drop (length d - ?m) ?s)) = ?m"
      using dis over(2) by (simp add: distinct_card)
    moreover have "\<forall>v \<in> set (take (length d - ?m) ?s). \<forall>u \<in> set (drop (length d - ?m) ?s). ?k v \<le> ?k u"
    proof -
      have "sorted (map ?k (take (length d - ?m) ?s) @ map ?k (drop (length d - ?m) ?s))"
        using sorted_sort_key [of ?k d] split by (metis map_append)
      then show ?thesis by (simp only: sorted_append set_map) blast
    qed
    ultimately show ?thesis using over(1) assms(2) by simp
  next
    case under
    then show ?thesis using assms by (simp add: distinct_card)
  qed
  then show "int (card (set d - set (victims sv d))) \<le> maxDetachedResumable sv"
    "v \<in> set (victims sv d) \<Longrightarrow> u \<in> set d - set (victims sv d) \<Longrightarrow> s_detachedAt (sess sv v) \<le> s_detachedAt (sess sv u)"
    by blast+
qed

text \<open>
  What other goroutines can do to the server while the sweeper holds the store's lock: attach
  to sessions, detach from them, close them; not change the store.
\<close>

definition only_sessions :: "(server \<Rightarrow> server) \<Rightarrow> server \<Rightarrow> bool" where
  "only_sessions f sv \<longleftrightarrow>
     length (heap (f sv)) = length (heap sv) \<and> sessions (f sv) = sessions sv \<and> disconnects (f sv) = disconnects sv \<and>
     maxDetachedResumable (f sv) = maxDetachedResumable sv \<and>
     (\<forall>r. s_ID (sess (f sv) r) = s_ID (sess sv r) \<and> (s_closed (sess sv r) \<longrightarrow> s_closed (sess (f sv) r)))"

lemma only_sessions_id [simp]: "only_sessions id sv" "only_sessions (\<lambda>x. x) sv"
  by (simp_all add: only_sessions_def)

lemma only_sessions_inv: "only_sessions f sv \<Longrightarrow> store_inv sv \<Longrightarrow> store_inv (f sv)"
  by (simp add: only_sessions_def store_inv_def)

lemma sweep_result:
  assumes "scan_order sv ids" and "only_sessions between sv1"
    and ex: "ex = filter (\<lambda>r. idle_expired now timeout (sess sv r)) (refs sv ids)" and sv1: "sv1 = fold evict ex sv"
    and wt: "wt = filter (\<lambda>r. waiting now (sess sv r)) (refs sv ids)"
    and ex2: "ex2 = filter (\<lambda>r. \<not> s_closed (sess (between sv1) r) \<and> detachedBeyondPollGapLocked now (sess (between sv1) r))
                      (victims (between sv1) wt)"
  shows "sweep now timeout ids between sv =
           (ex @ ex2, fold evict_notify (ex @ ex2) (fold evict ex2 (between sv1)))"
    and "store_inv (between sv1)" and "\<forall>r \<in> set (ex @ ex2). r < length (heap (between sv1))"
    and "sess sv1 r = (if r \<in> set ex then (sess sv r)\<lparr>s_closed := True\<rparr> else sess sv r)"
    and "set ex \<inter> set ex2 = {}" and "distinct (ex @ ex2)"
    and "sess (snd (sweep now timeout ids between sv)) r =
           (if r \<in> set (ex @ ex2) then closePipes ((sess (between sv1) r)\<lparr>s_closed := True\<rparr>) else sess (between sv1) r)"
    and "sessions (snd (sweep now timeout ids between sv)) i =
           (if i \<in> (\<lambda>r. s_ID (sess sv r)) ` set (ex @ ex2) then None else sessions sv i)"
    and "disconnects (snd (sweep now timeout ids between sv)) = disconnects sv @ map (\<lambda>r. (r, ReasonEvicted)) (ex @ ex2)"
    and "length (heap (snd (sweep now timeout ids between sv))) = length (heap sv)"
proof -
  have inv: "store_inv sv" using assms(1) by (simp add: scan_order_def)
  have len: "\<forall>r \<in> set (refs sv ids). r < length (heap sv)" using refs_stored(1) [OF assms(1)] by blast
  then have exlen: "\<forall>r \<in> set ex. r < length (heap sv)" by (simp add: ex)
  note all = evict_all [OF inv exlen, folded sv1]
  show inv2: "store_inv (between sv1)" by (rule only_sessions_inv [OF assms(2) all(6)])
  have hl: "length (heap (between sv1)) = length (heap sv)" using assms(2) all(3) by (simp add: only_sessions_def)
  have wtlen: "distinct wt" "\<forall>r \<in> set wt. r < length (heap (between sv1))"
    using refs_stored(2) [OF assms(1)] len hl by (simp_all add: wt)
  have sub: "set ex2 \<subseteq> set wt" using victims_subset(1) [of "between sv1" wt] by (auto simp: ex2)
  show "\<forall>r \<in> set (ex @ ex2). r < length (heap (between sv1))" using exlen wtlen(2) sub hl by auto
  show "sess sv1 r = (if r \<in> set ex then (sess sv r)\<lparr>s_closed := True\<rparr> else sess sv r)" by (rule all(1))
  have "set ex \<inter> set wt = {}" by (auto simp: ex wt idle_expired_def waiting_def)
  with sub show dis: "set ex \<inter> set ex2 = {}" by blast
  moreover have "distinct ex" "distinct ex2"
    using refs_stored(2) [OF assms(1)] victims_subset(2) [OF wtlen(1)] by (simp_all add: ex ex2)
  ultimately show "distinct (ex @ ex2)" by simp
  have "sweep_scan now timeout ids sv = (sv1, ex, wt)"
    using sweep_scan_result [OF assms(1), of now timeout] by (simp add: ex sv1 wt Let_def)
  moreover have "sweep_cap now wt (between sv1) ex = (fold evict ex2 (between sv1), ex @ ex2)"
    using sweep_cap_result [OF inv2 wtlen] by (simp add: ex2 Let_def)
  ultimately show run: "sweep now timeout ids between sv =
      (ex @ ex2, fold evict_notify (ex @ ex2) (fold evict ex2 (between sv1)))"
    by (simp add: sweep_def)
  have len2: "\<forall>r \<in> set ex2. r < length (heap (between sv1))" using sub wtlen(2) by auto
  note all2 = evict_all [OF inv2 len2]
  have "\<forall>r \<in> set (ex @ ex2). r < length (heap (fold evict ex2 (between sv1)))"
    using all2(3) exlen hl len2 by auto
  note fin = notify_fold [OF this]
  have bw: "sessions (between sv1) = sessions sv1" "disconnects (between sv1) = disconnects sv1"
      "s_ID (sess (between sv1) x) = s_ID (sess sv1 x)" "s_closed (sess sv1 x) \<longrightarrow> s_closed (sess (between sv1) x)" for x
    using assms(2) by (simp_all add: only_sessions_def)
  have "sess (between sv1) r = (sess (between sv1) r)\<lparr>s_closed := True\<rparr>" if "r \<in> set ex"
    using bw(4) [of r] all(1) [of r] that by simp
  then show "sess (snd (sweep now timeout ids between sv)) r =
      (if r \<in> set (ex @ ex2) then closePipes ((sess (between sv1) r)\<lparr>s_closed := True\<rparr>) else sess (between sv1) r)"
    using fin(4) [of r] all2(1) [of r] dis by (auto simp: run)
  have "s_ID (sess (between sv1) x) = s_ID (sess sv x)" for x using bw(3) all(1) by simp
  then show "sessions (snd (sweep now timeout ids between sv)) i =
      (if i \<in> (\<lambda>r. s_ID (sess sv r)) ` set (ex @ ex2) then None else sessions sv i)"
    using fin(1) all2(2) [of i] all(2) [of i] bw(1) by (auto simp: run)
  show "disconnects (snd (sweep now timeout ids between sv)) = disconnects sv @ map (\<lambda>r. (r, ReasonEvicted)) (ex @ ex2)"
    using fin(2) all2(5) bw(2) all(5) by (simp add: run)
  show "length (heap (snd (sweep now timeout ids between sv))) = length (heap sv)"
    using fin(3) all2(3) hl by (simp add: run)
qed

section \<open>Lemmas on histories\<close>

text \<open>Every reported session is closed and out of the store, and none is reported twice.\<close>

definition events_inv :: "server \<Rightarrow> bool" where
  "events_inv sv \<longleftrightarrow> store_inv sv \<and> distinct (map fst (disconnects sv)) \<and>
     (\<forall>r \<in> fst ` set (disconnects sv). s_closed (sess sv r) \<and> \<not> stored sv r)"

text \<open>A change that reports new sessions, all open before and closed after, keeps it.\<close>

lemma events_inv_report:
  assumes "events_inv sv" and "store_inv sv'" and "disconnects sv' = disconnects sv @ map (\<lambda>r. (r, reason r)) rs"
    and "distinct rs" and "\<forall>r \<in> set rs. \<not> s_closed (sess sv r) \<and> s_closed (sess sv' r) \<and> \<not> stored sv' r"
    and "\<forall>r. s_closed (sess sv r) \<longrightarrow> s_closed (sess sv' r)" and "\<forall>r. stored sv' r \<longrightarrow> stored sv r"
  shows "events_inv sv'"
proof -
  have "set rs \<inter> fst ` set (disconnects sv) = {}" using assms(1,5) by (auto simp: events_inv_def)
  then have "distinct (map fst (disconnects sv) @ rs)" using assms(1,4) by (auto simp: events_inv_def)
  moreover have "map fst (disconnects sv') = map fst (disconnects sv) @ rs" by (simp add: assms(3) o_def)
  moreover have "s_closed (sess sv' r) \<and> \<not> stored sv' r" if "r \<in> fst ` set (disconnects sv')" for r
    using that assms(1,3,5,6,7) by (auto simp: events_inv_def)
  ultimately show ?thesis using assms(2) by (simp add: events_inv_def)
qed

lemma removeAndMarkClosed_cases:
  assumes "store_inv sv" and "r < length (heap sv)"
  obtains (no) "removeAndMarkClosed now r idle sv = (False, sv)"
  | (yes) "removeAndMarkClosed now r idle sv = (True, evict r sv)" "stored sv r" "\<not> s_closed (sess sv r)"
      "idle \<Longrightarrow> pollInFlight (sess sv r) = 0 \<and> \<not> inResumeGraceLocked now (sess sv r)"
proof (cases "stored sv r \<and> \<not> s_closed (sess sv r) \<and>
    (idle \<longrightarrow> pollInFlight (sess sv r) = 0 \<and> \<not> inResumeGraceLocked now (sess sv r))")
  case True
  then show ?thesis by (intro yes) (simp_all add: removeAndMarkClosed_def Let_def evict_def stored_def)
next
  case False
  then show ?thesis by (intro no) (auto simp: removeAndMarkClosed_def Let_def stored_def)
qed

lemma store_inv_upd: "store_inv sv \<Longrightarrow> (\<And>s. s_ID (f s) = s_ID s) \<Longrightarrow> r < length (heap sv) \<Longrightarrow> store_inv (upd r f sv)"
  by (simp add: store_inv_def sess_upd)

lemma closing_events:
  assumes "events_inv sv" and "r < length (heap sv)" and "\<not> s_closed (sess sv r)"
  shows "events_inv (OnDisconnect r reason (upd r closePipes (evict r sv)))"
proof (rule events_inv_report [OF assms(1), where rs = "[r]" and reason = "\<lambda>_. reason"])
  note ev = evict_simps [OF assms(2)]
  have len: "r < length (heap (evict r sv))" using ev(3) assms(2) by simp
  have inv: "store_inv sv" using assms(1) by (simp add: events_inv_def)
  show "store_inv (OnDisconnect r reason (upd r closePipes (evict r sv)))"
    using store_inv_upd [OF store_inv_evict [OF inv assms(2)], of closePipes r] len by (simp add: store_inv_def)
qed (use assms evict_simps [OF assms(2)] in \<open>auto simp: sess_upd stored_def split: if_splits\<close>)

lemma sweep_events:
  assumes "events_inv sv" and "distinct ids" and "set ids = dom (sessions sv)"
  shows "events_inv (snd (sweep now timeout ids (\<lambda>x. x) sv))"
proof -
  have inv: "store_inv sv" using assms(1) by (simp add: events_inv_def)
  then have ord: "scan_order sv ids" using assms(2,3) by (simp add: scan_order_def)
  define ex where "ex = filter (\<lambda>r. idle_expired now timeout (sess sv r)) (refs sv ids)"
  define sv1 where "sv1 = fold evict ex sv"
  define wt where "wt = filter (\<lambda>r. waiting now (sess sv r)) (refs sv ids)"
  define ex2 where "ex2 = filter (\<lambda>r. \<not> s_closed (sess sv1 r) \<and> detachedBeyondPollGapLocked now (sess sv1 r)) (victims sv1 wt)"
  note res = sweep_result [OF ord only_sessions_id(2) ex_def sv1_def wt_def ex2_def]
  show ?thesis
  proof (rule events_inv_report [OF assms(1), where rs = "ex @ ex2" and reason = "\<lambda>_. ReasonEvicted"])
    show "store_inv (snd (sweep now timeout ids (\<lambda>x. x) sv))"
      using inv by (auto simp: store_inv_def res(4,7,8,10) split: if_splits)
    have idn: "s_ID (sess (snd (sweep now timeout ids (\<lambda>x. x) sv)) r) = s_ID (sess sv r)" for r
      using res(4,7) [of r] by simp
    show "\<forall>r \<in> set (ex @ ex2). \<not> s_closed (sess sv r) \<and> s_closed (sess (snd (sweep now timeout ids (\<lambda>x. x) sv)) r) \<and>
        \<not> stored (snd (sweep now timeout ids (\<lambda>x. x) sv)) r"
      using res(4,5) by (auto simp: stored_def idn res(7,8) ex_def ex2_def idle_expired_def split: if_splits)
    show "\<forall>r. stored (snd (sweep now timeout ids (\<lambda>x. x) sv)) r \<longrightarrow> stored sv r"
      by (auto simp: stored_def idn res(8) split: if_splits)
  qed (use res in auto)
qed

lemma run_store_events:
  assumes "events_inv sv" and "op_ok (length (heap sv)) op"
  shows "events_inv (run_store op now sv) \<and> length (heap (run_store op now sv)) = length (heap sv)"
proof -
  have inv: "store_inv sv" using assms(1) by (simp add: events_inv_def)
  show ?thesis
  proof (cases op)
    case (OpClose r reason)
    then have "r < length (heap sv)" using assms(2) by simp
    from inv this show ?thesis
    proof (cases rule: removeAndMarkClosed_cases [where now = now and idle = False])
      case yes
      with OpClose closing_events [OF assms(1) \<open>r < length (heap sv)\<close>] show ?thesis
        using evict_simps(3) [OF \<open>r < length (heap sv)\<close>] by (simp add: CloseSession_def closeSession_def)
    qed (use OpClose assms(1) in \<open>simp add: CloseSession_def closeSession_def\<close>)
  next
    case (OpCloseIdle r reason)
    then have "r < length (heap sv)" using assms(2) by simp
    from inv this show ?thesis
    proof (cases rule: removeAndMarkClosed_cases [where now = now and idle = True])
      case yes
      with OpCloseIdle closing_events [OF assms(1) \<open>r < length (heap sv)\<close>] show ?thesis
        using evict_simps(3) [OF \<open>r < length (heap sv)\<close>] by (simp add: CloseSessionIfNoPollInFlight_def)
    qed (use OpCloseIdle assms(1) in \<open>simp add: CloseSessionIfNoPollInFlight_def\<close>)
  next
    case (OpSweep timeout ids)
    show ?thesis
    proof (cases "distinct ids \<and> set ids = dom (sessions sv)")
      case True
      then have "scan_order sv ids" using inv by (simp add: scan_order_def)
      from sweep_result(10) [OF this only_sessions_id(2) refl refl refl refl] show ?thesis
        using OpSweep True sweep_events [OF assms(1)] by simp
    qed (use OpSweep assms(1) in auto)
  next
    case (OpSessionClose r)
    then show ?thesis
      using OpSessionClose assms store_inv_upd [OF inv, of Session_Close r]
      by (auto simp: events_inv_def sess_upd stored_def split: if_splits)
  next
    case (OpHandler r f)
    then show ?thesis
      using assms store_inv_upd [OF inv, of f r] by (auto simp: events_inv_def sess_upd stored_def split: if_splits)
  qed
qed

lemma run_stores_events:
  assumes "\<forall>(op, now) \<in> set ops. op_ok (length (heap sv)) op" and "events_inv sv"
  shows "events_inv (run_stores ops sv) \<and> length (heap (run_stores ops sv)) = length (heap sv)"
  using assms
proof (induction ops arbitrary: sv)
  case (Cons x ops)
  obtain op now where x: "x = (op, now)" by (cases x)
  with Cons.prems run_store_events [OF Cons.prems(2), of op now] Cons.IH [of "run_store op now sv"]
  show ?case by (simp add: run_stores_def)
qed (simp add: run_stores_def)

text \<open>A closed session in the store: no operation removes or reports it.\<close>

definition stuck :: "nat \<Rightarrow> server \<Rightarrow> bool" where
  "stuck r sv \<longleftrightarrow> stored sv r \<and> s_closed (sess sv r) \<and> r \<notin> fst ` set (disconnects sv)"

lemma stuck_other:
  assumes "stuck r sv" and "x < length (heap sv)" and "stored sv x" and "\<not> s_closed (sess sv x)"
  shows "stuck r (OnDisconnect x reason (upd x closePipes (evict x sv)))"
proof -
  note ev = evict_simps [OF assms(2)]
  have "x \<noteq> r" using assms(1,4) by (auto simp: stuck_def)
  moreover from this have "s_ID (sess sv x) \<noteq> s_ID (sess sv r)"
    using assms(1,3) by (auto simp: stuck_def stored_def)
  moreover have "sess (OnDisconnect x reason (upd x closePipes (evict x sv))) r = sess sv r"
    using \<open>x \<noteq> r\<close> ev(1,3) assms(2) by (simp add: sess_upd)
  ultimately show ?thesis using assms(1) ev(2,5) by (auto simp: stuck_def stored_def)
qed

lemma stuck_step:
  assumes "stuck r sv" and "events_inv sv" and "op_ok (length (heap sv)) op"
  shows "stuck r (run_store op now sv)"
proof -
  have inv: "store_inv sv" using assms(2) by (simp add: events_inv_def)
  show ?thesis
  proof (cases op)
    case (OpClose x reason)
    then have x: "x < length (heap sv)" using assms(3) by simp
    from inv x show ?thesis
      by (cases rule: removeAndMarkClosed_cases [where now = now and idle = False])
        (use OpClose assms(1) stuck_other [OF assms(1) x] in \<open>simp_all add: CloseSession_def closeSession_def\<close>)
  next
    case (OpCloseIdle x reason)
    then have x: "x < length (heap sv)" using assms(3) by simp
    from inv x show ?thesis
      by (cases rule: removeAndMarkClosed_cases [where now = now and idle = True])
        (use OpCloseIdle assms(1) stuck_other [OF assms(1) x] in \<open>simp_all add: CloseSessionIfNoPollInFlight_def\<close>)
  next
    case (OpSweep timeout ids)
    show ?thesis
    proof (cases "distinct ids \<and> set ids = dom (sessions sv)")
      case True
      then have ord: "scan_order sv ids" using inv by (simp add: scan_order_def)
      define ex where "ex = filter (\<lambda>r. idle_expired now timeout (sess sv r)) (refs sv ids)"
      define sv1 where "sv1 = fold evict ex sv"
      define ex2 where "ex2 = filter (\<lambda>r. \<not> s_closed (sess sv1 r) \<and> detachedBeyondPollGapLocked now (sess sv1 r))
          (victims sv1 (filter (\<lambda>r. waiting now (sess sv r)) (refs sv ids)))"
      note res = sweep_result [OF ord only_sessions_id(2) ex_def sv1_def refl ex2_def]
      have all: "x < length (heap sv) \<and> stored sv x \<and> \<not> s_closed (sess sv x)" if "x \<in> set (ex @ ex2)" for x
        using that refs_stored(1) [OF ord, of x] victims_subset(1) [of sv1 "filter (\<lambda>r. waiting now (sess sv r)) (refs sv ids)"]
        by (auto simp: ex_def ex2_def idle_expired_def waiting_def)
      then have r: "r \<notin> set (ex @ ex2)" "s_ID (sess sv r) \<notin> (\<lambda>x. s_ID (sess sv x)) ` set (ex @ ex2)"
        using assms(1) by (auto simp: stuck_def stored_def)
      then have "sess (snd (sweep now timeout ids (\<lambda>x. x) sv)) r = sess sv r"
        using res(4,7) [of r] by simp
      with r assms(1) show ?thesis
        using True OpSweep res(8,9) by (auto simp: stuck_def stored_def)
    qed (use OpSweep assms(1) in auto)
  next
    case (OpSessionClose x)
    then show ?thesis using OpSessionClose assms(1,3) by (auto simp: stuck_def stored_def sess_upd)
  next
    case (OpHandler x f)
    then show ?thesis using assms(1,3) by (auto simp: stuck_def stored_def sess_upd)
  qed
qed

lemma s_ID_step:
  assumes "events_inv sv" and "op_ok (length (heap sv)) op"
  shows "s_ID (sess (run_store op now sv) r) = s_ID (sess sv r)"
proof -
  have inv: "store_inv sv" using assms(1) by (simp add: events_inv_def)
  show ?thesis
  proof (cases op)
    case (OpClose x reason)
    then have x: "x < length (heap sv)" using assms(2) by simp
    note ev = evict_simps [OF x]
    from inv x show ?thesis
      by (cases rule: removeAndMarkClosed_cases [where now = now and idle = False])
        (use OpClose x ev(1,3) in \<open>simp_all add: CloseSession_def closeSession_def sess_upd\<close>)
  next
    case (OpCloseIdle x reason)
    then have x: "x < length (heap sv)" using assms(2) by simp
    note ev = evict_simps [OF x]
    from inv x show ?thesis
      by (cases rule: removeAndMarkClosed_cases [where now = now and idle = True])
        (use OpCloseIdle x ev(1,3) in \<open>simp_all add: CloseSessionIfNoPollInFlight_def sess_upd\<close>)
  next
    case (OpSweep timeout ids)
    show ?thesis
    proof (cases "distinct ids \<and> set ids = dom (sessions sv)")
      case True
      then have ord: "scan_order sv ids" using inv by (simp add: scan_order_def)
      note res = sweep_result [OF ord only_sessions_id(2) refl refl refl refl, of now timeout]
      show ?thesis using OpSweep True res(4,7) [of r] by simp
    qed (use OpSweep in auto)
  next
    case (OpSessionClose x)
    then show ?thesis using assms(2) by (simp add: sess_upd)
  next
    case (OpHandler x f)
    then show ?thesis using assms(2) by (simp add: sess_upd)
  qed
qed

lemma stuck_run:
  assumes "\<forall>(op, now) \<in> set ops. op_ok (length (heap sv)) op" and "stuck r sv" and "events_inv sv"
  shows "stuck r (run_stores ops sv) \<and> s_ID (sess (run_stores ops sv) r) = s_ID (sess sv r)"
  using assms
proof (induction ops arbitrary: sv)
  case (Cons x ops)
  obtain op now where x: "x = (op, now)" by (cases x)
  have ok: "op_ok (length (heap sv)) op" using Cons.prems(1) x by simp
  note ev = run_store_events [OF Cons.prems(3) ok, of now]
  have "stuck r (run_stores ops (run_store op now sv)) \<and>
      s_ID (sess (run_stores ops (run_store op now sv)) r) = s_ID (sess (run_store op now sv) r)"
    by (rule Cons.IH) (use Cons.prems ev stuck_step [OF Cons.prems(2,3) ok, of now] in simp_all)
  then show ?case using s_ID_step [OF Cons.prems(3) ok, of now r] by (simp add: run_stores_def x)
qed (simp add: run_stores_def)

section \<open>Properties\<close>


text \<open>
  C32: The sweeper enforces the cap on sessions waiting to be resumed, and fairly. With a positive
  cap, after a sweep that nobody interferes with at most that many stored sessions wait, and
  every waiting session it evicted has been detached at least as long as every one it kept.
\<close>

theorem sweep_caps_waiting:
  assumes "scan_order sv ids" and "maxDetachedResumable sv > 0"
    and "sweep now timeout ids (\<lambda>x. x) sv = (expired, sv')"
  shows "int (card {r. r < length (heap sv) \<and> stored sv' r \<and> waiting now (sess sv' r)}) \<le> maxDetachedResumable sv \<and>
    (\<forall>v \<in> set expired. \<forall>u. waiting now (sess sv v) \<longrightarrow> u < length (heap sv) \<longrightarrow> stored sv' u \<longrightarrow> waiting now (sess sv' u) \<longrightarrow>
       s_detachedAt (sess sv v) \<le> s_detachedAt (sess sv' u))"
proof -
  define ex where "ex = filter (\<lambda>r. idle_expired now timeout (sess sv r)) (refs sv ids)"
  define sv1 where "sv1 = fold evict ex sv"
  define wt where "wt = filter (\<lambda>r. waiting now (sess sv r)) (refs sv ids)"
  define ex2 where "ex2 = filter (\<lambda>r. \<not> s_closed (sess sv1 r) \<and> detachedBeyondPollGapLocked now (sess sv1 r)) (victims sv1 wt)"
  note res = sweep_result [OF assms(1) only_sessions_id(2) ex_def sv1_def wt_def ex2_def]
  have "fst (sweep now timeout ids (\<lambda>x. x) sv) = ex @ ex2" by (simp only: res(1) fst_conv)
  then have out: "expired = ex @ ex2" "sv' = snd (sweep now timeout ids (\<lambda>x. x) sv)" using assms(3) by simp_all
  have inv: "store_inv sv" using assms(1) by (simp add: scan_order_def)
  have m: "maxDetachedResumable sv1 = maxDetachedResumable sv"
    using evict_all(4) [OF inv, of ex] refs_stored(1) [OF assms(1)] by (simp add: sv1_def ex_def)
  have wt: "distinct wt" "sess sv1 r = sess sv r" if "r \<in> set wt" for r
    using refs_stored(2) [OF assms(1)] res(4) [of r] that by (auto simp: wt_def ex_def idle_expired_def waiting_def)
  have dis: "distinct wt" using refs_stored(2) [OF assms(1)] by (simp add: wt_def)
  have vic: "ex2 = victims sv1 wt"
    unfolding ex2_def
  proof (rule filter_True, rule ballI)
    fix r
    assume "r \<in> set (victims sv1 wt)"
    then have r: "r \<in> set wt" using victims_subset(1) by blast
    then show "\<not> s_closed (sess sv1 r) \<and> detachedBeyondPollGapLocked now (sess sv1 r)"
      using wt(2) [OF r] by (simp add: wt_def waiting_def detachedBeyondPollGapLocked_def)
  qed
  note keep = victims_keep [OF dis, of sv1, unfolded m, OF assms(2), folded vic]
  have left: "u \<in> set wt - set ex2 \<and> sess sv' u = sess sv u"
    if "u < length (heap sv)" "stored sv' u" "waiting now (sess sv' u)" for u
  proof -
    have open': "\<not> s_closed (sess sv' u)" using that(3) by (simp add: waiting_def)
    then have u: "u \<notin> set (ex @ ex2)" using res(7) [of u] by (auto simp: out(2))
    then have same: "sess sv' u = sess sv u" using res(4,7) [of u] by (simp add: out(2))
    have "stored sv u"
      using that(2) res(8) [of "s_ID (sess sv u)"] by (auto simp: stored_def same out(2) [symmetric] split: if_splits)
    with that(1) have "u \<in> set (refs sv ids)" using refs_stored(1) [OF assms(1)] by blast
    with u that(3) same show ?thesis by (simp add: wt_def)
  qed
  have "{r. r < length (heap sv) \<and> stored sv' r \<and> waiting now (sess sv' r)} \<subseteq> set wt - set ex2" using left by blast
  then have "card {r. r < length (heap sv) \<and> stored sv' r \<and> waiting now (sess sv' r)} \<le> card (set wt - set ex2)"
    by (intro card_mono) simp_all
  moreover have "v \<in> set ex2" if "v \<in> set expired" "waiting now (sess sv v)" for v
    using that by (auto simp: out(1) ex_def idle_expired_def waiting_def)
  ultimately show ?thesis
    using keep left wt(2) victims_subset(1) [of sv1 wt, folded vic] by (fastforce simp: subset_iff)
qed

text \<open>
  C33: The end of a session is reported at most once. However closes by the application and the
  handlers, conditional closes, sweeps, direct closes of the session and handlers interleave,
  no session is reported to \<^verbatim>\<open>OnDisconnect\<close> twice, every reported one is closed and out of the
  store, and the store still maps every id to the session that has it.
\<close>

theorem disconnect_once:
  assumes "\<forall>(op, now) \<in> set ops. op_ok (length (heap sv)) op" and "store_inv sv" and "disconnects sv = []"
    and "run_stores ops sv = sv'"
  shows "distinct (map fst (disconnects sv')) \<and> store_inv sv' \<and>
    (\<forall>(r, reason) \<in> set (disconnects sv'). s_closed (sess sv' r) \<and> \<not> stored sv' r)"
proof -
  have "events_inv sv" using assms(2,3) by (simp add: events_inv_def)
  from run_stores_events [OF assms(1) this] assms(4) have "events_inv sv'" by simp
  then show ?thesis by (auto simp: events_inv_def)
qed


section \<open>Witnesses\<close>

text \<open>Two sessions waiting to be resumed, the first detached for longer, and a cap of one.\<close>

definition sample_server :: server where
  "sample_server =
     \<lparr>heap = [sample_session, sample_session\<lparr>s_ID := ''b'', s_detachedAt := 5\<rparr>],
      sessions = [''a'' \<mapsto> 0, ''b'' \<mapsto> 1], maxDetachedResumable = 1, disconnects = []\<rparr>"

lemma sample_server_ok:
  "scan_order sample_server [''a'', ''b'']" "store_inv sample_server" "stored sample_server 0" "disconnects sample_server = []"
  by (auto simp: scan_order_def store_inv_def sample_server_def sample_session_def enableResume_def newSession_def
      stored_def split: if_splits)

lemmas sample_server_simps = sample_server_def sample_session_def enableResume_def newSession_def Resumable_def
  isBroken_def newReliable_def


theorem sweep_caps_waiting_witness:
  "\<exists>sv'. sweep 20 100 [''a'', ''b''] (\<lambda>x. x) sample_server = ([0], sv') \<and>
     card {r. r < 2 \<and> stored sv' r \<and> waiting 20 (sess sv' r)} \<le> 1"
proof -
  have scan: "sweep_scan 20 100 [''a'', ''b''] sample_server = (sample_server, [], [0, 1])"
    by (simp add: sweep_scan_def sweep_visit_def sample_server_simps Let_def detachedBeyondPollGapLocked_def)
  have "sweep_cap 20 [0, 1] sample_server [] = (evict 0 sample_server, [0])"
    by (simp add: sweep_cap_def cap_visit_def sample_server_simps Let_def detachedBeyondPollGapLocked_def evict_def)
  with scan obtain sv' where run: "sweep 20 100 [''a'', ''b''] (\<lambda>x. x) sample_server = ([0], sv')"
    by (simp add: sweep_def)
  have two: "length (heap sample_server) = 2" and one: "maxDetachedResumable sample_server = 1"
    by (simp_all add: sample_server_def)
  have "int (card {r. r < 2 \<and> stored sv' r \<and> waiting 20 (sess sv' r)}) \<le> 1"
    using sweep_caps_waiting [OF sample_server_ok(1) _ run] unfolding two one by linarith
  with run show ?thesis by auto
qed

theorem disconnect_once_witness:
  "let sv' = run_stores [(OpClose 0 ReasonEvicted, 1), (OpClose 0 ReasonEvicted, 2), (OpSweep 100 [''b''], 90)] sample_server
   in distinct (map fst (disconnects sv')) \<and> store_inv sv'"
  using disconnect_once [of "[(OpClose 0 ReasonEvicted, 1), (OpClose 0 ReasonEvicted, 2), (OpSweep 100 [''b''], 90)]" sample_server,
      OF _ sample_server_ok(2,4) refl]
  by (simp add: Let_def sample_server_def)


end
