(* ===== verification/Batch.thy ===== *)
theory Batch
  imports Stream Store Link
begin

text \<open>
  \<^verbatim>\<open>batch.go\<close>: resumable batches. The server's handler \<open>pollBatchResumable\<close> owns one direction
  for one request; the client's \<open>doBatchPoll\<close> and \<open>doBatchSend\<close> are the request each builds
  and what it does with the answer. Bodies are raw, offsets travel in headers.

  The handler's environment says how the waits inside \<open>attach\<close> end, what other goroutines do to
  the server before and after the handler has the direction and between its locked sections,
  whether the request was cancelled, and the schedule of the long poll.

  The properties: one exchange of a poll hands the client exactly the next bytes of the
  stream and loses none when the answer is lost or cut; one upload adds its whole body or
  nothing.
\<close>

section \<open>The server\<close>

record batch_env =
  be_attach :: "(bool \<times> (attachments \<Rightarrow> attachments)) list"
  be_started :: "server \<Rightarrow> server"
  be_ctxDone :: bool
  be_between :: "session \<Rightarrow> session"
  be_wait :: schedule
  be_meanwhile :: "reliable \<Rightarrow> reliable"
  be_ctxDone2 :: bool
  be_finish :: "server \<Rightarrow> server"

definition bodyIsEmpty :: "reader \<Rightarrow> bool" where
  "bodyIsEmpty body = (read_all_limit 1 body = Inr [])"

text \<open>The answer to an accepted upload, and to a poll with and without data.\<close>

definition batch_ok :: "u64 \<Rightarrow> response" where
  "batch_ok recv =
     \<lparr>rp_status = 200, rp_header = header_Set (setBatchOffset no_header HeaderRecvOffset recv) ''Content-Length'' ''0'',
      rp_body = NoBody\<rparr>"

definition batch_idle :: "u64 \<Rightarrow> response" where
  "batch_idle recv = \<lparr>rp_status = 204, rp_header = setBatchOffset no_header HeaderRecvOffset recv, rp_body = NoBody\<rparr>"

definition batch_data :: "u64 \<Rightarrow> u64 \<Rightarrow> bytes \<Rightarrow> response" where
  "batch_data recv off d =
     \<lparr>rp_status = 200,
      rp_header = header_Set (setBatchOffset (setBatchOffset no_header HeaderRecvOffset recv) HeaderSendOffset off)
        ''Content-Length'' (dec_digits (length d)),
      rp_body = Raw d\<rparr>"

text \<open>The session's received offset, for a response.\<close>

definition recv_now :: "session \<Rightarrow> u64" where
  "recv_now s = (case s_rs s of None \<Rightarrow> 0 | Some r \<Rightarrow> recvOffsetNow r)"

definition batch_upload :: "u64 \<Rightarrow> u64 \<Rightarrow> bytes \<Rightarrow> (session \<Rightarrow> session) \<Rightarrow> session \<Rightarrow> (response \<times> session) option" where
  "batch_upload ackn off data between s =
     (case rs_ack ackn s of
        None \<Rightarrow> None
      | Some (Some _, s1) \<Rightarrow> Some (writeError 400, s1)
      | Some (None, s1) \<Rightarrow>
          (case rs_recvIn off data (between s1) of
             None \<Rightarrow> None
           | Some (Some e, s2) \<Rightarrow> Some (writeError (if e = ErrClosedPipe then 410 else 400), s2)
           | Some (None, s2) \<Rightarrow> Some (batch_ok (recv_now s2), s2)))"

definition batch_download :: "nat \<Rightarrow> u64 \<Rightarrow> batch_env \<Rightarrow> session \<Rightarrow> (response option \<times> session) outcome" where
  "batch_download cap ackn env s =
     (case rs_ack ackn s of
        None \<Rightarrow> Panics
      | Some (Some _, s1) \<Rightarrow> Returns (Some (writeError 400), s1)
      | Some (None, s1) \<Rightarrow>
          let s2 = be_between env s1 in
          (case s_rs s2 of
             None \<Rightarrow> Panics
           | Some r \<Rightarrow>
               (case nextOut cap (rewindToAcked r) (be_meanwhile env) (toClient s2) (be_wait env) of
                  Panics \<Rightarrow> Panics
                | Sleeps \<Rightarrow> Sleeps
                | Returns (res, r', p) \<Rightarrow>
                    let s3 = s2\<lparr>s_rs := Some r', toClient := p\<rparr> in
                    if be_ctxDone2 env then Returns (None, s3)
                    else
                      (case res of
                         Inl e \<Rightarrow>
                           if e = EOF then Returns (Some (writeError 410), s3)
                           else if e \<noteq> ErrPipeInterrupted then Returns (Some (writeError 500), s3)
                           else Returns (Some (batch_idle (recv_now s3)), s3)
                       | Inr (off, d) \<Rightarrow>
                           if d = [] then Returns (Some (batch_idle (recv_now s3)), s3)
                           else Returns (Some (batch_data (recv_now s3) off d), s3)))))"

text \<open>What the handler does while it owns the direction.\<close>

definition batch_owned :: "ServerConfig \<Rightarrow> request \<Rightarrow> bool \<Rightarrow> u64 \<Rightarrow> u64 \<Rightarrow> batch_env \<Rightarrow> instant \<Rightarrow> nat \<Rightarrow> server
    \<Rightarrow> (response option \<times> server) outcome" where
  "batch_owned cfg rq send ackn off env now ref sv =
     (case (if send then read_all_max (cfg_MaxSendBytes cfg) (rq_body rq) else Inr []) of
        Inl e \<Rightarrow>
          if e = ErrBodyTooLarge then Returns (Some (writeError 413), closeSession now ref ReasonProtocolViolation sv)
          else Returns (Some (writeError 400), sv)
      | Inr data \<Rightarrow>
          if be_ctxDone env then Returns (None, sv)
          else if send then
            (case batch_upload ackn off data (be_between env) (sess sv ref) of
               None \<Rightarrow> Panics
             | Some (resp, s') \<Rightarrow> Returns (Some resp, upd ref (\<lambda>_. s') sv))
          else
            (case batch_download (nat (cfg_PollBufferSize cfg)) ackn env (sess sv ref) of
               Panics \<Rightarrow> Panics
             | Sleeps \<Rightarrow> Sleeps
             | Returns (resp, s') \<Rightarrow> Returns (resp, upd ref (\<lambda>_. s') sv)))"

definition pollBatchResumable :: "ServerConfig \<Rightarrow> request \<Rightarrow> bool \<Rightarrow> att \<Rightarrow> batch_env \<Rightarrow> instant \<Rightarrow> nat \<Rightarrow> server
    \<Rightarrow> (response option \<times> server) outcome" where
  "pollBatchResumable cfg rq send att env now ref sv =
     (case batchOffset (rq_header rq) HeaderRecvOffset of
        Inl _ \<Rightarrow> Returns (Some (writeError 400), sv)
      | Inr ackn \<Rightarrow>
          (case (if send then batchOffset (rq_header rq) HeaderSendOffset
                 else if rq_ContentLength rq \<noteq> 0 \<and> \<not> bodyIsEmpty (rq_body rq) then Inl ErrUnexpectedBody
                 else Inr 0) of
             Inl _ \<Rightarrow> Returns (Some (writeError 400), sv)
           | Inr off \<Rightarrow>
               (case s_att (sess sv ref) of
                  None \<Rightarrow> Panics
                | Some a \<Rightarrow>
                    (case attach (if send then attachUp else attachDown) att a (be_attach env) of
                       None \<Rightarrow> Sleeps
                     | Some (Some _, a') \<Rightarrow> Returns (Some (writeError 503), upd ref (\<lambda>s. s\<lparr>s_att := Some a'\<rparr>) sv)
                     | Some (None, a') \<Rightarrow>
                         (case batch_owned cfg rq send ackn off env now ref
                                 (be_started env (upd ref (\<lambda>s. s\<lparr>s_att := Some a'\<rparr>) sv)) of
                            Panics \<Rightarrow> Panics
                          | Sleeps \<Rightarrow> Sleeps
                          | Returns (resp, sv') \<Rightarrow> Returns (resp, upd ref (detach_session att) (be_finish env sv')))))))"

section \<open>The client\<close>

text \<open>The part of a \<^verbatim>\<open>resumableConn\<close> the batch legs use: the layer, its two pipes, and what was negotiated.\<close>

record batch_conn =
  bc_rl :: reliable
  bc_in :: pipe
  bc_out :: pipe
  bc_maxFrame :: int
  bc_maxSendChunk :: nat
  bc_pollStream :: bool
  bc_pollInterval :: duration

definition bc_ack :: "u64 \<Rightarrow> batch_conn \<Rightarrow> (error option \<times> batch_conn) option" where
  "bc_ack n c = map_option (\<lambda>(e, r). (e, c\<lparr>bc_rl := r\<rparr>)) (ack n (bc_rl c))"

definition bc_recvIn :: "u64 \<Rightarrow> bytes \<Rightarrow> batch_conn \<Rightarrow> (error option \<times> batch_conn) option" where
  "bc_recvIn off d c =
     map_option (\<lambda>(e, r, i, out). (e, c\<lparr>bc_rl := r, bc_in := i, bc_out := out\<rparr>)) (recvIn off d (bc_rl c) (bc_in c) (bc_out c))"

text \<open>\<open>doBatchPoll\<close>: the request, and what becomes of the answer. The health header is not modelled.\<close>

definition doBatchPoll_request :: "batch_conn \<Rightarrow> request" where
  "doBatchPoll_request c =
     \<lparr>rq_header = setBatchOffset (header_Set no_header HeaderReceiveOnly ''true'') HeaderRecvOffset (recvOffsetNow (bc_rl c)),
      rq_ContentLength = 0, rq_body = \<lparr>r_chunks = [], r_end = EOF\<rparr>\<rparr>"

definition doBatchPoll :: "error + wire \<Rightarrow> batch_conn \<Rightarrow> ((error + bool) \<times> batch_conn) option" where
  "doBatchPoll answer c =
     (case answer of
        Inl e \<Rightarrow> Some (Inl e, c)
      | Inr resp \<Rightarrow>
          if wr_status resp \<noteq> 200 \<and> wr_status resp \<noteq> 204 then Some (Inl (ErrStatus (wr_status resp)), c)
          else
            (case read_all_limit (nat (bc_maxFrame c) + 1) (wr_body resp) of
               Inl e \<Rightarrow> Some (Inl (if wr_status resp = 200 \<and> e = ErrTimeout then ErrBatchBodyTimeout else e), c)
             | Inr data \<Rightarrow>
                 if int (length data) > bc_maxFrame c then Some (Inl ErrBatchTooLong, c)
                 else if wr_status resp = 200 \<and> data = [] then Some (Inl ErrEmptyBatch, c)
                 else
                   (case batchOffset (wr_header resp) HeaderRecvOffset of
                      Inl e \<Rightarrow> Some (Inl e, c)
                    | Inr ackn \<Rightarrow>
                        (case (if wr_status resp = 200 then
                                 (case batchOffset (wr_header resp) HeaderSendOffset of
                                    Inl e \<Rightarrow> Some (Some e, c)
                                  | Inr off \<Rightarrow> bc_recvIn off data c)
                               else Some (None, c)) of
                           None \<Rightarrow> None
                         | Some (Some e, c1) \<Rightarrow> Some (Inl e, c1)
                         | Some (None, c1) \<Rightarrow>
                             (case bc_ack ackn c1 of
                                None \<Rightarrow> None
                              | Some (Some e, c2) \<Rightarrow> Some (Inl e, c2)
                              | Some (None, c2) \<Rightarrow> Some (Inr (data \<noteq> []), c2))))))"

definition doBatchSend_request :: "u64 \<Rightarrow> bytes \<Rightarrow> batch_conn \<Rightarrow> request" where
  "doBatchSend_request off data c =
     \<lparr>rq_header =
        setBatchOffset
          (setBatchOffset
            (header_Set (header_Set no_header HeaderSendOnly ''true'') ''Content-Type'' ''application/octet-stream'')
            HeaderSendOffset off)
          HeaderRecvOffset (recvOffsetNow (bc_rl c)),
      rq_ContentLength = int (length data), rq_body = \<lparr>r_chunks = [data], r_end = EOF\<rparr>\<rparr>"

definition doBatchSend :: "error + wire \<Rightarrow> batch_conn \<Rightarrow> (error option \<times> batch_conn) option" where
  "doBatchSend answer c =
     (case answer of
        Inl e \<Rightarrow> Some (Some e, c)
      | Inr resp \<Rightarrow>
          if wr_status resp \<noteq> 200 then Some (Some (ErrStatus (wr_status resp)), c)
          else
            (case read_all_limit 1 (wr_body resp) of
               Inl e \<Rightarrow> Some (Some e, c)
             | Inr body \<Rightarrow>
                 if body \<noteq> [] then Some (Some ErrUnexpectedBody, c)
                 else
                   (case batchOffset (wr_header resp) HeaderRecvOffset of
                      Inl e \<Rightarrow> Some (Some e, c)
                    | Inr ackn \<Rightarrow> bc_ack ackn c)))"

text \<open>
  The two loops, one turn at a time: what the other leg does meanwhile, the answer to the turn's
  request, whether the pause ended without the context being cancelled, and whether it is now.
\<close>

record down_turn =
  dt_others :: "batch_conn \<Rightarrow> batch_conn"
  dt_answer :: "error + wire"
  dt_slept :: bool
  dt_ctxDone :: bool

fun batchDownLoop :: "down_turn list \<Rightarrow> batch_conn \<Rightarrow> (error \<times> batch_conn) outcome" where
  "batchDownLoop [] c = Sleeps"
| "batchDownLoop (t # ts) c =
     (case doBatchPoll (dt_answer t) (dt_others t c) of
        None \<Rightarrow> Panics
      | Some (Inl e, c1) \<Rightarrow> Returns (e, c1)
      | Some (Inr got, c1) \<Rightarrow>
          if \<not> got \<and> bc_pollInterval c1 > 0 \<and> \<not> dt_slept t then Returns (ErrCanceled, c1)
          else if dt_ctxDone t then Returns (ErrCanceled, c1)
          else batchDownLoop ts c1)"

record up_turn =
  ut_others :: "batch_conn \<Rightarrow> batch_conn"
  ut_wait :: schedule
  ut_meanwhile :: "reliable \<Rightarrow> reliable"
  ut_ctxDone :: bool
  ut_answer :: "error + wire"

fun batch_up_turns :: "up_turn list \<Rightarrow> batch_conn \<Rightarrow> (error \<times> batch_conn) outcome" where
  "batch_up_turns [] c = Sleeps"
| "batch_up_turns (t # ts) c =
     (let c0 = ut_others t c in
      case nextOut (bc_maxSendChunk c0) (bc_rl c0) (ut_meanwhile t) (bc_out c0) (ut_wait t) of
        Panics \<Rightarrow> Panics
      | Sleeps \<Rightarrow> Sleeps
      | Returns (res, r1, out1) \<Rightarrow>
          let c1 = c0\<lparr>bc_rl := r1, bc_out := out1\<rparr> in
          if ut_ctxDone t then Returns (ErrCanceled, c1)
          else if isl res \<and> res \<noteq> Inl ErrPipeInterrupted then Returns (projl res, c1)
          else
            (case takeAck r1 of (due, r2) \<Rightarrow>
               let c2 = c1\<lparr>bc_rl := r2\<rparr>; d = (case res of Inr (_, d) \<Rightarrow> d | Inl _ \<Rightarrow> []) in
               if d = [] \<and> (due = None \<or> \<not> bc_pollStream c2) then batch_up_turns ts c2
               else
                 (case doBatchSend (ut_answer t) c2 of
                    None \<Rightarrow> Panics
                  | Some (Some e, c3) \<Rightarrow> Returns (e, c3)
                  | Some (None, c3) \<Rightarrow> batch_up_turns ts c3)))"

definition batchUpLoop :: "up_turn list \<Rightarrow> batch_conn \<Rightarrow> (error \<times> batch_conn) outcome" where
  "batchUpLoop ts c = batch_up_turns ts (c\<lparr>bc_rl := resetAck (bc_rl c)\<rparr>)"

section \<open>Specification\<close>

text \<open>
  A sender whose application has written \<open>str\<close>: the layer has sent a prefix of it and retains
  the part that is not acknowledged, the pipe holds the rest.
\<close>

definition holds :: "bytes \<Rightarrow> reliable \<Rightarrow> pipe \<Rightarrow> bool" where
  "holds str r out \<longleftrightarrow>
     rel_inv r \<and> length str < 2 ^ 64 \<and> unat (sendOffset r) \<le> length str \<and> p_buf out = drop (unat (sendOffset r)) str \<and>
     (\<not> broken r \<longrightarrow> replay r = segment str (unat (ackedOffset r)) (unat (sendOffset r) - unat (ackedOffset r)))"

text \<open>What other goroutines do to a layer while one of its directions is sending: nothing to that direction.\<close>

definition same_send :: "reliable \<Rightarrow> reliable \<Rightarrow> bool" where
  "same_send r r' \<longleftrightarrow>
     sendOffset r' = sendOffset r \<and> ackedOffset r' = ackedOffset r \<and> sentCursor r' = sentCursor r \<and> replay r' = replay r \<and>
     maxReplay r' = maxReplay r \<and> broken r' = broken r \<and> lastAck r' \<le> recvOffset r'"

definition calm :: "(reliable \<Rightarrow> reliable) \<Rightarrow> bool" where
  "calm f \<longleftrightarrow> (\<forall>r. rel_inv r \<longrightarrow> same_send r (f r))"

definition calm_session :: "(session \<Rightarrow> session) \<Rightarrow> bool" where
  "calm_session f \<longleftrightarrow>
     (\<forall>s r. s_rs s = Some r \<longrightarrow> rel_inv r \<longrightarrow> toClient (f s) = toClient s \<and> (\<exists>r'. s_rs (f s) = Some r' \<and> same_send r r'))"

text \<open>What the application writes while \<open>nextOut\<close> waits.\<close>

definition wait_writes :: "nat \<Rightarrow> reliable \<Rightarrow> pipe \<Rightarrow> schedule \<Rightarrow> bytes" where
  "wait_writes cap r out sch =
     (if \<not> broken r \<and> sentCursor r < sendOffset r then []
      else case ReadAvailable cap out sch of
             None \<Rightarrow> []
           | Some (_, _, sch') \<Rightarrow> written_by (p_closed out) (slept sch sch'))"

section \<open>Lemmas\<close>

lemma rel_inv_same_send: "rel_inv r \<Longrightarrow> same_send r r' \<Longrightarrow> rel_inv r'"
  by (auto simp: same_send_def rel_inv_def)

lemma holds_same_send: "holds str r out \<Longrightarrow> same_send r r' \<Longrightarrow> holds str r' out"
  using rel_inv_same_send by (auto simp: holds_def same_send_def)

lemma holds_ack:
  assumes "holds str r out" and "ack n r = Some (e, r')"
  shows "holds str r' out" and "\<not> broken r \<Longrightarrow> n \<le> sendOffset r \<Longrightarrow> e = None \<and> \<not> broken r' \<and> sendOffset r' = sendOffset r \<and>
     ackedOffset r' = max (ackedOffset r) n"
proof -
  have inv: "rel_inv r" and rep: "\<not> broken r \<Longrightarrow> replay r = segment str (unat (ackedOffset r)) (unat (sendOffset r) - unat (ackedOffset r))"
    using assms(1) by (simp_all add: holds_def)
  have "holds str r' out \<and> (\<not> broken r \<longrightarrow> n \<le> sendOffset r \<longrightarrow> e = None \<and> \<not> broken r' \<and> sendOffset r' = sendOffset r \<and>
     ackedOffset r' = max (ackedOffset r) n)"
    using inv
  proof (cases rule: ack_cases [of r n])
    case moves
    let ?r = "r\<lparr>replay := drop (unat n - unat (ackedOffset r)) (replay r), ackedOffset := n, sentCursor := max (sentCursor r) n\<rparr>"
    have le: "unat (ackedOffset r) \<le> unat n" using moves(3) by (simp add: word_less_nat_alt)
    have "sentCursor r \<le> sendOffset r" using inv by (simp add: rel_inv_def)
    then have "rel_inv ?r" using release(2) [OF inv moves(2) _ moves(1), of "max (sentCursor r) n"] moves(1,3) by simp
    moreover have "drop (unat n - unat (ackedOffset r)) (replay r) = segment str (unat n) (unat (sendOffset r) - unat n)"
      using rep [OF moves(2)] le by (simp add: drop_segment)
    ultimately have "holds str ?r out" using assms(1) by (simp add: holds_def)
    moreover have "max (ackedOffset r) n = n" using moves(3) by simp
    ultimately show ?thesis using moves assms(2) by simp
  qed (use assms rel_inv_markBroken [OF inv] in \<open>auto simp: holds_def max_def not_less\<close>)
  then show "holds str r' out" "\<not> broken r \<Longrightarrow> n \<le> sendOffset r \<Longrightarrow> e = None \<and> \<not> broken r' \<and> sendOffset r' = sendOffset r \<and>
     ackedOffset r' = max (ackedOffset r) n" by blast+
qed

lemma holds_rewind: "holds str r out \<Longrightarrow> holds str (rewindToAcked r) out"
  by (auto simp: holds_def rewindToAcked_def rel_inv_def)

lemma segment_new: "p_buf out = drop n str \<Longrightarrow> p_buf out @ ws = d @ rest \<Longrightarrow> n \<le> length str \<Longrightarrow>
    d = segment (str @ ws) n (length d) \<and> rest = drop (n + length d) (str @ ws)"
proof -
  assume a: "p_buf out = drop n str" "p_buf out @ ws = d @ rest" "n \<le> length str"
  then have "drop n (str @ ws) = d @ rest" by simp
  moreover have "drop (n + length d) (str @ ws) = drop (length d) (drop n (str @ ws))"
    by (simp only: drop_drop add.commute)
  ultimately show ?thesis by (simp only: segment_def) simp
qed

text \<open>Numbering what the pipe hands out, after \<open>ws\<close> was written, keeps the stream.\<close>

lemma holds_number:
  assumes "holds str r out" and "same_send r r1" and "p_buf out @ ws = d @ p_buf out'" and "length (str @ ws) < 2 ^ 64"
    and "nextOut_number d r1 = (off, r2)"
  shows "holds (str @ ws) r2 out' \<and> off = sendOffset r \<and> d = segment (str @ ws) (unat off) (length d) \<and>
    unat off + length d \<le> length (str @ ws) \<and> (ackedOffset r2 = ackedOffset r \<or> broken r2) \<and> recvOffset r2 = recvOffset r1"
proof -
  have h: "rel_inv r" "unat (sendOffset r) \<le> length str" "p_buf out = drop (unat (sendOffset r)) str"
    and rep: "\<not> broken r \<Longrightarrow> replay r = segment str (unat (ackedOffset r)) (unat (sendOffset r) - unat (ackedOffset r))"
    using assms(1) by (simp_all add: holds_def)
  note new = segment_new [OF h(3) assms(3) h(2)]
  have "length (p_buf out @ ws) = length d + length (p_buf out')" using assms(3) by simp
  then have len: "unat (sendOffset r) + length d \<le> length (str @ ws)" using h(2,3) by simp
  have send: "sendOffset r1 = sendOffset r" using assms(2) by (simp add: same_send_def)
  have "unat (sendOffset r1) + length d < 2 ^ 64" using len assms(4) send by simp
  note facts = nextOut_number_cases [OF rel_inv_same_send [OF h(1) assms(2)] this assms(5)]
  have acked: "unat (ackedOffset r) \<le> unat (sendOffset r)" using h(1) by (simp add: rel_inv_nat)
  have "replay r2 = segment (str @ ws) (unat (ackedOffset r2)) (unat (sendOffset r2) - unat (ackedOffset r2))" if "\<not> broken r2"
  proof -
    have b: "\<not> broken r" "replay r2 = replay r @ d" "ackedOffset r2 = ackedOffset r"
      using facts(6,7) that assms(2) by (simp_all add: same_send_def)
    have "replay r2 = segment (str @ ws) (unat (ackedOffset r)) (unat (sendOffset r) - unat (ackedOffset r)) @
        segment (str @ ws) (unat (sendOffset r)) (length d)"
      using b(2) rep [OF b(1)] conjunct1 [OF new] h(2) acked by (metis segment_append_left le_add_diff_inverse)
    also have "\<dots> = segment (str @ ws) (unat (ackedOffset r)) (unat (sendOffset r) - unat (ackedOffset r) + length d)"
      using segment_append [of "str @ ws" "unat (ackedOffset r)" "unat (sendOffset r) - unat (ackedOffset r)" "length d"] acked by simp
    finally show ?thesis using b(3) facts(2) send acked by simp
  qed
  then have "holds (str @ ws) r2 out'" using facts(2,8) send new len assms(4) by (simp add: holds_def)
  moreover have "ackedOffset r2 = ackedOffset r \<or> broken r2" using facts(7) assms(2) by (auto simp: same_send_def)
  ultimately show ?thesis using facts(1,4) send conjunct1 [OF new] len by simp
qed

lemma holds_written:
  assumes "holds str r out" and "length (str @ ws) < 2 ^ 64" and "p_buf out @ ws = p_buf out'"
  shows "holds (str @ ws) r out'"
  using assms by (auto simp: holds_def rel_inv_nat segment_append_left)

lemma holds_nextOut:
  assumes "holds str r out" and "calm meanwhile" and "cap > 0" and "length (str @ wait_writes cap r out sch) < 2 ^ 64"
    and "nextOut cap r meanwhile out sch = Returns (res, r', out')"
  shows "holds (str @ wait_writes cap r out sch) r' out'"
    and "res = Inr (off, d) \<Longrightarrow> d \<noteq> [] \<Longrightarrow> off = sentCursor r \<and> length d \<le> cap \<and>
           d = segment (str @ wait_writes cap r out sch) (unat off) (length d) \<and>
           unat off + length d \<le> length (str @ wait_writes cap r out sch)"
    and "ackedOffset r' = ackedOffset r \<or> broken r'" and "recvOffset r' = recvOffset (meanwhile r) \<or> recvOffset r' = recvOffset r"
    and "res = Inl EOF \<Longrightarrow> p_closed out' \<and> p_buf out' = []"
proof -
  let ?ws = "wait_writes cap r out sch"
  have inv: "rel_inv r" using assms(1) by (simp add: holds_def)
  have same: "same_send r (meanwhile r)" using assms(2) inv by (simp add: calm_def)
  have ws: "?ws = written_by (p_closed out) (slept sch sch')" "p_buf out @ ?ws = (case pres of Inl _ \<Rightarrow> [] | Inr d \<Rightarrow> d) @ p_buf out'"
    if "\<not> (\<not> broken r \<and> sentCursor r < sendOffset r)" "ReadAvailable cap out sch = Some (pres, out', sch')" for pres sch'
    using ReadAvailable_slept(1) [OF that(2)] that by (auto simp: wait_writes_def)
  from assms(5) inv have "holds (str @ ?ws) r' out' \<and>
    (\<forall>off d. res = Inr (off, d) \<longrightarrow> d \<noteq> [] \<longrightarrow> off = sentCursor r \<and> length d \<le> cap \<and> d = segment (str @ ?ws) (unat off) (length d) \<and>
       unat off + length d \<le> length (str @ ?ws)) \<and>
    (ackedOffset r' = ackedOffset r \<or> broken r') \<and> (recvOffset r' = recvOffset (meanwhile r) \<or> recvOffset r' = recvOffset r) \<and>
    (res = Inl EOF \<longrightarrow> p_closed out' \<and> p_buf out' = [])"
  proof (cases rule: nextOut_cases)
    case (replays d)
    then have "frame_of str (unat (sendOffset r)) (sentCursor r, d)" "?ws = []" "length d \<le> cap"
      using replay_frame(5) [OF inv replays(4)] assms(1) by (simp_all add: holds_def wait_writes_def)
    then show ?thesis using replays(5-9) assms(1) by (simp add: holds_def frame_of_def)
  next
    case (idle pres sch')
    have "holds (str @ ?ws) (meanwhile r) out'"
      by (rule holds_same_send [OF holds_written [OF assms(1,4)] same]) (use ws(2) [OF idle(1,3)] idle(4) in simp)
    moreover have "pres = Inl EOF \<Longrightarrow> p_closed out' \<and> p_buf out' = []" using idle(3) by (cases rule: ReadAvailable_cases) simp_all
    ultimately show ?thesis using idle(5,6) same by (cases pres) (simp_all add: same_send_def)
  next
    case (numbers off d sch')
    have "p_buf out @ ?ws = d @ p_buf out'" using ws(2) [OF numbers(1,3)] by simp
    note new = holds_number [OF assms(1) same this assms(4) numbers(6)]
    then have "off = sentCursor r" using numbers(2) by simp
    then show ?thesis using new numbers(5,7) by auto
  qed
  then show "holds (str @ ?ws) r' out'"
    "res = Inr (off, d) \<Longrightarrow> d \<noteq> [] \<Longrightarrow> off = sentCursor r \<and> length d \<le> cap \<and>
       d = segment (str @ ?ws) (unat off) (length d) \<and> unat off + length d \<le> length (str @ ?ws)"
    "ackedOffset r' = ackedOffset r \<or> broken r'" "recvOffset r' = recvOffset (meanwhile r) \<or> recvOffset r' = recvOffset r"
    "res = Inl EOF \<Longrightarrow> p_closed out' \<and> p_buf out' = []"
    by blast+
qed

lemma nextOut_errors: "nextOut cap r meanwhile out sch = Returns (Inl e, r', out') \<Longrightarrow> e = EOF \<or> e = ErrPipeInterrupted"
proof -
  assume run: "nextOut cap r meanwhile out sch = Returns (Inl e, r', out')"
  then obtain pres sch' where "ReadAvailable cap out sch = Some (pres, out', sch')" "pres = Inl e"
    by (auto simp: nextOut_def Let_def split: option.splits sum.splits if_splits prod.splits)
  then show ?thesis by (cases rule: ReadAvailable_cases) simp_all
qed

text \<open>The long poll of a batch, from the client's acknowledgement to the answer.\<close>

lemma batch_download_result:
  assumes "s_rs s = Some r" and "holds str r (toClient s)" and "\<not> broken r" and "ackedOffset r \<le> n" and "n \<le> sendOffset r"
    and "calm_session (be_between env)" and "calm (be_meanwhile env)" and "cap > 0"
    and "\<And>r1. length (str @ wait_writes cap r1 (toClient s) (be_wait env)) < 2 ^ 64"
    and "batch_download cap n env s = Returns (Some resp, s')"
  obtains r1 r' where "s_rs s' = Some r'" "holds (str @ wait_writes cap r1 (toClient s) (be_wait env)) r' (toClient s')"
      "ackedOffset r' = n \<or> broken r'"
      "resp = writeError 410 \<and> p_closed (toClient s') \<and> p_buf (toClient s') = [] \<or> resp = batch_idle (recvOffset r') \<or>
       (\<exists>d. resp = batch_data (recvOffset r') n d \<and> d \<noteq> [] \<and> length d \<le> cap \<and>
          d = segment (str @ wait_writes cap r1 (toClient s) (be_wait env)) (unat n) (length d) \<and> unat n + length d < 2 ^ 64)"
proof -
  have inv: "rel_inv r" using assms(2) by (simp add: holds_def)
  obtain e ra where a: "ack n r = Some (e, ra)" by (cases rule: ack_cases [OF inv, of n]) auto
  note ha = holds_ack [OF assms(2) a]
  have ra: "e = None" "\<not> broken ra" "sendOffset ra = sendOffset r" "ackedOffset ra = n"
    using ha(2) assms(3,4,5) by (simp_all add: max_absorb2)
  let ?s1 = "s\<lparr>s_rs := Some ra\<rparr>"
  have s1: "rs_ack n s = Some (None, ?s1)" using assms(1) a ra(1) by (simp add: rs_ack_def)
  have "rel_inv ra" using ha(1) by (simp add: holds_def)
  then obtain rb where rb: "s_rs (be_between env ?s1) = Some rb" "same_send ra rb" "toClient (be_between env ?s1) = toClient s"
    using assms(6) [unfolded calm_session_def, rule_format, of ?s1 ra] by auto
  let ?s2 = "be_between env ?s1" and ?r1 = "rewindToAcked rb"
  have hb: "holds str ?r1 (toClient s)" using holds_rewind [OF holds_same_send [OF ha(1) rb(2)]] .
  have nb: "\<not> broken rb" "ackedOffset rb = n" using rb(2) ra by (simp_all add: same_send_def)
  then have cur: "sentCursor ?r1 = n" "ackedOffset ?r1 = n" by (simp_all add: rewindToAcked_def)
  obtain res r' p where nx: "nextOut cap ?r1 (be_meanwhile env) (toClient s) (be_wait env) = Returns (res, r', p)"
    using assms(10) s1 rb by (auto simp: batch_download_def Let_def split: outcome.splits)
  note hn = holds_nextOut [OF hb assms(7,8) assms(9) nx]
  let ?s3 = "?s2\<lparr>s_rs := Some r', toClient := p\<rparr>"
  have now: "recv_now ?s3 = recvOffset r'" by (simp add: recv_now_def recvOffsetNow_def)
  have ctx: "\<not> be_ctxDone2 env" using assms(10) s1 rb nx by (auto simp: batch_download_def Let_def split: if_splits)
  have result: "(case res of Inl e \<Rightarrow> if e = EOF then Returns (Some (writeError 410), ?s3)
        else if e \<noteq> ErrPipeInterrupted then Returns (Some (writeError 500), ?s3) else Returns (Some (batch_idle (recvOffset r')), ?s3)
      | Inr (off, d) \<Rightarrow> if d = [] then Returns (Some (batch_idle (recvOffset r')), ?s3)
          else Returns (Some (batch_data (recvOffset r') off d), ?s3)) = Returns (Some resp, s')"
    using assms(10) s1 rb nx ctx unfolding now [symmetric] by (simp add: batch_download_def Let_def)
  have s': "s' = ?s3" using result by (auto split: sum.splits if_splits prod.splits)
  have errs: "res = Inl e \<Longrightarrow> e = EOF \<or> e = ErrPipeInterrupted" for e
    using nextOut_errors nx by blast
  have "resp = writeError 410 \<and> p_closed p \<and> p_buf p = [] \<or> resp = batch_idle (recvOffset r') \<or>
       (\<exists>d. resp = batch_data (recvOffset r') n d \<and> d \<noteq> [] \<and> length d \<le> cap \<and>
          d = segment (str @ wait_writes cap ?r1 (toClient s) (be_wait env)) (unat n) (length d) \<and> unat n + length d < 2 ^ 64)"
  proof (cases res)
    case (Inl e)
    then show ?thesis using result errs [OF Inl] hn(5) by (auto split: if_splits)
  next
    case (Inr x)
    obtain off d where x: "x = (off, d)" by (cases x)
    show ?thesis
    proof (cases "d = []")
      case True
      then show ?thesis using result Inr x by simp
    next
      case False
      then have "resp = batch_data (recvOffset r') off d" using result Inr x by simp
      moreover note hn(2) [OF Inr [unfolded x] False]
      ultimately show ?thesis using False cur(1) assms(9) [of ?r1] by auto
    qed
  qed
  moreover have "ackedOffset r' = n \<or> broken r'" using hn(3) cur(2) by simp
  ultimately show thesis using hn(1) s' by (intro that [of r' ?r1]) simp_all
qed

text \<open>The client takes an intact answer.\<close>

lemma bc_recvIn_next:
  assumes "\<not> p_closed (bc_in c)" and "unat (recvOffset (bc_rl c)) + length d < 2 ^ 64" and "d \<noteq> []"
  obtains c' where "bc_recvIn (recvOffset (bc_rl c)) d c = Some (None, c')" "p_buf (bc_in c') = p_buf (bc_in c) @ d"
    "unat (recvOffset (bc_rl c')) = unat (recvOffset (bc_rl c)) + length d" "same_send (bc_rl c) (bc_rl c') \<or> \<not> rel_inv (bc_rl c)"
    "bc_maxFrame c' = bc_maxFrame c" "sendOffset (bc_rl c') = sendOffset (bc_rl c)"
proof -
  let ?r = "bc_rl c" and ?off = "recvOffset (bc_rl c)"
  have add: "unat (?off + of_nat (length d)) = unat ?off + length d" using assms(2) by (rule unat_add_u64)
  have "length d < 2 ^ 64" using assms(2) by simp
  then show thesis
  proof (cases rule: recvIn_cases [where p = d and r = ?r and off = ?off and inp = "bc_in c" and out = "bc_out c"])
    case dup
    then show ?thesis using add assms(3) by (simp add: word_le_nat_alt)
  next
    case (extends k out')
    let ?c = "c\<lparr>bc_rl := ?r\<lparr>recvOffset := ?off + of_nat (length d)\<rparr>, bc_in := snd (snd (Write (bc_in c) d)), bc_out := out'\<rparr>"
    have "bc_recvIn ?off d c = Some (None, ?c)" using extends(3,6) by (simp add: bc_recvIn_def)
    moreover have "same_send ?r (bc_rl ?c) \<or> \<not> rel_inv ?r"
      using add by (auto simp: same_send_def rel_inv_nat word_le_nat_alt)
    ultimately show ?thesis using that [of ?c] assms(1) add by (simp add: Write_buf)
  qed (use assms in simp_all)
qed

lemma bc_ack_ok:
  assumes "rel_inv (bc_rl c)" and "n \<le> sendOffset (bc_rl c)"
  obtains c' where "bc_ack n c = Some (None, c')" "bc_in c' = bc_in c" "recvOffset (bc_rl c') = recvOffset (bc_rl c)"
  using assms(1)
proof (cases rule: ack_cases [of "bc_rl c" n])
  case bad
  with assms(2) show ?thesis by simp
qed (use that in \<open>auto simp: bc_ack_def\<close>)

lemma doBatchPoll_idle:
  assumes "rel_inv (bc_rl c)" and "recv \<le> sendOffset (bc_rl c)" and "bc_maxFrame c \<ge> 0"
  shows "\<exists>c'. doBatchPoll (Inr (wire_of (batch_idle recv))) c = Some (Inr False, c') \<and> bc_in c' = bc_in c \<and>
      recvOffset (bc_rl c') = recvOffset (bc_rl c)"
proof -
  obtain c' where "bc_ack recv c = Some (None, c')" "bc_in c' = bc_in c" "recvOffset (bc_rl c') = recvOffset (bc_rl c)"
    using bc_ack_ok [OF assms(1,2)] by blast
  then show ?thesis using assms(3)
    by (simp add: doBatchPoll_def wire_of_def batch_idle_def read_all_limit_def r_bytes_def)
qed

lemma doBatchPoll_data:
  assumes "rel_inv (bc_rl c)" and "recv \<le> sendOffset (bc_rl c)" and "\<not> p_closed (bc_in c)"
    and d: "d \<noteq> []" "int (length d) \<le> bc_maxFrame c" "unat (recvOffset (bc_rl c)) + length d < 2 ^ 64"
  shows "\<exists>c'. doBatchPoll (Inr (wire_of (batch_data recv (recvOffset (bc_rl c)) d))) c = Some (Inr True, c') \<and>
      p_buf (bc_in c') = p_buf (bc_in c) @ d \<and> unat (recvOffset (bc_rl c')) = unat (recvOffset (bc_rl c)) + length d"
proof -
  obtain c1 where c1: "bc_recvIn (recvOffset (bc_rl c)) d c = Some (None, c1)" "p_buf (bc_in c1) = p_buf (bc_in c) @ d"
      "unat (recvOffset (bc_rl c1)) = unat (recvOffset (bc_rl c)) + length d" "same_send (bc_rl c) (bc_rl c1) \<or> \<not> rel_inv (bc_rl c)"
      "bc_maxFrame c1 = bc_maxFrame c" "sendOffset (bc_rl c1) = sendOffset (bc_rl c)"
    using bc_recvIn_next [OF assms(3) d(3,1)] by blast
  have "rel_inv (bc_rl c1)" using c1(4) assms(1) rel_inv_same_send by blast
  then obtain c2 where "bc_ack recv c1 = Some (None, c2)" "bc_in c2 = bc_in c1" "recvOffset (bc_rl c2) = recvOffset (bc_rl c1)"
    using bc_ack_ok [of c1 recv] assms(2) c1(6) by auto
  moreover have "\<not> nat (bc_maxFrame c) + 1 \<le> length d" using d(2) by linarith
  moreover have "HeaderRecvOffset \<noteq> ''Content-Length''" "HeaderSendOffset \<noteq> ''Content-Length''" by (simp_all add: header_names)
  ultimately show ?thesis using d c1
    by (simp add: doBatchPoll_def wire_of_def batch_data_def read_all_limit_def r_bytes_def batchOffset_header_Set)
qed

text \<open>A cut answer changes nothing at the client.\<close>

lemma doBatchPoll_cut:
  assumes "r_end rd \<noteq> EOF" and "int (length (r_bytes rd)) \<le> bc_maxFrame c"
  shows "\<exists>e. doBatchPoll (Inr (w\<lparr>wr_body := rd\<rparr>)) c = Some (Inl e, c)"
  using assms by (auto simp: doBatchPoll_def read_all_limit_def)

section \<open>Properties\<close>

text \<open>
  C15: A poll of a resumable batch session hands the client the next bytes of the stream, exactly
  once. Let the server hold the stream its application wrote and the client ask for the bytes
  from its received offset on, which the server has sent before or is about to send. Then the
  answer is data starting at that offset, or no content, or that the session is gone, the last
  only with the pipe closed and drained. An intact answer extends what the client has by
  exactly its body; one that is cut changes nothing there. In every case the server still
  holds the stream from the client's offset on, unless its replay buffer overflowed, so the
  same question can be asked again.
\<close>

theorem batch_poll_exact:
  assumes "s_rs s = Some r" and "holds str r (toClient s)" and "\<not> broken r"
    and "ackedOffset r \<le> recvOffsetNow (bc_rl c)" and "recvOffsetNow (bc_rl c) \<le> sendOffset r"
    and "calm_session (be_between env)" and "calm (be_meanwhile env)" and "cap > 0" and "int cap \<le> bc_maxFrame c"
    and "\<forall>r1. length (str @ wait_writes cap r1 (toClient s) (be_wait env)) < 2 ^ 64"
    and "rel_inv (bc_rl c)" and "\<not> p_closed (bc_in c)"
    and "batch_download cap (recvOffsetNow (bc_rl c)) env s = Returns (Some resp, s')"
    and "recv_now s' \<le> sendOffset (bc_rl c)"
  shows "\<exists>r1 r' stream. stream = str @ wait_writes cap r1 (toClient s) (be_wait env) \<and>
    s_rs s' = Some r' \<and> holds stream r' (toClient s') \<and> (ackedOffset r' = recvOffsetNow (bc_rl c) \<or> broken r') \<and>
    (resp = writeError 410 \<and> p_closed (toClient s') \<and> p_buf (toClient s') = [] \<or>
     (\<exists>c'. rp_status resp = 204 \<and> doBatchPoll (Inr (wire_of resp)) c = Some (Inr False, c') \<and> bc_in c' = bc_in c \<and>
        recvOffset (bc_rl c') = recvOffset (bc_rl c)) \<or>
     (\<exists>d c'. rp_status resp = 200 \<and> d \<noteq> [] \<and> d = segment stream (unat (recvOffset (bc_rl c))) (length d) \<and>
        doBatchPoll (Inr (wire_of resp)) c = Some (Inr True, c') \<and> p_buf (bc_in c') = p_buf (bc_in c) @ d \<and>
        unat (recvOffset (bc_rl c')) = unat (recvOffset (bc_rl c)) + length d)) \<and>
    (\<forall>rd. r_end rd \<noteq> EOF \<longrightarrow> int (length (r_bytes rd)) \<le> bc_maxFrame c \<longrightarrow>
       (\<exists>e. doBatchPoll (Inr ((wire_of resp)\<lparr>wr_body := rd\<rparr>)) c = Some (Inl e, c)))"
proof -
  let ?n = "recvOffsetNow (bc_rl c)"
  have n: "?n = recvOffset (bc_rl c)" by (simp add: recvOffsetNow_def)
  obtain r1 r' where res: "s_rs s' = Some r'" "holds (str @ wait_writes cap r1 (toClient s) (be_wait env)) r' (toClient s')"
      "ackedOffset r' = ?n \<or> broken r'"
      "resp = writeError 410 \<and> p_closed (toClient s') \<and> p_buf (toClient s') = [] \<or> resp = batch_idle (recvOffset r') \<or>
       (\<exists>d. resp = batch_data (recvOffset r') ?n d \<and> d \<noteq> [] \<and> length d \<le> cap \<and>
          d = segment (str @ wait_writes cap r1 (toClient s) (be_wait env)) (unat ?n) (length d) \<and> unat ?n + length d < 2 ^ 64)"
    by (rule batch_download_result [OF assms(1-8) assms(10) [rule_format] assms(13)])
  have recv: "recvOffset r' \<le> sendOffset (bc_rl c)" using assms(14) res(1) by (simp add: recv_now_def recvOffsetNow_def)
  have "resp = writeError 410 \<and> p_closed (toClient s') \<and> p_buf (toClient s') = [] \<or>
     (\<exists>c'. rp_status resp = 204 \<and> doBatchPoll (Inr (wire_of resp)) c = Some (Inr False, c') \<and> bc_in c' = bc_in c \<and>
        recvOffset (bc_rl c') = recvOffset (bc_rl c)) \<or>
     (\<exists>d c'. rp_status resp = 200 \<and> d \<noteq> [] \<and>
        d = segment (str @ wait_writes cap r1 (toClient s) (be_wait env)) (unat (recvOffset (bc_rl c))) (length d) \<and>
        doBatchPoll (Inr (wire_of resp)) c = Some (Inr True, c') \<and> p_buf (bc_in c') = p_buf (bc_in c) @ d \<and>
        unat (recvOffset (bc_rl c')) = unat (recvOffset (bc_rl c)) + length d)"
    using res(4)
  proof (elim disjE)
    assume "resp = batch_idle (recvOffset r')"
    moreover have "rp_status (batch_idle (recvOffset r')) = 204" by (simp add: batch_idle_def)
    ultimately show ?thesis using doBatchPoll_idle [OF assms(11) recv] assms(9) by auto
  next
    assume "\<exists>d. resp = batch_data (recvOffset r') ?n d \<and> d \<noteq> [] \<and> length d \<le> cap \<and>
          d = segment (str @ wait_writes cap r1 (toClient s) (be_wait env)) (unat ?n) (length d) \<and> unat ?n + length d < 2 ^ 64"
    then obtain d where d: "resp = batch_data (recvOffset r') ?n d" "d \<noteq> []" "length d \<le> cap"
        "d = segment (str @ wait_writes cap r1 (toClient s) (be_wait env)) (unat ?n) (length d)" "unat ?n + length d < 2 ^ 64" by blast
    have "rp_status resp = 200" using d(1) by (simp add: batch_data_def)
    then show ?thesis using doBatchPoll_data [OF assms(11) recv assms(12), of d] d assms(9) unfolding n by auto
  qed blast
  then show ?thesis using res(1-3) doBatchPoll_cut by blast
qed

text \<open>
  An upload of a resumable batch enters the session whole or not at all, and the client may
  forget what the server confirmed. Let the client have sent \<open>str\<close> so far and upload one chunk
  of it. If the body is cut, the answer is 400 and nothing changes. If it is complete, the
  session receives exactly the bytes of the chunk it did not have, as the continuation of what
  it had, and nothing on a gap or a refused acknowledgement; 200 means it has the whole chunk,
  and the client then accepts the confirmed offset.
\<close>

lemma batch_upload_exact:
  assumes "ref < length (heap sv)" and "s_rs (sess sv ref) = Some r" and "rel_inv r" and "keeps_received (be_between env)"
    and "chunks_of str [(off, data)]" and "unat (recvOffset r) \<le> length str"
    and "rel_inv (bc_rl c)" and "unat (sendOffset (bc_rl c)) = length str"
    and "r_end rd = EOF \<longrightarrow> r_bytes rd = data" and "r_end rd \<noteq> ErrBodyTooLarge"
    and "int (length (r_bytes rd)) \<le> cfg_MaxSendBytes cfg" and "\<not> be_ctxDone env"
  shows "\<exists>resp sv'. batch_owned cfg ((doBatchSend_request off data c)\<lparr>rq_body := rd\<rparr>) True ackn off env now ref sv = Returns (Some resp, sv') \<and>
    (if r_end rd \<noteq> EOF then resp = writeError 400 \<and> sv' = sv
     else \<exists>d r'. s_rs (sess sv' ref) = Some r' \<and> p_buf (toServer (sess sv' ref)) = p_buf (toServer (sess sv ref)) @ d \<and>
        d = segment str (unat (recvOffset r)) (length d) \<and> unat (recvOffset r') = unat (recvOffset r) + length d \<and>
        (rp_status resp = 200 \<longrightarrow> unat off + length data \<le> unat (recvOffset r') \<and>
           (\<exists>c'. doBatchSend (Inr (wire_of resp)) c = Some (None, c') \<and> (broken (bc_rl c) \<or> recvOffset r' \<le> ackedOffset (bc_rl c')))))"
proof (cases "r_end rd = EOF")
  case False
  then show ?thesis using assms(10-12) by (simp add: batch_owned_def read_all_max_def)
next
  case True
  let ?s = "sess sv ref"
  obtain e s1 where a: "rs_ack ackn ?s = Some (e, s1)" and rec1: "received str ?s s1 []"
    using rs_ack_received [OF assms(2,3), of ackn str] by blast
  have body: "read_all_max (cfg_MaxSendBytes cfg) rd = Inr data" using True assms(9,11) by (simp add: read_all_max_def)
  have run: "batch_owned cfg ((doBatchSend_request off data c)\<lparr>rq_body := rd\<rparr>) True ackn off env now ref sv =
      (case batch_upload ackn off data (be_between env) ?s of None \<Rightarrow> Panics | Some (resp, s') \<Rightarrow> Returns (Some resp, upd ref (\<lambda>_. s') sv))"
    using body assms(12) by (simp add: batch_owned_def)
  have done': "\<exists>resp sv'. batch_owned cfg ((doBatchSend_request off data c)\<lparr>rq_body := rd\<rparr>) True ackn off env now ref sv = Returns (Some resp, sv') \<and>
      resp = resp' \<and> sess sv' ref = s'" if "batch_upload ackn off data (be_between env) ?s = Some (resp', s')" for resp' s'
    using that run assms(1) by (simp add: sess_upd)
  show ?thesis
  proof (cases e)
    case (Some err)
    then have "batch_upload ackn off data (be_between env) ?s = Some (writeError 400, s1)" using a by (simp add: batch_upload_def)
    from done' [OF this] obtain sv' where "batch_owned cfg ((doBatchSend_request off data c)\<lparr>rq_body := rd\<rparr>) True ackn off env now ref sv =
        Returns (Some (writeError 400), sv')" "sess sv' ref = s1" by blast
    moreover obtain r' where "s_rs s1 = Some r'" "p_buf (toServer s1) = p_buf (toServer ?s) @ []" "unat (recvOffset r') = unat (recvOffset r)"
      using rec1 assms(2) by (auto simp: received_def)
    ultimately show ?thesis using True by (auto simp: writeError_def writeJSON_def segment_def)
  next
    case None
    obtain r1 where r1: "s_rs s1 = Some r1" "rel_inv r1" using received_layer [OF rec1] by blast
    note rec2 = received_trans [OF rec1 received_others [OF assms(4) r1, of str]]
    obtain r2 where r2: "s_rs (be_between env s1) = Some r2" "rel_inv r2" using received_layer [OF rec2] by blast
    obtain e2 s2 d where b: "rs_recvIn off data (be_between env s1) = Some (e2, s2)" and rec3: "received str (be_between env s1) s2 d"
      and why: "e2 = None \<and> (\<exists>r'. s_rs s2 = Some r' \<and> unat off + length data \<le> unat (recvOffset r')) \<or>
        e2 = Some ErrReplayGap \<and> off > recvOffset r2 \<or> e2 = Some ErrClosedPipe \<and> p_closed (toServer (be_between env s1))"
      using rs_recvIn_received [OF r2 assms(5)] by blast
    have rec: "received str ?s s2 d" using received_trans [OF rec2 rec3] by simp
    then obtain r' where r': "s_rs s2 = Some r'" "p_buf (toServer s2) = p_buf (toServer ?s) @ d" "d = segment str (unat (recvOffset r)) (length d)"
        "unat (recvOffset r') = unat (recvOffset r) + length d" "unat (recvOffset r) + length d \<le> max (unat (recvOffset r)) (length str)"
      using assms(2) by (auto simp: received_def)
    let ?resp = "case e2 of None \<Rightarrow> batch_ok (recvOffset r') | Some x \<Rightarrow> writeError (if x = ErrClosedPipe then 410 else 400)"
    have "batch_upload ackn off data (be_between env) ?s = Some (?resp, s2)"
      using a None b r'(1) by (auto simp: batch_upload_def recv_now_def recvOffsetNow_def split: option.split)
    from done' [OF this] obtain sv' where out: "batch_owned cfg ((doBatchSend_request off data c)\<lparr>rq_body := rd\<rparr>) True ackn off env now ref sv =
        Returns (Some ?resp, sv')" "sess sv' ref = s2" by blast
    have "unat off + length data \<le> unat (recvOffset r') \<and>
       (\<exists>c'. doBatchSend (Inr (wire_of ?resp)) c = Some (None, c') \<and> (broken (bc_rl c) \<or> recvOffset r' \<le> ackedOffset (bc_rl c')))"
      if "rp_status ?resp = 200"
    proof -
      have e2: "e2 = None" using that why by (auto simp: writeError_def writeJSON_def)
      have le: "recvOffset r' \<le> sendOffset (bc_rl c)" using r'(4,5) assms(6,8) by (simp add: word_le_nat_alt)
      obtain r3 where r3: "ack (recvOffset r') (bc_rl c) = Some (None, r3)" "broken (bc_rl c) \<or> recvOffset r' \<le> ackedOffset r3"
        by (cases rule: ack_cases [OF assms(7), of "recvOffset r'"]) (use le in auto)
      have "doBatchSend (Inr (wire_of ?resp)) c = Some (None, c\<lparr>bc_rl := r3\<rparr>)"
        using e2 r3(1) by (simp add: doBatchSend_def wire_of_def batch_ok_def read_all_limit_def r_bytes_def batchOffset_header_Set
            bc_ack_def header_names)
      moreover have "unat off + length data \<le> unat (recvOffset r')" using why e2 r'(1) by auto
      ultimately show ?thesis using r3(2) by auto
    qed
    then show ?thesis using True out r'(1-4) by (intro exI [of _ ?resp] exI [of _ sv']) auto
  qed
qed

section \<open>Witnesses\<close>

text \<open>A server session with two bytes for the client, and a client that has sent two bytes.\<close>

definition sample_down :: session where
  "sample_down = sample_session\<lparr>toClient := NewBufferedPipe\<lparr>p_buf := [5, 6]\<rparr>\<rparr>"

definition sample_conn :: batch_conn where
  "sample_conn =
     \<lparr>bc_rl = (newReliable 0)\<lparr>sendOffset := 2, sentCursor := 2, replay := [7, 8]\<rparr>, bc_in = NewBufferedPipe, bc_out = NewBufferedPipe,
      bc_maxFrame = 8, bc_maxSendChunk = 8, bc_pollStream = False, bc_pollInterval = 0\<rparr>"

definition sample_env :: batch_env where
  "sample_env =
     \<lparr>be_attach = [], be_started = (\<lambda>x. x), be_ctxDone = False, be_between = (\<lambda>x. x), be_wait = [[EvTimer]],
      be_meanwhile = (\<lambda>x. x), be_ctxDone2 = False, be_finish = (\<lambda>x. x)\<rparr>"

lemma sample_conn_inv: "rel_inv (bc_rl sample_conn)"
  by (simp add: sample_conn_def rel_inv_def newReliable_def DefaultMaxReplayBytes_def)

theorem batch_poll_exact_witness:
  "\<exists>resp s' c' d. batch_download 8 0 sample_env sample_down = Returns (Some resp, s') \<and> rp_status resp = 200 \<and>
     doBatchPoll (Inr (wire_of resp)) sample_conn = Some (Inr True, c') \<and> p_buf (bc_in c') = d \<and> d \<noteq> [] \<and>
     d = segment [5, 6] 0 (length d)"
proof -
  let ?p = "NewBufferedPipe\<lparr>p_buf := [5, 6]\<rparr>" and ?r = "newReliable 0"
  have ra: "ReadAvailable 8 ?p [[EvTimer]] = Some (Inr [5, 6], NewBufferedPipe, [])"
    by (simp add: ReadAvailable_def coalesce_def NewBufferedPipe_def phase2_waits_def take_out_def)
  have ww: "wait_writes 8 r1 ?p [[EvTimer]] = []" for r1 by (simp add: wait_writes_def ra slept_def)
  have s: "s_rs sample_down = Some ?r" "toClient sample_down = ?p"
    by (simp_all add: sample_down_def sample_session_def enableResume_def)
  have h: "holds [5, 6] ?r (toClient sample_down)"
    using rel_inv_newReliable [of 0] by (simp add: s(2) holds_def newReliable_def NewBufferedPipe_def segment_def)
  have env: "calm_session (be_between sample_env)" "calm (be_meanwhile sample_env)"
    by (simp_all add: calm_session_def calm_def sample_env_def same_send_def rel_inv_def)
  have c: "recvOffset (bc_rl sample_conn) = 0" "sendOffset (bc_rl sample_conn) = 2" "int 8 \<le> bc_maxFrame sample_conn"
      "\<not> p_closed (bc_in sample_conn)" "p_buf (bc_in sample_conn) = []"
    by (simp_all add: sample_conn_def newReliable_def NewBufferedPipe_def)
  then have n: "recvOffsetNow (bc_rl sample_conn) = 0" by (simp add: recvOffsetNow_def)
  have r: "\<not> broken ?r" "ackedOffset ?r \<le> recvOffsetNow (bc_rl sample_conn)" "recvOffsetNow (bc_rl sample_conn) \<le> sendOffset ?r"
    by (simp_all add: newReliable_def n)
  have small: "\<forall>r1. length ([5, 6 :: byte] @ wait_writes 8 r1 (toClient sample_down) (be_wait sample_env)) < 2 ^ 64"
    by (simp add: s(2) sample_env_def ww)
  obtain resp s' where run: "batch_download 8 0 sample_env sample_down = Returns (Some resp, s')" "rp_status resp = 200" "recv_now s' = 0"
    by (simp add: batch_download_def s rs_ack_def ack_def newReliable_def sample_env_def rewindToAcked_def nextOut_def
        nextOut_replay_def ra nextOut_number_def Let_def DefaultMaxReplayBytes_def batch_data_def recv_now_def recvOffsetNow_def)
  have le: "recv_now s' \<le> sendOffset (bc_rl sample_conn)" by (simp add: run(3))
  have "resp \<noteq> writeError 410" "rp_status resp \<noteq> 204" using run(2) by (auto simp: writeError_def writeJSON_def)
  moreover have "be_wait sample_env = [[EvTimer]]" by (simp add: sample_env_def)
  ultimately show ?thesis
    using batch_poll_exact [OF s(1) h r env _ c(3) small sample_conn_inv c(4) run(1) [folded n] le] run(1,2)
    by (simp add: s(2) ww c(1,5)) blast
qed

lemma batch_upload_exact_witness:
  "\<exists>resp sv' d r'. batch_owned (withDefaults sample_config) ((doBatchSend_request 0 [7, 8] sample_conn)\<lparr>rq_body := \<lparr>r_chunks = [[7], [8]], r_end = EOF\<rparr>\<rparr>)
       True 0 0 sample_env 0 0 sample_server = Returns (Some resp, sv') \<and>
     s_rs (sess sv' 0) = Some r' \<and> p_buf (toServer (sess sv' 0)) = d \<and> d = segment [7, 8] 0 (length d)"
proof -
  let ?rd = "\<lparr>r_chunks = [[7], [8 :: byte]], r_end = EOF\<rparr>" and ?cfg = "withDefaults sample_config"
  have s: "0 < length (heap sample_server)" "s_rs (sess sample_server 0) = Some (newReliable 0)" "p_buf (toServer (sess sample_server 0)) = []"
    by (simp_all add: sample_server_def sample_session_def enableResume_def newSession_def NewBufferedPipe_def)
  have env: "keeps_received (be_between sample_env)" "\<not> be_ctxDone sample_env" by (simp_all add: keeps_received_def sample_env_def)
  have ch: "chunks_of [7, 8] [(0, [7, 8])]" by (simp add: chunks_of_def segment_def)
  have r: "unat (recvOffset (newReliable 0)) \<le> length [7, 8 :: byte]" "unat (sendOffset (bc_rl sample_conn)) = length [7, 8 :: byte]"
    by (simp_all add: newReliable_def sample_conn_def)
  have rd: "r_end ?rd = EOF \<longrightarrow> r_bytes ?rd = [7, 8]" "r_end ?rd \<noteq> ErrBodyTooLarge" "int (length (r_bytes ?rd)) \<le> cfg_MaxSendBytes ?cfg"
    by (simp_all add: r_bytes_def withDefaults_def sample_config_def DefaultMaxSendBytes_def)
  have "unat (recvOffset (newReliable 0)) = 0" by (simp add: newReliable_def)
  then show ?thesis
    using batch_upload_exact [OF s(1,2) rel_inv_newReliable env(1) ch r(1) sample_conn_inv r(2) rd env(2), of 0 0]
    by (auto simp: s(3))
qed

end
