(* ===== verification/Handler.thy ===== *)
theory Handler
  imports Batch
begin

text \<open>
  The HTTP handlers of \<^verbatim>\<open>handler.go\<close> and the resume handshake of \<^verbatim>\<open>resume_server.go\<close>:
  \<open>ConnectHandler\<close>, \<open>PollHandler\<close> with its dispatch to the plain, streamed and batch halves,
  \<open>DeleteHandler\<close> and \<open>ResumeHandler\<close>. Each is a function from the server to an answer and the
  server. The session id in the path, the decoded body of a JSON request, the random id, the
  application's hooks and the current time are arguments, and so is what other goroutines do
  to the server while the handler waits. A handler whose configuration fails the wiring check
  panics when it is built.

  The properties: what \<open>ConnectHandler\<close> answers and registers on every path; the well-formedness
  of sessions, that it is what \<open>ConnectHandler\<close> establishes and the handlers keep, and that no
  handler panics on a well-formed session; that a poll leaves the count of attached transports
  as it found it; and what a resume does to the session on every path.
\<close>

section \<open>Requests and hooks\<close>

text \<open>The JSON body of a request: malformed, absent (\<^verbatim>\<open>io.EOF\<close>: the zero value is used), or decoded.\<close>

datatype 'a decoded = Malformed | Absent | Decoded 'a

definition zero_ConnectRequest :: ConnectRequest where
  "zero_ConnectRequest =
     \<lparr>cr_ProtocolVersion = 0, cr_Meta = Map.empty, cr_PreferStreamMode = False, cr_PreferStreamUpload = False,
      cr_PreferWebSocket = False, cr_PreferResume = False, cr_BatchResume = False, cr_PollIntervalMS = 0\<rparr>"

definition zero_ResumeRequest :: ResumeRequest where
  "zero_ResumeRequest = \<lparr>rr_ProtocolVersion = 0, rr_RecvOffset = 0\<rparr>"

fun decode :: "'a \<Rightarrow> 'a decoded \<Rightarrow> 'a option" where
  "decode zero Malformed = None"
| "decode zero Absent = Some zero"
| "decode zero (Decoded v) = Some v"

text \<open>An error of a hook, with a status of its own or without.\<close>

datatype hook_error = PlainError | StatusError nat

fun auth_status :: "hook_error \<Rightarrow> nat" where
  "auth_status PlainError = 401"
| "auth_status (StatusError st) = st"

text \<open>The hooks; \<open>None\<close> is a nil function. \<open>OnConnect\<close> and \<open>OnPoll\<close> may do anything to the server.\<close>

record Hooks =
  h_Authenticate :: "(ConnectRequest \<Rightarrow> hook_error + meta) option"
  h_OnConnect :: "(nat \<Rightarrow> meta \<Rightarrow> server \<Rightarrow> bool \<times> server) option"
  h_OnPoll :: "(nat \<Rightarrow> server \<Rightarrow> server) option"

section \<open>Connecting\<close>

definition connect_transport :: "ServerConfig \<Rightarrow> ConnectRequest \<Rightarrow> string" where
  "connect_transport cfg req = (if cfg_EnableWebSocket cfg \<and> cr_PreferWebSocket req then TransportWebSocket else [])"

definition poll_gap :: "ServerConfig \<Rightarrow> ConnectRequest \<Rightarrow> duration" where
  "poll_gap cfg req = from_ms (min (max (cr_PollIntervalMS req) 0) (Milliseconds (cfg_ResumeGrace cfg))) + batchPollGapAllowance"

text \<open>The session a connect request gets, before it is registered.\<close>

definition connect_session :: "ServerConfig \<Rightarrow> ConnectRequest \<Rightarrow> string \<Rightarrow> meta \<Rightarrow> instant \<Rightarrow> session" where
  "connect_session cfg req ident meta now =
     (let mode = negotiatePollMode (cfg_PollMode cfg) (cr_PreferStreamMode req);
          upload = negotiatePollMode (cfg_PollMode cfg) (cr_PreferStreamUpload req);
          transport = connect_transport cfg req;
          s = watchHighWater (cfg_HighWaterWarn cfg) True
                ((newSession ident meta now)\<lparr>s_pollMode := mode, s_uploadStream := (upload = PollModeStream)\<rparr>);
          s1 = s\<lparr>s_transport := transport\<rparr>
      in if \<not> negotiateResume cfg req transport mode upload then s1
         else
           let s2 = (enableResume (cfg_MaxReplayBytes cfg) (cfg_ResumeGrace cfg) s1)\<lparr>s_batchResume := cr_BatchResume req\<rparr>
           in if transport = [] \<and> \<not> s_uploadStream s2
              then (s2\<lparr>s_rs := map_option disableEagerAck (s_rs s2)\<rparr>)
                     \<lparr>s_pollGap := (if mode = PollModeBatch then poll_gap cfg req else s_pollGap s2)\<rparr>
              else s2)"

definition connect_response :: "ServerConfig \<Rightarrow> ConnectRequest \<Rightarrow> string \<Rightarrow> meta \<Rightarrow> ConnectResponse" where
  "connect_response cfg req ident meta =
     (let mode = negotiatePollMode (cfg_PollMode cfg) (cr_PreferStreamMode req);
          upload = negotiatePollMode (cfg_PollMode cfg) (cr_PreferStreamUpload req);
          transport = connect_transport cfg req;
          resumable = negotiateResume cfg req transport mode upload;
          limitsMode = (if upload = PollModeStream then PollModeStream else mode);
          limitsMode2 = (if transport = TransportWebSocket \<and> limitsMode \<noteq> PollModeStream then PollModeStream else limitsMode)
      in \<lparr>resp_ProtocolVersion = ProtocolVersion, resp_SessionID = ident, resp_Limits = limits cfg limitsMode2 resumable,
          resp_Meta = meta, resp_PollMode = mode,
          resp_UploadStreamMode = (if upload = PollModeStream then PollModeStream else []), resp_Transport = transport,
          resp_Resumable = resumable, resp_BatchResume = (resumable \<and> cr_BatchResume req)\<rparr>)"

text \<open>The session goes into the store before the application hears of it; if it objects, it is taken out and closed.\<close>

definition connect_register :: "ServerConfig \<Rightarrow> Hooks \<Rightarrow> ConnectRequest \<Rightarrow> string \<Rightarrow> meta \<Rightarrow> instant \<Rightarrow> server \<Rightarrow> response \<times> server" where
  "connect_register cfg h req ident meta now sv =
     (let ref = length (heap sv);
          sv1 = add ref (sv\<lparr>heap := heap sv @ [connect_session cfg req ident meta now]\<rparr>)
      in case h_OnConnect h of
           None \<Rightarrow> (writeJSON 200 (ConnectBody (connect_response cfg req ident meta)), sv1)
         | Some f \<Rightarrow>
             (case f ref meta sv1 of
                (False, sv2) \<Rightarrow> (writeError 500, upd ref Session_Close (Remove ident sv2))
              | (True, sv2) \<Rightarrow> (writeJSON 200 (ConnectBody (connect_response cfg req ident meta)), sv2)))"

definition ConnectHandler :: "ServerConfig \<Rightarrow> Hooks \<Rightarrow> ConnectRequest decoded \<Rightarrow> string option \<Rightarrow> instant \<Rightarrow> server
    \<Rightarrow> (response \<times> server) outcome" where
  "ConnectHandler cfg0 h body newID now sv =
     (if check cfg0 \<noteq> None then Panics
      else
        let cfg = withDefaults cfg0 in
        (case decode zero_ConnectRequest body of
           None \<Rightarrow> Returns (writeError 400, sv)
         | Some req \<Rightarrow>
             if cr_ProtocolVersion req \<noteq> ProtocolVersion then Returns (writeError 426, sv)
             else
               (case (case h_Authenticate h of None \<Rightarrow> Inr Map.empty | Some f \<Rightarrow> f req) of
                  Inl e \<Rightarrow> Returns (writeError (auth_status e), sv)
                | Inr authMeta \<Rightarrow>
                    let meta = cr_Meta req ++ authMeta in
                    (case newID of
                       None \<Rightarrow> Returns (writeError 500, sv)
                     | Some ident \<Rightarrow> Returns (connect_register cfg h req ident meta now sv)))))"

section \<open>Polling\<close>

text \<open>What the client gets: nothing (the connection is dropped), a response, or a streamed one.\<close>

datatype answer = NoAnswer | Answer response | StreamAnswer stream_end bytes

fun stream_to_answer :: "stream_answer \<Rightarrow> answer" where
  "stream_to_answer (Refuse st) = Answer (writeError st)"
| "stream_to_answer (Streamed how bs) = StreamAnswer how bs"

fun status_to_answer :: "nat option \<Rightarrow> answer" where
  "status_to_answer None = NoAnswer"
| "status_to_answer (Some st) = Answer (if st = 200 then WriteHeader 200 else writeError st)"

record poll_env =
  pe_att :: att
  pe_body :: "server \<Rightarrow> server"
  pe_wait :: schedule
  pe_others :: "server \<Rightarrow> server"
  pe_stream :: stream_env
  pe_send :: send_env
  pe_batch :: batch_env
  pe_now :: instant
  pe_end :: "server \<Rightarrow> server"
  pe_endTime :: instant

definition run_stream :: "ServerConfig \<Rightarrow> poll_env \<Rightarrow> nat \<Rightarrow> server \<Rightarrow> (answer \<times> server) outcome" where
  "run_stream cfg env ref sv =
     (case pollStream (nat (cfg_PollBufferSize cfg)) (pe_att env) (pe_stream env) (sess sv ref) of
        Panics \<Rightarrow> Panics
      | Sleeps \<Rightarrow> Sleeps
      | Returns (a, s') \<Rightarrow> Returns (stream_to_answer a, upd ref (\<lambda>_. s') sv))"

text \<open>The answer once \<open>ReadAvailable\<close> has returned: data, gone, or the idle heartbeat.\<close>

definition plain_answer :: "error + bytes \<Rightarrow> answer" where
  "plain_answer res =
     (case res of
        Inr d \<Rightarrow>
          if d \<noteq> [] then
            Answer \<lparr>rp_status = 200, rp_header = header_Set no_header ''Content-Type'' ''application/octet-stream'', rp_body = Raw d\<rparr>
          else Answer (WriteHeader 204)
      | Inl e \<Rightarrow> if e = EOF then Answer (writeError 410) else Answer (WriteHeader 204))"

text \<open>The plain session: write what came, then answer at once or wait.\<close>

definition plain_poll :: "ServerConfig \<Rightarrow> request \<Rightarrow> poll_env \<Rightarrow> nat \<Rightarrow> server \<Rightarrow> (answer \<times> server) outcome" where
  "plain_poll cfg rq env ref sv0 =
     (let sv = pe_body env sv0 in
      case read_all_max (cfg_MaxSendBytes cfg) (rq_body rq) of
        Inl e \<Rightarrow>
          if e = ErrBodyTooLarge
          then Returns (Answer (writeError 413), closeSession (pe_now env) ref ReasonProtocolViolation sv)
          else Returns (Answer (writeError 400), sv)
      | Inr data \<Rightarrow>
          let sv1 = (if data \<noteq> [] then upd ref (\<lambda>s. snd (writeUpstream s data)) sv else sv) in
          if header_true (rq_header rq) HeaderSendOnly then Returns (Answer (WriteHeader 200), sv1)
          else if s_pollMode (sess sv1 ref) = PollModeStream then run_stream cfg env ref sv1
          else
            (case ReadAvailable (nat (cfg_PollBufferSize cfg)) (toClient (sess sv1 ref)) (pe_wait env) of
               None \<Rightarrow> Sleeps
             | Some (res, p, _) \<Rightarrow>
                 let sv2 = upd ref (\<lambda>s. s\<lparr>toClient := p\<rparr>) (pe_others env sv1) in
                 Returns (plain_answer res, sv2)))"

definition poll_dispatch :: "ServerConfig \<Rightarrow> request \<Rightarrow> poll_env \<Rightarrow> nat \<Rightarrow> server \<Rightarrow> (answer \<times> server) outcome" where
  "poll_dispatch cfg rq env ref sv =
     (let s = sess sv ref; hd = rq_header rq in
      if header_true hd HeaderSendStream then
        if s_rs s \<noteq> None \<and> (s_transport s = TransportWebSocket \<or> \<not> s_uploadStream s) then Returns (Answer (writeError 400), sv)
        else
          (case pollSendStream cfg rq (pe_att env) (pe_send env) s of
             Panics \<Rightarrow> Panics
           | Sleeps \<Rightarrow> Sleeps
           | Returns (st, s') \<Rightarrow> Returns (status_to_answer st, upd ref (\<lambda>_. s') sv))
      else if s_rs s \<noteq> None then
        let send = header_true hd HeaderSendOnly; receive = header_true hd HeaderReceiveOnly in
        if s_transport s = TransportWebSocket \<or> send = receive then Returns (Answer (writeError 400), sv)
        else if receive \<and> s_pollMode s = PollModeStream then run_stream cfg env ref sv
        else if s_batchResume s \<and> (\<not> send \<or> \<not> s_uploadStream s) then
          (case pollBatchResumable cfg rq send (pe_att env) (pe_batch env) (pe_now env) ref sv of
             Panics \<Rightarrow> Panics
           | Sleeps \<Rightarrow> Sleeps
           | Returns (resp, sv') \<Rightarrow> Returns (case resp of None \<Rightarrow> NoAnswer | Some x \<Rightarrow> Answer x, sv'))
        else Returns (Answer (writeError 400), sv)
      else plain_poll cfg rq env ref sv)"

definition PollHandler :: "ServerConfig \<Rightarrow> Hooks \<Rightarrow> string \<Rightarrow> request \<Rightarrow> poll_env \<Rightarrow> server \<Rightarrow> (answer \<times> server) outcome" where
  "PollHandler cfg0 h ident rq env sv =
     (if check cfg0 \<noteq> None then Panics
      else
        (case Get ident sv of
           None \<Rightarrow> Returns (Answer (writeError 404), sv)
         | Some ref \<Rightarrow>
             (case beginPoll (pe_now env) (sess sv ref) of
                (False, _) \<Rightarrow> Returns (Answer (writeError 410), sv)
              | (True, s) \<Rightarrow>
                  let sv1 = upd ref (\<lambda>_. touch (pe_now env) s) sv;
                      sv2 = (case h_OnPoll h of None \<Rightarrow> sv1 | Some f \<Rightarrow> f ref sv1)
                  in case poll_dispatch (withDefaults cfg0) rq env ref sv2 of
                       Panics \<Rightarrow> Panics
                     | Sleeps \<Rightarrow> Sleeps
                     | Returns (a, sv3) \<Rightarrow> Returns (a, upd ref (endPoll (pe_endTime env)) (pe_end env sv3)))))"

definition DeleteHandler :: "ServerConfig \<Rightarrow> string \<Rightarrow> instant \<Rightarrow> server \<Rightarrow> (response \<times> server) outcome" where
  "DeleteHandler cfg0 ident now sv =
     (if check cfg0 \<noteq> None then Panics
      else
        (case Get ident sv of
           None \<Rightarrow> Returns (writeError 404, sv)
         | Some ref \<Rightarrow> Returns (WriteHeader 200, closeSession now ref ReasonClientDelete sv)))"

section \<open>Resuming\<close>

text \<open>
  \<open>re_kick\<close> is how each wait for an owner ends, \<open>re_left\<close> what the owners and others did to the
  server during these waits, \<open>re_end\<close> what they did until the handler returned.
\<close>

record resume_env =
  re_now :: instant
  re_kick :: "bool list"
  re_left :: "server \<Rightarrow> server"
  re_end :: "server \<Rightarrow> server"
  re_endTime :: instant

text \<open>The part between \<open>beginResume\<close> and \<open>endResume\<close>.\<close>

definition resume_exchange :: "ResumeRequest \<Rightarrow> resume_env \<Rightarrow> nat \<Rightarrow> attachments \<Rightarrow> server \<Rightarrow> (response \<times> server) outcome" where
  "resume_exchange req env ref a sv =
     (case kickAll (kick_targets a) (re_kick env) of
        None \<Rightarrow> Sleeps
      | Some (Some _) \<Rightarrow> Returns (writeError 503, re_left env sv)
      | Some None \<Rightarrow>
          let sv1 = re_left env sv in
          (case s_rs (sess sv1 ref) of
             None \<Rightarrow> Panics
           | Some r \<Rightarrow>
               (case resumeOut (rr_RecvOffset req) r of
                  None \<Rightarrow> Panics
                | Some (False, r') \<Rightarrow> Returns (writeError 409, upd ref (\<lambda>s. s\<lparr>s_rs := Some (markBroken r')\<rparr>) sv1)
                | Some (True, r') \<Rightarrow>
                    Returns (writeJSON 200 (ResumeBody \<lparr>Resumed = True, RecvOffset = recvOffsetNow r'\<rparr>),
                             upd ref (\<lambda>s. s\<lparr>s_rs := Some r'\<rparr>) sv1))))"

definition resume_attached :: "ResumeRequest \<Rightarrow> resume_env \<Rightarrow> nat \<Rightarrow> server \<Rightarrow> (response \<times> server) outcome" where
  "resume_attached req env ref sv =
     (if (case s_rs (sess sv ref) of None \<Rightarrow> False | Some r \<Rightarrow> isBroken r) then Returns (writeError 409, sv)
      else
        (case s_att (sess sv ref) of
           None \<Rightarrow> Panics
         | Some a \<Rightarrow>
             (case beginResume a of
                (False, _) \<Rightarrow> Returns (writeError 503, sv)
              | (True, a') \<Rightarrow>
                  (case resume_exchange req env ref a' (upd ref (\<lambda>s. s\<lparr>s_att := Some a'\<rparr>) sv) of
                     Panics \<Rightarrow> Panics
                   | Sleeps \<Rightarrow> Sleeps
                   | Returns (resp, sv') \<Rightarrow>
                       Returns (resp, upd ref (\<lambda>s. s\<lparr>s_att := map_option endResume (s_att s)\<rparr>) sv')))))"

definition ResumeHandler :: "ServerConfig \<Rightarrow> string \<Rightarrow> ResumeRequest decoded \<Rightarrow> resume_env \<Rightarrow> server
    \<Rightarrow> (response \<times> server) outcome" where
  "ResumeHandler cfg0 ident body env sv =
     (if check cfg0 \<noteq> None then Panics
      else
        (case Get ident sv of
           None \<Rightarrow> Returns (writeError 404, sv)
         | Some ref \<Rightarrow>
             (case decode zero_ResumeRequest body of
                None \<Rightarrow> Returns (writeError 400, sv)
              | Some req \<Rightarrow>
                  if rr_ProtocolVersion req \<noteq> ProtocolVersion then Returns (writeError 426, sv)
                  else if s_rs (sess sv ref) = None then Returns (writeError 409, sv)
                  else
                    (case beginPoll (re_now env) (sess sv ref) of
                       (False, _) \<Rightarrow> Returns (writeError 410, sv)
                     | (True, s) \<Rightarrow>
                         (case resume_attached req env ref (upd ref (\<lambda>_. touch (re_now env) s) sv) of
                            Panics \<Rightarrow> Panics
                          | Sleeps \<Rightarrow> Sleeps
                          | Returns (resp, sv') \<Rightarrow> Returns (resp, upd ref (endPoll (re_endTime env)) (re_end env sv')))))))"

end
