(* ===== verification/Serving.thy ===== *)
theory Serving
  imports Handler
begin

text \<open>
  The types the handlers rely on without checking. A session has a layer exactly when it has
  attachments, the layer satisfies its invariant, and at most \<open>B\<close> bytes have been sent through it;
  the store's references are valid. \<open>ConnectHandler\<close> establishes this for the sessions it creates
  and every handler keeps it, so that no nil pointer is followed and no slice is out of range.
\<close>

section \<open>Well-formed servers\<close>

definition wf_session :: "nat \<Rightarrow> session \<Rightarrow> bool" where
  "wf_session B s \<longleftrightarrow>
     (s_rs s = None \<longleftrightarrow> s_att s = None) \<and> (\<forall>r. s_rs s = Some r \<longrightarrow> rel_inv r \<and> unat (sendOffset r) \<le> B)"

definition wf_server :: "nat \<Rightarrow> server \<Rightarrow> bool" where
  "wf_server B sv \<longleftrightarrow> store_inv sv \<and> (\<forall>s \<in> set (heap sv). wf_session B s)"

text \<open>A session after a step: well-formed, the same session, and resumable as before.\<close>

definition goes :: "nat \<Rightarrow> session \<Rightarrow> session \<Rightarrow> bool" where
  "goes B s s' \<longleftrightarrow> wf_session B s' \<and> s_ID s' = s_ID s \<and> (s_rs s' = None \<longleftrightarrow> s_rs s = None)"

definition server_goes :: "nat \<Rightarrow> server \<Rightarrow> server \<Rightarrow> bool" where
  "server_goes B sv sv' \<longleftrightarrow>
     wf_server B sv' \<and> length (heap sv) \<le> length (heap sv') \<and>
     (\<forall>ref < length (heap sv). s_ID (sess sv' ref) = s_ID (sess sv ref) \<and> (s_rs (sess sv' ref) = None \<longleftrightarrow> s_rs (sess sv ref) = None))"

text \<open>What other goroutines do: the same steps.\<close>

definition session_ok :: "nat \<Rightarrow> (session \<Rightarrow> session) \<Rightarrow> bool" where
  "session_ok B f \<longleftrightarrow> (\<forall>s. wf_session B s \<longrightarrow> goes B s (f s))"

definition server_ok :: "nat \<Rightarrow> (server \<Rightarrow> server) \<Rightarrow> bool" where
  "server_ok B f \<longleftrightarrow> (\<forall>sv. wf_server B sv \<longrightarrow> server_goes B sv (f sv))"

definition hooks_ok :: "nat \<Rightarrow> Hooks \<Rightarrow> bool" where
  "hooks_ok B h \<longleftrightarrow>
     (\<forall>f ref. h_OnPoll h = Some f \<longrightarrow> server_ok B (f ref)) \<and>
     (\<forall>f ref meta. h_OnConnect h = Some f \<longrightarrow> server_ok B (\<lambda>sv. snd (f ref meta sv)))"

text \<open>
  While a poll runs, \<open>C\<close> bounds what has been sent once it is over. The owner of the download is
  the only one that sends, so the others leave the sent offset of its layer alone.
\<close>

definition poll_env_ok :: "nat \<Rightarrow> nat \<Rightarrow> poll_env \<Rightarrow> bool" where
  "poll_env_ok B C env \<longleftrightarrow>
     server_ok B (pe_body env) \<and> server_ok B (pe_others env) \<and> server_ok C (pe_end env) \<and>
     session_ok B (se_started (pe_stream env)) \<and> session_ok C (se_finish (pe_stream env)) \<and>
     (\<forall>t \<in> set (se_rturns (pe_stream env)). calm_turn (\<lambda>_ _. True) t) \<and>
     (\<forall>k. session_ok B (sn_others (pe_send env) k)) \<and>
     server_ok B (be_started (pe_batch env)) \<and> session_ok B (be_between (pe_batch env)) \<and>
     calm (be_meanwhile (pe_batch env)) \<and> server_ok C (be_finish (pe_batch env))"

text \<open>The most one poll sends: one chunk of the poll buffer per turn of its loop, or one for a batch.\<close>

definition poll_bytes :: "ServerConfig \<Rightarrow> poll_env \<Rightarrow> nat" where
  "poll_bytes cfg env = max 1 (length (se_rturns (pe_stream env))) * nat (cfg_PollBufferSize (withDefaults cfg))"

text \<open>A request to one of the handlers, with what the handler is given besides, and what is done for it.\<close>

datatype call =
    CallConnect "ConnectRequest decoded" "string option" instant
  | CallPoll string request poll_env
  | CallDelete string instant
  | CallResume string "ResumeRequest decoded" resume_env

fun served :: "('a \<times> server) outcome \<Rightarrow> server outcome" where
  "served (Returns (_, sv)) = Returns sv"
| "served Panics = Panics"
| "served Sleeps = Sleeps"

fun serve :: "ServerConfig \<Rightarrow> Hooks \<Rightarrow> call \<Rightarrow> server \<Rightarrow> server outcome" where
  "serve cfg h (CallConnect body newID now) sv = served (ConnectHandler cfg h body newID now sv)"
| "serve cfg h (CallPoll ident rq env) sv = served (PollHandler cfg h ident rq env sv)"
| "serve cfg h (CallDelete ident now) sv = served (DeleteHandler cfg ident now sv)"
| "serve cfg h (CallResume ident body env) sv = served (ResumeHandler cfg ident body env sv)"

fun call_ok :: "nat \<Rightarrow> nat \<Rightarrow> ServerConfig \<Rightarrow> call \<Rightarrow> bool" where
  "call_ok B C cfg (CallConnect body newID now) = True"
| "call_ok B C cfg (CallPoll ident rq env) =
     (poll_env_ok B C env \<and> length (r_bytes (rq_body rq)) < 2 ^ 64 \<and> B + poll_bytes cfg env \<le> C)"
| "call_ok B C cfg (CallDelete ident now) = True"
| "call_ok B C cfg (CallResume ident body env) = (server_ok B (re_left env) \<and> server_ok B (re_end env))"

text \<open>An outcome: no panic, and every result satisfies \<open>P\<close>.\<close>

fun safely :: "('a \<Rightarrow> bool) \<Rightarrow> 'a outcome \<Rightarrow> bool" where
  "safely P (Returns x) = P x"
| "safely P Panics = False"
| "safely P Sleeps = True"

section \<open>Lemmas on sessions\<close>

lemma safely_mono: "safely P x \<Longrightarrow> (\<And>y. P y \<Longrightarrow> Q y) \<Longrightarrow> safely Q x"
  by (cases x) auto

lemma goes_refl: "wf_session B s \<Longrightarrow> goes B s s"
  by (simp add: goes_def)

lemma goes_trans: "goes B s t \<Longrightarrow> goes C t u \<Longrightarrow> goes C s u"
  by (auto simp: goes_def)

lemma goes_wf: "goes B s t \<Longrightarrow> wf_session B t"
  by (simp add: goes_def)

lemma wf_session_mono: "wf_session B s \<Longrightarrow> B \<le> C \<Longrightarrow> wf_session C s"
  by (auto simp: wf_session_def)

lemma goes_mono: "goes B s t \<Longrightarrow> B \<le> C \<Longrightarrow> goes C s t"
  by (auto simp: goes_def intro: wf_session_mono)

lemma session_okD: "session_ok B f \<Longrightarrow> goes B s t \<Longrightarrow> goes B s (f t)"
  unfolding session_ok_def using goes_trans goes_wf by blast

lemma goes_att: "goes B s t \<Longrightarrow> s_rs s \<noteq> None \<Longrightarrow> goes B s (t\<lparr>s_att := Some a\<rparr>)"
  by (auto simp: goes_def wf_session_def)

lemma goes_layer:
  "goes B s t \<Longrightarrow> s_rs s \<noteq> None \<Longrightarrow> rel_inv r \<Longrightarrow> unat (sendOffset r) \<le> C \<Longrightarrow> goes C s (t\<lparr>s_rs := Some r\<rparr>)"
  by (auto simp: goes_def wf_session_def)

lemma goes_plain:
  assumes "goes B s t" and "s_rs t' = s_rs t" and "s_att t' = s_att t" and "s_ID t' = s_ID t"
  shows "goes B s t'"
  using assms by (auto simp: goes_def wf_session_def)

lemma goes_detach: "goes B s t \<Longrightarrow> goes B s (detach_session att t)"
  by (auto simp: goes_def wf_session_def detach_session_def)

lemma wf_layer: "wf_session B s \<Longrightarrow> s_rs s \<noteq> None \<Longrightarrow> \<exists>r a. s_rs s = Some r \<and> rel_inv r \<and> unat (sendOffset r) \<le> B \<and> s_att s = Some a"
  by (auto simp: wf_session_def)

lemma goes_has_layer:
  "goes B s t \<Longrightarrow> s_rs s \<noteq> None \<Longrightarrow> \<exists>r a. s_rs t = Some r \<and> rel_inv r \<and> unat (sendOffset r) \<le> B \<and> s_att t = Some a"
  by (auto simp: goes_def wf_session_def)

lemma goes_ack:
  assumes "goes B s t" and "s_rs s \<noteq> None"
  shows "\<exists>e t'. rs_ack n t = Some (e, t') \<and> goes B s t'"
proof -
  obtain r where r: "s_rs t = Some r" "rel_inv r" "unat (sendOffset r) \<le> B"
    using goes_has_layer [OF assms(1,2)] by blast
  from r(2) show ?thesis
  proof (cases rule: ack_cases [where n = n])
    case bad
    then show ?thesis using r assms goes_layer [OF assms rel_inv_markBroken [OF r(2)], of B] by (simp add: rs_ack_def)
  next
    case old
    then show ?thesis using r assms goes_layer [OF assms r(2,3)] by (simp add: rs_ack_def)
  next
    case moves
    let ?r = "r\<lparr>replay := drop (unat n - unat (ackedOffset r)) (replay r), ackedOffset := n, sentCursor := max (sentCursor r) n\<rparr>"
    have c: "max (sentCursor r) n \<le> sendOffset r" using r(2) moves(1) by (simp add: rel_inv_def)
    have "rel_inv ?r" by (rule release(2) [OF r(2) moves(2) less_imp_le [OF moves(3)] moves(1) _ c]) simp
    then show ?thesis using r moves goes_layer [OF assms, of ?r B] by (simp add: rs_ack_def)
  qed
qed

lemma recvIn_inv:
  assumes "rel_inv r" and "length p < 2 ^ 64"
  shows "\<exists>e r' i out'. recvIn off p r i0 out = Some (e, r', i, out') \<and> rel_inv r' \<and> sendOffset r' = sendOffset r"
  using assms(2)
proof (cases rule: recvIn_cases [where r = r and off = off and inp = i0 and out = out])
  case (extends k out')
  have "unat (recvOffset r + of_nat (length p - k)) = unat (recvOffset r) + (length p - k)"
    by (rule unat_add_u64) (use extends(1,3,4,5) in \<open>simp add: word_le_nat_alt\<close>)
  then show ?thesis using assms(1) extends(6) by (simp add: rel_inv_nat del: of_nat_diff)
qed (use assms(1) rel_inv_markBroken in auto)

lemma goes_recvIn:
  assumes "goes B s t" and "s_rs s \<noteq> None" and "length p < 2 ^ 64"
  shows "\<exists>e t'. rs_recvIn off p t = Some (e, t') \<and> goes B s t'"
proof -
  obtain r where r: "s_rs t = Some r" "rel_inv r" "unat (sendOffset r) \<le> B"
    using goes_has_layer [OF assms(1,2)] by blast
  obtain e r' i out where run: "recvIn off p r (toServer t) (toClient t) = Some (e, r', i, out)" "rel_inv r'" "sendOffset r' = sendOffset r"
    using recvIn_inv [OF r(2) assms(3)] by blast
  have "goes B s (t\<lparr>s_rs := Some r'\<rparr>)" using goes_layer [OF assms(1,2) run(2)] run(3) r(3) by simp
  then have "goes B s (t\<lparr>s_rs := Some r', toServer := i, toClient := out\<rparr>)" by (rule goes_plain) simp_all
  then show ?thesis using r(1) run(1) by (simp add: rs_recvIn_def)
qed

lemma goes_markBroken: "goes B s t \<Longrightarrow> goes B s (rs_markBroken t)"
  by (auto simp: goes_def wf_session_def rs_markBroken_def markBroken_def rel_inv_markBroken)

lemma goes_writeUpstream: "goes B s t \<Longrightarrow> goes B s (snd (writeUpstream t d))"
  by (erule goes_plain) (simp_all add: writeUpstream_def split: prod.split)

section \<open>Lemmas on the halves of a poll\<close>

lemma payload_small:
  assumes "frameReader_next f = (Inr (ty, p), f')"
  shows "length p < 2 ^ 64"
proof -
  have "unat (w :: 32 word) < 2 ^ 64" for w
    using unat_u32_less [of w] by simp
  then show ?thesis using assms
    by (auto simp: frameReader_next_def Let_def dest!: ReadFull_length split: prod.splits sum.splits if_splits)
qed

lemma splitSeq_length: "splitSeq p = Inr (off, d) \<Longrightarrow> length d \<le> length p"
  by (auto simp: splitSeq_def split: if_splits)

fun stepped :: "send_step \<Rightarrow> session" where
  "stepped (GoOn s) = s"
| "stepped (Stop st s) = s"

lemma send_frame_goes:
  assumes "goes B s t" and "resumable \<Longrightarrow> s_rs s \<noteq> None" and "length p < 2 ^ 64"
  shows "\<exists>x. send_frame probe resumable ty p t = Some x \<and> goes B s (stepped x)"
proof -
  consider (data) "ty = frameData" | (seq) "ty = frameSeqData" "resumable" | (ack) "ty = frameAck" "resumable"
    | (other) "ty \<noteq> frameData" "ty = frameSeqData \<or> ty = frameAck \<Longrightarrow> \<not> resumable" by blast
  then show ?thesis
  proof cases
    case data
    then show ?thesis using assms(1) goes_writeUpstream [OF assms(1), of p] goes_markBroken [OF assms(1)]
      by (auto simp: send_frame_def split: prod.split sum.split)
  next
    case seq
    show ?thesis
    proof (cases "splitSeq p")
      case (Inr x)
      obtain off d where x: "x = (off, d)" by (cases x)
      then have "length d < 2 ^ 64" using splitSeq_length Inr assms(3) by (metis order.strict_trans1)
      then obtain e t' where run: "rs_recvIn off d t = Some (e, t')" "goes B s t'"
        using goes_recvIn [OF assms(1)] assms(2) seq(2) by blast
      then show ?thesis using seq x Inr by (cases e) (simp_all add: send_frame_def frame_type_defs)
    qed (use seq assms(1) in \<open>simp add: send_frame_def frame_type_defs\<close>)
  next
    case ack
    show ?thesis
    proof (cases "decodeAck p")
      case (Inr n)
      obtain e t' where run: "rs_ack n t = Some (e, t')" "goes B s t'" using goes_ack [OF assms(1)] assms(2) ack(2) by blast
      then show ?thesis using ack Inr by (cases e) (simp_all add: send_frame_def frame_type_defs)
    qed (use ack assms(1) in \<open>simp add: send_frame_def frame_type_defs\<close>)
  next
    case other
    then show ?thesis using assms(1) by (auto simp: send_frame_def)
  qed
qed

lemma send_loop_safe:
  assumes "goes B s t" and "resumable \<Longrightarrow> s_rs s \<noteq> None" and "\<And>k. session_ok B (others k)"
  shows "safely (\<lambda>(st, t'). goes B s t') (send_loop probe resumable others k f t)"
  using assms
proof (induction probe resumable others k f t rule: send_loop.induct)
  case (1 probe resumable others k f t)
  have here: "goes B s (others k t)" using session_okD [OF 1(4) 1(2)] .
  show ?case
  proof (cases "frameReader_next f")
    case (Pair res f')
    show ?thesis
    proof (cases res)
      case (Inl e)
      then show ?thesis using here Pair by (simp add: send_loop.simps [of _ _ _ _ f])
    next
      case (Inr y)
      obtain ty p where y: "y = (ty, p)" by (cases y)
      note read = Pair [unfolded Inr y]
      obtain x where x: "send_frame probe resumable ty p (others k t) = Some x" "goes B s (stepped x)"
        using send_frame_goes [OF here 1(3) payload_small [OF read]] by blast
      show ?thesis
      proof (cases x)
        case (GoOn u)
        then have "safely (\<lambda>(st, t'). goes B s t') (send_loop probe resumable others (Suc k) f' u)"
          using 1(1) [OF read [symmetric] refl refl x(1)] x(2) 1(3,4) by simp
        then show ?thesis using GoOn read x(1) by (simp add: send_loop.simps [of _ _ _ _ f])
      next
        case (Stop st u)
        then show ?thesis using read x by (simp add: send_loop.simps [of _ _ _ _ f])
      qed
    qed
  qed
qed

lemma pollSendStream_safe:
  assumes "wf_session B s" and "\<And>k. session_ok B (sn_others env k)"
  shows "safely (\<lambda>(st, s'). goes B s s') (pollSendStream cfg rq att env s)"
proof (cases "s_rs s \<noteq> None \<and> \<not> header_true (rq_header rq) HeaderSendStreamProbe")
  case True
  obtain a where a: "s_att s = Some a" using wf_layer [OF assms(1)] True by blast
  have go: "goes B s (s\<lparr>s_att := Some a'\<rparr>)" for a' using goes_att [OF goes_refl [OF assms(1)]] True by simp
  show ?thesis
  proof (cases "attach attachUp att a (sn_attach env)")
    case None
    then show ?thesis using True a by (simp add: pollSendStream_def)
  next
    case (Some x)
    obtain e a' where x: "x = (e, a')" by (cases x)
    let ?f = "newFrameReader (rq_body rq) (cfg_MaxSendBytes cfg)"
    have "safely (\<lambda>(st, t'). goes B s t') (send_loop False True (sn_others env) 0 ?f (s\<lparr>s_att := Some a'\<rparr>))"
      by (rule send_loop_safe [OF go _ assms(2)]) (use True in simp)
    then show ?thesis using True a go Some x
      by (cases e) (auto simp: pollSendStream_def goes_detach split: outcome.split)
  qed
next
  case False
  then show ?thesis using send_loop_safe [OF goes_refl [OF assms(1)] _ assms(2), where resumable = False]
    by (auto simp: pollSendStream_def)
qed

lemma resumable_safe:
  assumes "rel_inv r" and "\<forall>t \<in> set ts. calm_turn (\<lambda>_ _. True) t" and "cap > 0"
    and "unat (sendOffset r) + length ts * cap < 2 ^ 64"
  shows "safely (\<lambda>(how, (r', p), w'). rel_inv r' \<and> unat (sendOffset r') \<le> unat (sendOffset r) + length ts * cap)
     (pollStreamResumable cap att ts (r, out) w)"
  using assms(1,2,4)
proof (induction ts arbitrary: r out w)
  case (Cons t ts)
  have calm: "calm_turn (\<lambda>_ _. True) t" and small: "unat (sendOffset r) + cap < 2 ^ 64" using Cons.prems by simp_all
  have any: "reflp (\<lambda>(_ :: nat) (_ :: nat). True)" "transp (\<lambda>(_ :: nat) (_ :: nat). True)" by (simp_all add: reflp_def transp_def)
  from Cons.prems(1) calm assms(3) small any show ?case
  proof (cases rule: resumable_turn_cases [where ts = ts and out = out and w = w and att = att])
    case (writes due res r1 out1 w1)
    have "unat (sendOffset r1) + length ts * cap < 2 ^ 64" using writes(4) Cons.prems(3) by simp
    with Cons.IH [OF writes(3)] Cons.prems(2)
    have "safely (\<lambda>(how, (r', p), w'). rel_inv r' \<and> unat (sendOffset r') \<le> unat (sendOffset r1) + length ts * cap)
        (pollStreamResumable cap att ts (r1, out1) w1)" by simp
    then have "safely (\<lambda>(how, (r', p), w'). rel_inv r' \<and> unat (sendOffset r') \<le> unat (sendOffset r) + length (t # ts) * cap)
        (pollStreamResumable cap att ts (r1, out1) w1)" by (rule safely_mono) (use writes(4) in auto)
    then show ?thesis using writes(3,4,6) by simp
  qed auto
qed simp

lemma pollStream_safe:
  assumes "wf_session B s" and "session_ok B (se_started env)" and "session_ok C (se_finish env)"
    and "\<forall>t \<in> set (se_rturns env). calm_turn (\<lambda>_ _. True) t" and "cap > 0" and "B + length (se_rturns env) * cap \<le> C" and "C < 2 ^ 64"
  shows "safely (\<lambda>(a, s'). goes C s s') (pollStream cap att env s)"
proof -
  have mono: "goes C s t" if "goes B s t" for t using that by (rule goes_mono) (use assms(6) in simp)
  note start = goes_refl [OF assms(1)]
  show ?thesis
  proof (cases "s_rs s = None")
    case True
    have "goes B s (se_started env s)" using session_okD [OF assms(2) start] .
    then have "goes C s ((se_started env s)\<lparr>toClient := p\<rparr>)" for p by (intro mono) (erule goes_plain, simp_all)
    then have "goes C s (se_finish env ((se_started env s)\<lparr>toClient := p\<rparr>))" for p by (rule session_okD [OF assms(3)])
    then show ?thesis using True mono [OF start] by (auto simp: pollStream_def Let_def split: option.split)
  next
    case False
    obtain r a where r: "s_rs s = Some r" "rel_inv r" "unat (sendOffset r) \<le> B" "s_att s = Some a" using wf_layer [OF assms(1) False] by blast
    have reset: "rel_inv (resetAck r)" "sendOffset (resetAck r) = sendOffset r" using r(2) by (simp_all add: resetAck_def rel_inv_def)
    show ?thesis
    proof (cases "attach attachDown att a (se_attach env)")
      case None
      then show ?thesis using False r mono [OF start] by (simp add: pollStream_def)
    next
      case (Some x)
      obtain e a' where x: "x = (e, a')" by (cases x)
      define s0 where "s0 = s\<lparr>s_att := Some a', s_rs := Some (resetAck r)\<rparr>"
      have "goes B s s0" unfolding s0_def
        by (rule goes_layer [OF goes_att [OF start False] False reset(1)]) (use reset(2) r(3) in simp)
      then have s1: "goes B s (se_started env s0)" by (rule session_okD [OF assms(2)])
      then obtain r1 where r1: "s_rs (se_started env s0) = Some r1" "rel_inv r1" "unat (sendOffset r1) \<le> B"
        using goes_has_layer [OF _ False] by blast
      have "safely (\<lambda>(how, (r', p), w'). rel_inv r' \<and> unat (sendOffset r') \<le> C)
          (pollStreamResumable cap att (se_rturns env) (r1, toClient (se_started env s0)) (se_writer env))"
        by (rule safely_mono [OF resumable_safe [OF r1(2) assms(4,5)]]) (use r1(3) assms(6,7) in auto)
      moreover have "goes C s (detach_session att (se_finish env ((se_started env s0)\<lparr>s_rs := Some r', toClient := p\<rparr>)))"
        if "rel_inv r'" "unat (sendOffset r') \<le> C" for r' p
        using goes_detach [OF session_okD [OF assms(3) goes_plain [OF goes_layer [OF s1 False that]]]] by simp
      ultimately show ?thesis using False r Some x r1(1) mono [OF start] mono [OF goes_att [OF start False]]
        by (cases e) (auto simp: pollStream_def Let_def s0_def [symmetric] split: outcome.split)
    qed
  qed
qed

lemma rewind_inv: "rel_inv r \<Longrightarrow> rel_inv (rewindToAcked r) \<and> sendOffset (rewindToAcked r) = sendOffset r"
  by (auto simp: rewindToAcked_def rel_inv_def intro: order_trans)

lemma nextOut_bounded:
  assumes "rel_inv r" and "leaves_cursor (\<lambda>_ _. True) f" and "cap > 0" and "unat (sendOffset r) + cap < 2 ^ 64"
  shows "safely (\<lambda>(res, r', p). rel_inv r' \<and> unat (sendOffset r') \<le> unat (sendOffset r) + cap) (nextOut cap r f out sch)"
proof -
  have f: "rel_inv (f r)" "sendOffset (f r) = sendOffset r" using assms(1,2) by (simp_all add: leaves_cursor_def)
  show ?thesis
  proof (cases "nextOut cap r f out sch")
    case (Returns x)
    obtain res r' p where x: "x = (res, r', p)" by (cases x) auto
    have "rel_inv r' \<and> unat (sendOffset r') \<le> unat (sendOffset r) + cap"
      using nextOut_chunk [OF assms Returns [unfolded x]] by (simp add: reflp_def)
    then show ?thesis using Returns x by simp
  next
    case Panics
    then show ?thesis using nextOut_safe [OF assms(1)] by simp
  qed simp
qed

lemma nextOut_grows:
  assumes "rel_inv r" and "calm f" and "cap > 0" and "unat (sendOffset r) + cap < 2 ^ 64"
  shows "safely (\<lambda>(res, r', p). rel_inv r' \<and> unat (sendOffset r') \<le> unat (sendOffset r) + cap) (nextOut cap r f out sch)"
proof -
  have "leaves_cursor (\<lambda>_ _. True) f"
    using assms(2) rel_inv_same_send by (auto simp: leaves_cursor_def calm_def same_send_def)
  then show ?thesis by (rule nextOut_bounded [OF assms(1) _ assms(3,4)])
qed

lemma batch_upload_goes:
  assumes "goes B s t" and "s_rs s \<noteq> None" and "session_ok B between" and "length d < 2 ^ 64"
  shows "\<exists>resp t'. batch_upload n off d between t = Some (resp, t') \<and> goes B s t'"
proof -
  obtain e t1 where a: "rs_ack n t = Some (e, t1)" "goes B s t1" using goes_ack [OF assms(1,2)] by blast
  obtain e2 t2 where b: "rs_recvIn off d (between t1) = Some (e2, t2)" "goes B s t2"
    using goes_recvIn [OF session_okD [OF assms(3) a(2)] assms(2,4)] by blast
  show ?thesis using a b by (cases e; cases e2) (simp_all add: batch_upload_def)
qed

lemma batch_download_safe:
  assumes "goes B s t" and "s_rs s \<noteq> None" and "session_ok B (be_between env)" and "calm (be_meanwhile env)"
    and "cap > 0" and "B + cap \<le> C" and "C < 2 ^ 64"
  shows "safely (\<lambda>(resp, t'). goes C s t') (batch_download cap n env t)"
proof -
  obtain e t1 where a: "rs_ack n t = Some (e, t1)" "goes B s t1" using goes_ack [OF assms(1,2)] by blast
  have t2: "goes B s (be_between env t1)" using session_okD [OF assms(3) a(2)] .
  obtain r where r: "s_rs (be_between env t1) = Some r" "rel_inv r" "unat (sendOffset r) \<le> B"
    using goes_has_layer [OF t2 assms(2)] by blast
  have "safely (\<lambda>(res, r', p). rel_inv r' \<and> unat (sendOffset r') \<le> C)
      (nextOut cap (rewindToAcked r) (be_meanwhile env) (toClient (be_between env t1)) (be_wait env))"
    by (rule safely_mono [OF nextOut_grows [of "rewindToAcked r"]])
      (use rewind_inv [OF r(2)] r(3) assms(4-7) in auto)
  moreover have "goes C s ((be_between env t1)\<lparr>s_rs := Some r', toClient := p\<rparr>)"
    if "rel_inv r'" "unat (sendOffset r') \<le> C" for r' p
    using goes_plain [OF goes_layer [OF t2 assms(2) that]] by simp
  moreover have "goes C s t1" using a(2) by (rule goes_mono) (use assms(6) in simp)
  ultimately show ?thesis using a(1) r(1)
    by (cases e) (auto simp: batch_download_def Let_def split: outcome.split sum.split)
qed

section \<open>Lemmas on servers\<close>

lemma wf_sess: "wf_server B sv \<Longrightarrow> ref < length (heap sv) \<Longrightarrow> wf_session B (sess sv ref)"
  by (simp add: wf_server_def)

lemma wf_server_mono: "wf_server B sv \<Longrightarrow> B \<le> C \<Longrightarrow> wf_server C sv"
  by (auto simp: wf_server_def intro: wf_session_mono)

lemma server_goes_refl: "wf_server B sv \<Longrightarrow> server_goes B sv sv"
  by (simp add: server_goes_def)

lemma server_goes_trans: "server_goes B sv sv1 \<Longrightarrow> server_goes C sv1 sv2 \<Longrightarrow> server_goes C sv sv2"
  by (auto simp: server_goes_def)

lemma server_goes_wf: "server_goes B sv sv' \<Longrightarrow> wf_server B sv'"
  by (simp add: server_goes_def)

lemma server_goes_mono: "server_goes B sv sv' \<Longrightarrow> B \<le> C \<Longrightarrow> server_goes C sv sv'"
  by (auto simp: server_goes_def intro: wf_server_mono)

lemma server_okD: "server_ok B f \<Longrightarrow> server_goes B sv sv' \<Longrightarrow> server_goes B sv (f sv')"
  unfolding server_ok_def using server_goes_trans server_goes_wf by blast

lemma server_goes_ref: "server_goes B sv sv' \<Longrightarrow> ref < length (heap sv) \<Longrightarrow> ref < length (heap sv')"
  by (simp add: server_goes_def)

lemma server_goes_rs: "server_goes B sv sv' \<Longrightarrow> ref < length (heap sv) \<Longrightarrow> s_rs (sess sv ref) \<noteq> None \<Longrightarrow> s_rs (sess sv' ref) \<noteq> None"
  by (simp add: server_goes_def)

lemma server_goes_upd:
  assumes "server_goes B sv sv'" and "ref < length (heap sv)" and "goes C (sess sv' ref) (f (sess sv' ref))" and "B \<le> C"
  shows "server_goes C sv (upd ref f sv')"
proof -
  have len: "ref < length (heap sv')" using server_goes_ref [OF assms(1,2)] .
  have wf: "wf_server C sv'" using server_goes_wf [OF assms(1)] assms(4) by (rule wf_server_mono)
  have at: "sess (upd ref f sv') x = (if x = ref then f (sess sv' ref) else sess sv' x)" for x using len by (rule sess_upd)
  have "\<forall>s \<in> set (heap (upd ref f sv')). wf_session C s"
    using assms(3) wf set_update_subset_insert [of "heap sv'" ref] by (auto simp: upd_def goes_def wf_server_def)
  moreover have "store_inv (upd ref f sv')" using wf assms(3) by (auto simp: wf_server_def store_inv_def at goes_def)
  ultimately show ?thesis using assms(1,3) by (auto simp: server_goes_def wf_server_def at goes_def)
qed

lemma server_goes_plain:
  assumes "server_goes B sv sv'" and "ref < length (heap sv)"
    and "\<And>s. s_rs (f s) = s_rs s \<and> s_att (f s) = s_att s \<and> s_ID (f s) = s_ID s"
  shows "server_goes B sv (upd ref f sv')"
proof (rule server_goes_upd [OF assms(1,2) _ order_refl])
  have "wf_session B (sess sv' ref)" using server_goes_wf [OF assms(1)] server_goes_ref [OF assms(1,2)] by (rule wf_sess)
  then show "goes B (sess sv' ref) (f (sess sv' ref))" using assms(3) by (intro goes_plain [OF goes_refl]) simp_all
qed

lemma server_goes_store:
  assumes "server_goes B sv sv'" and "heap sv'' = heap sv'" and "sessions sv'' \<subseteq>\<^sub>m sessions sv'"
  shows "server_goes B sv sv''"
  using assms by (auto simp: server_goes_def wf_server_def store_inv_def map_le_def dom_def)

lemma server_goes_close:
  assumes "server_goes B sv sv'" and "ref < length (heap sv)"
  shows "server_goes B sv (closeSession now ref reason sv')"
proof -
  have "store_inv sv'" "ref < length (heap sv')"
    using assms(1) server_goes_ref [OF assms] by (simp_all add: server_goes_def wf_server_def)
  then show ?thesis
  proof (cases rule: removeAndMarkClosed_cases [where now = now and idle = False])
    case no
    then show ?thesis using assms(1) by (simp add: closeSession_def)
  next
    case yes
    have "server_goes B sv (upd ref (\<lambda>s. s\<lparr>s_closed := True\<rparr>) sv')" using server_goes_plain [OF assms] by simp
    then have "server_goes B sv (evict ref sv')"
      by (rule server_goes_store) (simp_all add: evict_def map_le_def)
    then have "server_goes B sv (upd ref closePipes (evict ref sv'))"
      by (rule server_goes_plain [OF _ assms(2)]) (simp add: closePipes_def)
    then have "server_goes B sv (OnDisconnect ref reason (upd ref closePipes (evict ref sv')))"
      by (rule server_goes_store) simp_all
    then show ?thesis using yes(1) by (simp add: closeSession_def)
  qed
qed

section \<open>Lemmas on the handlers\<close>

lemma run_stream_safe:
  assumes "server_goes B sv sv'" and "ref < length (heap sv)" and "poll_env_ok B C env"
    and "cap = nat (cfg_PollBufferSize cfg)" and "cap > 0" and "B + length (se_rturns (pe_stream env)) * cap \<le> C" and "C < 2 ^ 64"
  shows "safely (\<lambda>(a, sv''). server_goes C sv sv'') (run_stream cfg env ref sv')"
proof -
  have wf: "wf_session B (sess sv' ref)" using server_goes_wf [OF assms(1)] server_goes_ref [OF assms(1,2)] by (rule wf_sess)
  have ok: "session_ok B (se_started (pe_stream env))" "session_ok C (se_finish (pe_stream env))"
      "\<forall>t \<in> set (se_rturns (pe_stream env)). calm_turn (\<lambda>_ _. True) t"
    using assms(3) by (simp_all add: poll_env_ok_def)
  have "safely (\<lambda>(a, s'). goes C (sess sv' ref) s') (pollStream cap (pe_att env) (pe_stream env) (sess sv' ref))"
    by (rule pollStream_safe [OF wf ok assms(5-7)])
  then show ?thesis unfolding run_stream_def assms(4) [symmetric]
    using server_goes_upd [OF assms(1,2)] assms(6) by (auto split: outcome.split)
qed

lemma plain_poll_safe:
  assumes "server_goes B sv sv'" and "ref < length (heap sv)" and "poll_env_ok B C env"
    and "cap = nat (cfg_PollBufferSize cfg)" and "cap > 0" and "B + length (se_rturns (pe_stream env)) * cap \<le> C" and "C < 2 ^ 64"
  shows "safely (\<lambda>(a, sv''). server_goes C sv sv'') (plain_poll cfg rq env ref sv')"
proof -
  have mono: "server_goes C sv x" if "server_goes B sv x" for x using that by (rule server_goes_mono) (use assms(6) in simp)
  have ok: "server_ok B (pe_body env)" "server_ok B (pe_others env)" using assms(3) by (simp_all add: poll_env_ok_def)
  have body: "server_goes B sv (pe_body env sv')" using server_okD [OF ok(1) assms(1)] .
  have up: "server_goes B sv (upd ref (\<lambda>s. snd (writeUpstream s d)) (pe_body env sv'))" for d
    by (rule server_goes_plain [OF body assms(2)]) (simp add: writeUpstream_def split: prod.split)
  have rest: "server_goes B sv (upd ref (\<lambda>s. s\<lparr>toClient := p\<rparr>) (pe_others env x))" if "server_goes B sv x" for p x
    by (rule server_goes_plain [OF server_okD [OF ok(2) that] assms(2)]) simp
  define sv1 where "sv1 d = (if d \<noteq> [] then upd ref (\<lambda>s. snd (writeUpstream s d)) (pe_body env sv') else pe_body env sv')" for d
  have sv1: "server_goes B sv (sv1 d)" for d using up body by (simp add: sv1_def)
  show ?thesis
  proof (cases "read_all_max (cfg_MaxSendBytes cfg) (rq_body rq)")
    case (Inl e)
    then show ?thesis using mono [OF body] mono [OF server_goes_close [OF body assms(2)]] by (simp add: plain_poll_def Let_def)
  next
    case (Inr d)
    have run: "plain_poll cfg rq env ref sv' =
        (if header_true (rq_header rq) HeaderSendOnly then Returns (Answer (WriteHeader 200), sv1 d)
         else if s_pollMode (sess (sv1 d) ref) = PollModeStream then run_stream cfg env ref (sv1 d)
         else case ReadAvailable cap (toClient (sess (sv1 d) ref)) (pe_wait env) of
           None \<Rightarrow> Sleeps
         | Some (res, p, _) \<Rightarrow> Returns (plain_answer res, upd ref (\<lambda>s. s\<lparr>toClient := p\<rparr>) (pe_others env (sv1 d))))"
      unfolding plain_poll_def Let_def assms(4) sv1_def Inr by (auto split: option.split)
    show ?thesis
      using mono [OF sv1 [of d]] mono [OF rest [OF sv1 [of d]]] run_stream_safe [OF sv1 [of d] assms(2-7)]
      by (simp add: run split: option.split prod.split)
  qed
qed

lemma batch_owned_safe:
  assumes "server_goes B sv sv'" and "ref < length (heap sv)" and "s_rs (sess sv ref) \<noteq> None"
    and "session_ok B (be_between env)" and "calm (be_meanwhile env)" and "length (r_bytes (rq_body rq)) < 2 ^ 64"
    and "cap = nat (cfg_PollBufferSize cfg)" and "cap > 0" and "B + cap \<le> C" and "C < 2 ^ 64"
  shows "safely (\<lambda>(resp, sv''). server_goes C sv sv'') (batch_owned cfg rq send n off env now ref sv')"
proof -
  have mono: "server_goes C sv x" if "server_goes B sv x" for x using that by (rule server_goes_mono) (use assms(9) in simp)
  have rs: "s_rs (sess sv' ref) \<noteq> None" using server_goes_rs [OF assms(1-3)] .
  have wf: "wf_session B (sess sv' ref)" using server_goes_wf [OF assms(1)] server_goes_ref [OF assms(1,2)] by (rule wf_sess)
  note same = goes_refl [OF wf]
  have put: "server_goes C sv (upd ref (\<lambda>_. s') sv')" if "goes C (sess sv' ref) s'" for s'
    using server_goes_upd [OF assms(1,2), where f = "\<lambda>_. s'"] that assms(9) by simp
  have up: "\<exists>resp s'. batch_upload n off d (be_between env) (sess sv' ref) = Some (resp, s') \<and> goes C (sess sv' ref) s'"
    if "length d < 2 ^ 64" for d
    using batch_upload_goes [OF same rs assms(4) that] goes_mono [of B _ _ C] assms(9) by (metis add_leD1)
  have down: "safely (\<lambda>(resp, t'). goes C (sess sv' ref) t') (batch_download cap n env (sess sv' ref))"
    by (rule batch_download_safe [OF same rs assms(4,5,8,9,10)])
  show ?thesis
  proof (cases "if send then read_all_max (cfg_MaxSendBytes cfg) (rq_body rq) else Inr []")
    case (Inl e)
    then show ?thesis using mono [OF assms(1)] mono [OF server_goes_close [OF assms(1,2)]] by (simp add: batch_owned_def)
  next
    case (Inr d)
    then have d: "length d < 2 ^ 64" using assms(6) by (auto simp: read_all_max_def split: if_splits)
    show ?thesis
    proof (cases send)
      case True
      then show ?thesis using Inr up [OF d] put mono [OF assms(1)] by (auto simp: batch_owned_def)
    next
      case False
      then show ?thesis using Inr down put mono [OF assms(1)] unfolding batch_owned_def assms(7) [symmetric]
        by (auto split: outcome.split)
    qed
  qed
qed

lemma pollBatchResumable_safe:
  assumes "server_goes B sv sv'" and "ref < length (heap sv)" and "s_rs (sess sv ref) \<noteq> None" and "poll_env_ok B C env"
    and "length (r_bytes (rq_body rq)) < 2 ^ 64"
    and "cap = nat (cfg_PollBufferSize cfg)" and "cap > 0" and "B + cap \<le> C" and "C < 2 ^ 64"
  shows "safely (\<lambda>(resp, sv''). server_goes C sv sv'') (pollBatchResumable cfg rq send att (pe_batch env) now ref sv')"
proof -
  let ?e = "pe_batch env"
  have mono: "server_goes C sv x" if "server_goes B sv x" for x using that by (rule server_goes_mono) (use assms(8) in simp)
  have rs: "s_rs (sess sv' ref) \<noteq> None" using server_goes_rs [OF assms(1-3)] .
  have wf: "wf_session B (sess sv' ref)" using server_goes_wf [OF assms(1)] server_goes_ref [OF assms(1,2)] by (rule wf_sess)
  obtain a where a: "s_att (sess sv' ref) = Some a" using wf_layer [OF wf rs] by blast
  have ok: "server_ok B (be_started ?e)" "session_ok B (be_between ?e)" "calm (be_meanwhile ?e)" "server_ok C (be_finish ?e)"
    using assms(4) by (simp_all add: poll_env_ok_def)
  have att: "server_goes B sv (upd ref (\<lambda>s. s\<lparr>s_att := Some a'\<rparr>) sv')" for a'
    by (rule server_goes_upd [OF assms(1,2) _ order_refl]) (rule goes_att [OF goes_refl [OF wf] rs])
  have run: "safely (\<lambda>(resp, sv''). server_goes C sv sv'')
      (batch_owned cfg rq send n off ?e now ref (be_started ?e (upd ref (\<lambda>s. s\<lparr>s_att := Some a'\<rparr>) sv')))" for n off a'
    by (rule batch_owned_safe [OF server_okD [OF ok(1) att] assms(2,3) ok(2,3) assms(5-9)])
  have fin: "server_goes C sv (upd ref (detach_session att) (be_finish ?e x))" if "server_goes C sv x" for x
  proof (rule server_goes_upd [OF server_okD [OF ok(4) that] assms(2) _ order_refl])
    have "wf_session C (sess (be_finish ?e x) ref)"
      using server_goes_wf [OF server_okD [OF ok(4) that]] server_goes_ref [OF server_okD [OF ok(4) that] assms(2)] by (rule wf_sess)
    then show "goes C (sess (be_finish ?e x) ref) (detach_session att (sess (be_finish ?e x) ref))" by (rule goes_detach [OF goes_refl])
  qed
  have owned: "safely (\<lambda>(resp, sv''). server_goes C sv sv'')
      (case batch_owned cfg rq send n off ?e now ref (be_started ?e (upd ref (\<lambda>s. s\<lparr>s_att := Some a'\<rparr>) sv')) of
         Panics \<Rightarrow> Panics | Sleeps \<Rightarrow> Sleeps | Returns (resp, sv') \<Rightarrow> Returns (resp, upd ref (detach_session att) (be_finish ?e sv')))"
    for n off a' using run [of n off a'] fin by (auto split: outcome.split)
  let ?off = "if send then batchOffset (rq_header rq) HeaderSendOffset
     else if rq_ContentLength rq \<noteq> 0 \<and> \<not> bodyIsEmpty (rq_body rq) then Inl ErrUnexpectedBody else Inr 0"
  show ?thesis
  proof (cases "batchOffset (rq_header rq) HeaderRecvOffset")
    case (Inl e)
    then show ?thesis using mono [OF assms(1)] by (simp add: pollBatchResumable_def)
  next
    case n: (Inr n)
    show ?thesis
    proof (cases ?off)
      case (Inl e)
      then show ?thesis unfolding pollBatchResumable_def n Inl using mono [OF assms(1)] by simp
    next
      case (Inr off)
      show ?thesis unfolding pollBatchResumable_def n Inr a
        using mono [OF att] owned [of n off] by (auto split: option.split)
    qed
  qed
qed

lemma poll_dispatch_safe:
  assumes "wf_server B sv" and "ref < length (heap sv)" and "poll_env_ok B C env" and "length (r_bytes (rq_body rq)) < 2 ^ 64"
    and "cap = nat (cfg_PollBufferSize cfg)" and "cap > 0" and "B + max 1 (length (se_rturns (pe_stream env))) * cap \<le> C" and "C < 2 ^ 64"
  shows "safely (\<lambda>(a, sv'). server_goes C sv sv') (poll_dispatch cfg rq env ref sv)"
proof -
  let ?n = "length (se_rturns (pe_stream env))"
  have "?n * cap \<le> max 1 ?n * cap" "cap \<le> max 1 ?n * cap" by (simp_all add: mult_le_mono1 max_def)
  then have c: "B + ?n * cap \<le> C" "B + cap \<le> C" "B \<le> C" using assms(7) by linarith+
  note same = server_goes_refl [OF assms(1)]
  have stay: "server_goes C sv sv" using server_goes_mono [OF same c(3)] .
  have wf: "wf_session B (sess sv ref)" using assms(1,2) by (rule wf_sess)
  have "session_ok B (sn_others (pe_send env) k)" for k using assms(3) by (simp add: poll_env_ok_def)
  then have "safely (\<lambda>(st, s'). goes C (sess sv ref) s') (pollSendStream cfg rq (pe_att env) (pe_send env) (sess sv ref))"
    using safely_mono [OF pollSendStream_safe [OF wf]] goes_mono [OF _ c(3)] by fastforce
  then have send: "safely (\<lambda>(a, sv'). server_goes C sv sv')
      (case pollSendStream cfg rq (pe_att env) (pe_send env) (sess sv ref) of
         Panics \<Rightarrow> Panics | Sleeps \<Rightarrow> Sleeps | Returns (st, s') \<Rightarrow> Returns (status_to_answer st, upd ref (\<lambda>_. s') sv))"
    using server_goes_upd [OF same assms(2)] c(3) by (auto split: outcome.split)
  note stream = run_stream_safe [OF same assms(2,3,5,6) c(1) assms(8)]
  note plain = plain_poll_safe [OF same assms(2,3,5,6) c(1) assms(8), of rq]
  have batch: "safely (\<lambda>(a, sv'). server_goes C sv sv')
      (case pollBatchResumable cfg rq send (pe_att env) (pe_batch env) (pe_now env) ref sv of
         Panics \<Rightarrow> Panics | Sleeps \<Rightarrow> Sleeps
       | Returns (resp, sv') \<Rightarrow> Returns (case resp of None \<Rightarrow> NoAnswer | Some x \<Rightarrow> Answer x, sv'))"
    if "s_rs (sess sv ref) \<noteq> None" for send
    using pollBatchResumable_safe [OF same assms(2) that assms(3,4,5,6) c(2) assms(8), of send "pe_att env" "pe_now env"]
    by (auto split: outcome.split)
  show ?thesis
  proof (cases "s_rs (sess sv ref) = None")
    case True
    then show ?thesis using send plain by (simp add: poll_dispatch_def Let_def)
  next
    case False
    then show ?thesis using send stream batch [OF False] stay by (simp add: poll_dispatch_def Let_def)
  qed
qed

lemma buffer_positive: "0 < nat (cfg_PollBufferSize (withDefaults cfg))"
  by (simp add: withDefaults_def DefaultPollBufferSize_def)

lemma beginPoll_goes: "wf_session B s \<Longrightarrow> beginPoll now s = (ok, s') \<Longrightarrow> goes B s (touch later s')"
  by (rule goes_plain [OF goes_refl]) (auto simp: beginPoll_def touch_def split: if_splits)

lemma endPoll_goes: "server_goes B sv sv' \<Longrightarrow> ref < length (heap sv) \<Longrightarrow> server_goes B sv (upd ref (endPoll now) sv')"
  by (rule server_goes_plain) (simp_all add: endPoll_def noteDetachedLocked_def)

lemma Get_ref: "wf_server B sv \<Longrightarrow> Get ident sv = Some ref \<Longrightarrow> ref < length (heap sv)"
  by (auto simp: wf_server_def store_inv_def Get_def)

lemma PollHandler_safe:
  assumes "wf_server B sv" and "hooks_ok B h" and "poll_env_ok B C env" and "length (r_bytes (rq_body rq)) < 2 ^ 64"
    and "check cfg = None" and "B + poll_bytes cfg env \<le> C" and "C < 2 ^ 64"
  shows "safely (\<lambda>(a, sv'). server_goes C sv sv') (PollHandler cfg h ident rq env sv)"
proof (cases "Get ident sv")
  case None
  have "server_goes C sv sv" using server_goes_mono [OF server_goes_refl [OF assms(1)]] assms(6) by simp
  then show ?thesis using None assms(5) by (simp add: PollHandler_def)
next
  case (Some ref)
  note same = server_goes_refl [OF assms(1)]
  have ref: "ref < length (heap sv)" using Get_ref [OF assms(1) Some] .
  obtain ok s where b: "beginPoll (pe_now env) (sess sv ref) = (ok, s)" by (cases "beginPoll (pe_now env) (sess sv ref)")
  let ?sv1 = "upd ref (\<lambda>_. touch (pe_now env) s) sv"
  define sv2 where "sv2 = (case h_OnPoll h of None \<Rightarrow> ?sv1 | Some f \<Rightarrow> f ref ?sv1)"
  have "server_goes B sv ?sv1"
    using server_goes_upd [OF same ref _ order_refl] beginPoll_goes [OF wf_sess [OF assms(1) ref] b] by simp
  then have sv2: "server_goes B sv sv2" using assms(2) server_okD by (auto simp: sv2_def hooks_ok_def split: option.split)
  have env: "server_ok C (pe_end env)" using assms(3) by (simp add: poll_env_ok_def)
  have "safely (\<lambda>(a, sv'). server_goes C sv2 sv') (poll_dispatch (withDefaults cfg) rq env ref sv2)"
    by (rule poll_dispatch_safe [OF server_goes_wf [OF sv2] server_goes_ref [OF sv2 ref] assms(3,4) refl buffer_positive])
      (use assms(6,7) in \<open>simp_all add: poll_bytes_def\<close>)
  then have "safely (\<lambda>(a, sv'). server_goes C sv (upd ref (endPoll (pe_endTime env)) (pe_end env sv')))
      (poll_dispatch (withDefaults cfg) rq env ref sv2)"
    by (rule safely_mono) (auto intro: endPoll_goes [OF server_okD [OF env] ref] server_goes_trans [OF sv2])
  then have "safely (\<lambda>(a, sv'). server_goes C sv sv')
      (case poll_dispatch (withDefaults cfg) rq env ref sv2 of
         Panics \<Rightarrow> Panics | Sleeps \<Rightarrow> Sleeps
       | Returns (a, sv3) \<Rightarrow> Returns (a, upd ref (endPoll (pe_endTime env)) (pe_end env sv3)))"
    by (auto split: outcome.split)
  moreover have "server_goes C sv sv" using server_goes_mono [OF same] assms(6) by simp
  ultimately show ?thesis using Some assms(5) by (cases ok) (simp_all add: PollHandler_def b sv2_def [symmetric] Let_def)
qed

lemma DeleteHandler_safe:
  assumes "wf_server B sv" and "check cfg = None"
  shows "safely (\<lambda>(a, sv'). server_goes B sv sv') (DeleteHandler cfg ident now sv)"
  using server_goes_refl [OF assms(1)] server_goes_close [OF server_goes_refl [OF assms(1)] Get_ref [OF assms(1)]] assms(2)
  by (simp add: DeleteHandler_def split: option.split)

lemma resume_exchange_safe:
  assumes "server_goes B sv sv'" and "ref < length (heap sv)" and "s_rs (sess sv ref) \<noteq> None" and "server_ok B (re_left env)"
  shows "safely (\<lambda>(resp, sv''). server_goes B sv sv'') (resume_exchange req env ref a sv')"
proof -
  have sv1: "server_goes B sv (re_left env sv')" using server_okD [OF assms(4,1)] .
  have wf: "wf_session B (sess (re_left env sv') ref)" using server_goes_wf [OF sv1] server_goes_ref [OF sv1 assms(2)] by (rule wf_sess)
  have rs: "s_rs (sess (re_left env sv') ref) \<noteq> None" using server_goes_rs [OF sv1 assms(2,3)] .
  then obtain r where r: "s_rs (sess (re_left env sv') ref) = Some r" "rel_inv r" "unat (sendOffset r) \<le> B"
    using wf_layer [OF wf] by blast
  have put: "server_goes B sv (upd ref (\<lambda>s. s\<lparr>s_rs := Some r'\<rparr>) (re_left env sv'))"
    if "rel_inv r'" "sendOffset r' = sendOffset r" for r'
    using server_goes_upd [OF sv1 assms(2) _ order_refl] goes_layer [OF goes_refl [OF wf] rs that(1)] that(2) r(3) by simp
  have run: "safely (\<lambda>(resp, sv''). server_goes B sv sv'')
      (case resumeOut (rr_RecvOffset req) r of
         None \<Rightarrow> Panics
       | Some (False, r') \<Rightarrow> Returns (writeError 409, upd ref (\<lambda>s. s\<lparr>s_rs := Some (markBroken r')\<rparr>) (re_left env sv'))
       | Some (True, r') \<Rightarrow>
           Returns (writeJSON 200 (ResumeBody \<lparr>Resumed = True, RecvOffset = recvOffsetNow r'\<rparr>),
                    upd ref (\<lambda>s. s\<lparr>s_rs := Some r'\<rparr>) (re_left env sv')))"
    using r(2)
  proof (cases rule: resumeOut_cases [where n = "rr_RecvOffset req"])
    case refused
    then show ?thesis using put [of "markBroken r"] rel_inv_markBroken [OF r(2)] by (simp add: markBroken_def)
  next
    case rewinds
    then show ?thesis using put [OF release(2) [OF r(2) rewinds(1-3) order_refl rewinds(3)]] by simp
  qed
  show ?thesis
  proof (cases "kickAll (kick_targets a) (re_kick env)")
    case None
    then show ?thesis by (simp add: resume_exchange_def)
  next
    case (Some e)
    then show ?thesis using sv1 run by (cases e) (simp_all add: resume_exchange_def r(1) Let_def)
  qed
qed

lemma resume_attached_safe:
  assumes "server_goes B sv sv'" and "ref < length (heap sv)" and "s_rs (sess sv ref) \<noteq> None" and "server_ok B (re_left env)"
  shows "safely (\<lambda>(resp, sv''). server_goes B sv sv'') (resume_attached req env ref sv')"
proof -
  have wf: "wf_session B (sess sv' ref)" using server_goes_wf [OF assms(1)] server_goes_ref [OF assms(1,2)] by (rule wf_sess)
  have rs: "s_rs (sess sv' ref) \<noteq> None" using server_goes_rs [OF assms(1-3)] .
  obtain r a where r: "s_rs (sess sv' ref) = Some r" "s_att (sess sv' ref) = Some a" using wf_layer [OF wf rs] by blast
  obtain ok a' where b: "beginResume a = (ok, a')" by (cases "beginResume a")
  have att: "server_goes B sv (upd ref (\<lambda>s. s\<lparr>s_att := Some a'\<rparr>) sv')"
    by (rule server_goes_upd [OF assms(1,2) _ order_refl]) (rule goes_att [OF goes_refl [OF wf] rs])
  have fin: "server_goes B sv (upd ref (\<lambda>s. s\<lparr>s_att := map_option endResume (s_att s)\<rparr>) x)" if "server_goes B sv x" for x
  proof (rule server_goes_upd [OF that assms(2) _ order_refl])
    have "wf_session B (sess x ref)" using server_goes_wf [OF that] server_goes_ref [OF that assms(2)] by (rule wf_sess)
    then show "goes B (sess x ref) ((sess x ref)\<lparr>s_att := map_option endResume (s_att (sess x ref))\<rparr>)"
      by (auto simp: goes_def wf_session_def)
  qed
  have "safely (\<lambda>(resp, sv''). server_goes B sv sv'') (resume_exchange req env ref a' (upd ref (\<lambda>s. s\<lparr>s_att := Some a'\<rparr>) sv'))"
    by (rule resume_exchange_safe [OF att assms(2-4)])
  then show ?thesis using fin assms(1) r b by (cases ok) (auto simp: resume_attached_def split: outcome.split)
qed

lemma ResumeHandler_safe:
  assumes "wf_server B sv" and "check cfg = None" and "server_ok B (re_left env)" and "server_ok B (re_end env)"
  shows "safely (\<lambda>(a, sv'). server_goes B sv sv') (ResumeHandler cfg ident body env sv)"
proof -
  note same = server_goes_refl [OF assms(1)]
  have run: "safely (\<lambda>(a, sv'). server_goes B sv sv')
      (case beginPoll (re_now env) (sess sv ref) of
         (False, _) \<Rightarrow> Returns (writeError 410, sv)
       | (True, s) \<Rightarrow>
           (case resume_attached req env ref (upd ref (\<lambda>_. touch (re_now env) s) sv) of
              Panics \<Rightarrow> Panics | Sleeps \<Rightarrow> Sleeps
            | Returns (resp, sv') \<Rightarrow> Returns (resp, upd ref (endPoll (re_endTime env)) (re_end env sv'))))"
    if "Get ident sv = Some ref" "s_rs (sess sv ref) \<noteq> None" for ref req
  proof -
    have ref: "ref < length (heap sv)" using Get_ref [OF assms(1) that(1)] .
    obtain ok s where b: "beginPoll (re_now env) (sess sv ref) = (ok, s)" by (cases "beginPoll (re_now env) (sess sv ref)")
    have sv1: "server_goes B sv (upd ref (\<lambda>_. touch (re_now env) s) sv)"
      using server_goes_upd [OF same ref _ order_refl] beginPoll_goes [OF wf_sess [OF assms(1) ref] b] by simp
    have "server_goes B sv (upd ref (endPoll (re_endTime env)) (re_end env x))" if "server_goes B sv x" for x
      using endPoll_goes [OF server_okD [OF assms(4) that] ref] .
    then show ?thesis using resume_attached_safe [OF sv1 ref that(2) assms(3), of req] same b
      by (cases ok) (auto split: outcome.split)
  qed
  then show ?thesis using same assms(2)
    by (cases "decode zero_ResumeRequest body") (simp_all add: ResumeHandler_def split: option.split)
qed

lemma connect_session_fields:
  "s_ID (connect_session cfg req ident meta now) = ident" "s_meta (connect_session cfg req ident meta now) = meta"
  "s_pollMode (connect_session cfg req ident meta now) = negotiatePollMode (cfg_PollMode cfg) (cr_PreferStreamMode req)"
  "s_uploadStream (connect_session cfg req ident meta now) \<longleftrightarrow>
     negotiatePollMode (cfg_PollMode cfg) (cr_PreferStreamUpload req) = PollModeStream"
  "s_transport (connect_session cfg req ident meta now) = connect_transport cfg req"
  "\<not> s_closed (connect_session cfg req ident meta now)" "pollInFlight (connect_session cfg req ident meta now) = 0"
  by (simp_all add: connect_session_def Let_def watchHighWater_def newSession_def enableResume_def)

lemma connect_session_resume:
  "Resumable (connect_session cfg req ident meta now) \<longleftrightarrow> resp_Resumable (connect_response cfg req ident meta)"
  "s_batchResume (connect_session cfg req ident meta now) \<longleftrightarrow> resp_BatchResume (connect_response cfg req ident meta)"
  "wf_session B (connect_session cfg req ident meta now)"
  by (auto simp: connect_session_def connect_response_def Let_def watchHighWater_def newSession_def enableResume_def
      Resumable_def isBroken_def newReliable_def disableEagerAck_def wf_session_def rel_inv_def
      DefaultMaxReplayBytes_def)

text \<open>A session that was registered, as the response to its client describes it.\<close>

definition described :: "session \<Rightarrow> ConnectResponse \<Rightarrow> bool" where
  "described s cr \<longleftrightarrow>
     s_ID s = resp_SessionID cr \<and> s_meta s = resp_Meta cr \<and> s_pollMode s = resp_PollMode cr \<and>
     (s_uploadStream s \<longleftrightarrow> resp_UploadStreamMode cr = PollModeStream) \<and> s_transport s = resp_Transport cr \<and>
     (Resumable s \<longleftrightarrow> resp_Resumable cr) \<and> (s_batchResume s \<longleftrightarrow> resp_BatchResume cr)"

lemma connect_session_described: "described (connect_session cfg req ident meta now) (connect_response cfg req ident meta)"
  unfolding described_def connect_session_resume connect_session_fields
  by (simp add: connect_response_def Let_def PollModeStream_def)

lemma connect_add:
  assumes "wf_server B sv"
  shows "server_goes B sv (add (length (heap sv)) (sv\<lparr>heap := heap sv @ [connect_session cfg req ident meta now]\<rparr>))"
  using assms connect_session_resume(3)
  by (auto simp: server_goes_def wf_server_def store_inv_def add_def nth_append connect_session_fields)
    (metis less_SucI order_less_irrefl)+

lemma connect_register_goes:
  assumes "wf_server B sv" and "hooks_ok B h"
  shows "server_goes B sv (snd (connect_register cfg h req ident meta now sv))"
proof -
  let ?ref = "length (heap sv)"
  let ?sv1 = "add ?ref (sv\<lparr>heap := heap sv @ [connect_session cfg req ident meta now]\<rparr>)"
  have sv1: "server_goes B sv ?sv1" by (rule connect_add [OF assms(1)])
  show ?thesis
  proof (cases "h_OnConnect h")
    case None
    then show ?thesis using sv1 by (simp add: connect_register_def Let_def)
  next
    case (Some f)
    obtain ok sv2 where f: "f ?ref meta ?sv1 = (ok, sv2)" by (cases "f ?ref meta ?sv1")
    have step: "server_goes B ?sv1 sv2"
      using assms(2) Some server_okD [of B "\<lambda>x. snd (f ?ref meta x)" ?sv1 ?sv1] server_goes_refl [OF server_goes_wf [OF sv1]] f
      by (simp add: hooks_ok_def)
    have "server_goes B ?sv1 (Remove ident sv2)" using step by (rule server_goes_store) (simp_all add: map_le_def)
    then have "server_goes B ?sv1 (upd ?ref Session_Close (Remove ident sv2))"
      by (rule server_goes_plain) (simp_all add: add_def Session_Close_def closeOnce_def markClosedLocked_def closePipes_def)
    then show ?thesis using Some f server_goes_trans [OF sv1] step
      by (cases ok) (simp_all add: connect_register_def Let_def)
  qed
qed

lemma ConnectHandler_safe:
  assumes "wf_server B sv" and "hooks_ok B h" and "check cfg = None"
  shows "safely (\<lambda>(resp, sv'). server_goes B sv sv') (ConnectHandler cfg h body newID now sv)"
  using server_goes_refl [OF assms(1)] connect_register_goes [OF assms(1,2)] assms(3)
  by (auto simp: ConnectHandler_def Let_def split_beta split: option.split sum.split)

lemma safely_served: "safely (\<lambda>(a, sv'). P sv') x \<Longrightarrow> safely P (served x)"
  by (cases x) auto

lemma serve_safe:
  assumes "wf_server B sv" and "hooks_ok B h" and "check cfg = None" and "call_ok B C cfg x" and "B \<le> C" and "C < 2 ^ 64"
  shows "safely (server_goes C sv) (serve cfg h x sv)"
proof (cases x)
  case (CallConnect body newID now)
  have "safely (\<lambda>(resp, sv'). server_goes C sv sv') (ConnectHandler cfg h body newID now sv)"
    using safely_mono [OF ConnectHandler_safe [OF assms(1-3)]] server_goes_mono [OF _ assms(5)] by fastforce
  then show ?thesis using CallConnect by (simp add: safely_served)
next
  case (CallPoll ident rq env)
  then show ?thesis using PollHandler_safe [OF assms(1,2) _ _ assms(3) _ assms(6)] assms(4) by (simp add: safely_served)
next
  case (CallDelete ident now)
  have "safely (\<lambda>(resp, sv'). server_goes C sv sv') (DeleteHandler cfg ident now sv)"
    using safely_mono [OF DeleteHandler_safe [OF assms(1,3)]] server_goes_mono [OF _ assms(5)] by fastforce
  then show ?thesis using CallDelete by (simp add: safely_served)
next
  case (CallResume ident body env)
  then have "server_ok B (re_left env)" "server_ok B (re_end env)" using assms(4) by simp_all
  then have "safely (\<lambda>(resp, sv'). server_goes C sv sv') (ResumeHandler cfg ident body env sv)"
    using safely_mono [OF ResumeHandler_safe [OF assms(1,3)]] server_goes_mono [OF _ assms(5)] by fastforce
  then show ?thesis using CallResume by (simp add: safely_served)
qed

lemma connect_register_outcome:
  assumes "sessions sv ident = None" and "\<forall>f ref m x. h_OnConnect h = Some f \<longrightarrow> snd (f ref m x) = x"
    and "connect_register cfg h req ident meta now sv = (resp, sv')"
  shows "resp = writeJSON 200 (ConnectBody (connect_response cfg req ident meta)) \<and>
      heap sv' = heap sv @ [connect_session cfg req ident meta now] \<and> sessions sv' = (sessions sv)(ident \<mapsto> length (heap sv)) \<or>
    resp = writeError 500 \<and> heap sv' = heap sv @ [Session_Close (connect_session cfg req ident meta now)] \<and> sessions sv' = sessions sv"
proof -
  let ?s = "connect_session cfg req ident meta now"
  let ?sv1 = "add (length (heap sv)) (sv\<lparr>heap := heap sv @ [?s]\<rparr>)"
  have sv1: "heap ?sv1 = heap sv @ [?s]" "sessions ?sv1 = (sessions sv)(ident \<mapsto> length (heap sv))"
    by (simp_all add: add_def connect_session_fields)
  have gone: "(sessions sv)(ident := None) = sessions sv" using assms(1) by (simp add: fun_upd_idem)
  show ?thesis
  proof (cases "h_OnConnect h")
    case None
    then show ?thesis using assms(3) sv1 by (auto simp: connect_register_def Let_def)
  next
    case (Some f)
    have "snd (f (length (heap sv)) meta ?sv1) = ?sv1" using assms(2) Some by blast
    then obtain ok where "f (length (heap sv)) meta ?sv1 = (ok, ?sv1)" by (metis prod.collapse)
    then show ?thesis using Some assms(3) sv1 gone
      by (cases ok) (auto simp: connect_register_def Let_def upd_def)
  qed
qed

lemma plain_receive:
  assumes "ReadAvailable cap p sch = Some (res, p', sch')" and "cap > 0" and "plain_answer res = Answer resp"
  shows "\<exists>got. p_buf p @ written_by (p_closed p) (slept sch sch') = got @ p_buf p' \<and>
     (if got \<noteq> [] then rp_status resp = 200 \<and> rp_body resp = Raw got \<and> length got \<le> cap
      else resp = writeError 410 \<and> p_closed p' \<and> p_buf p' = [] \<or> resp = WriteHeader 204)"
  using assms(1)
proof (cases rule: ReadAvailable_cases)
  case intr
  then show ?thesis using assms(3) by (auto simp: plain_answer_def)
next
  case (data used)
  then have ne: "take cap (p_buf (after (concat used) p)) \<noteq> []" using assms(2) by simp
  have "p_buf (after (concat used) p) = p_buf p @ written_by (p_closed p) (slept sch sch')" using data(2) by simp
  moreover have "p_buf p' = drop cap (p_buf (after (concat used) p))" using data(5) by (simp add: take_out_def)
  ultimately have "p_buf p @ written_by (p_closed p) (slept sch sch') = take cap (p_buf (after (concat used) p)) @ p_buf p'"
    by (metis append_take_drop_id)
  moreover have "rp_status resp = 200 \<and> rp_body resp = Raw (take cap (p_buf (after (concat used) p)))"
    using assms(3) data(4) ne by (auto simp: plain_answer_def)
  ultimately show ?thesis using ne by (intro exI [of _ "take cap (p_buf (after (concat used) p))"]) simp
qed (use assms(3) in \<open>auto simp: plain_answer_def\<close>)

lemma PollHandler_plain:
  assumes "store_inv sv" and "check cfg = None" and "Get ident sv = Some ref" and "s_rs (sess sv ref) = None" and "\<not> s_closed (sess sv ref)"
    and "h_OnPoll h = None" and "pe_end env = id" and "\<not> header_true (rq_header rq) HeaderSendStream"
    and "PollHandler cfg h ident rq env sv = Returns (x, sv')"
  obtains sv1 sv2 where "sv1 = upd ref (\<lambda>s. touch (pe_now env) (s\<lparr>pollInFlight := pollInFlight s + 1\<rparr>)) sv"
    "plain_poll (withDefaults cfg) rq env ref sv1 = Returns (x, sv2)" "sv' = upd ref (endPoll (pe_endTime env)) sv2"
proof -
  have ref: "ref < length (heap sv)" using assms(1,3) by (simp add: store_inv_def Get_def)
  define sv1 where "sv1 = upd ref (\<lambda>s. touch (pe_now env) (s\<lparr>pollInFlight := pollInFlight s + 1\<rparr>)) sv"
  let ?s = "(sess sv ref)\<lparr>pollInFlight := pollInFlight (sess sv ref) + 1\<rparr>"
  have sv1: "upd ref (\<lambda>_. touch (pe_now env) ?s) sv = sv1" by (simp add: sv1_def upd_def)
  have "beginPoll (pe_now env) (sess sv ref) = (True, ?s)"
    using assms(4,5) by (simp add: beginPoll_def resumeExpiredLocked_def Resumable_def)
  moreover have "s_rs (sess sv1 ref) = None" using ref assms(4) by (simp add: sv1_def sess_upd touch_def)
  ultimately show thesis
    using assms(2,3,6-9) that [OF sv1_def] sv1 by (auto simp: PollHandler_def poll_dispatch_def Let_def split: outcome.splits)
qed

lemma plain_poll_refused:
  assumes "read_all_max (cfg_MaxSendBytes cfg) (rq_body rq) = Inl e" and "pe_body env = id" and "ref < length (heap sv)"
    and "s_ID (sess sv ref) = ident" and "sessions sv ident = Some ref" and "\<not> s_closed (sess sv ref)"
    and "plain_poll cfg rq env ref sv = Returns (Answer resp, sv')"
  shows "pollInFlight (sess sv' ref) = pollInFlight (sess sv ref) \<and> length (heap sv') = length (heap sv) \<and>
    (if e = ErrBodyTooLarge
     then resp = writeError 413 \<and> s_closed (sess sv' ref) \<and> sessions sv' ident = None \<and>
          disconnects sv' = disconnects sv @ [(ref, ReasonProtocolViolation)]
     else resp = writeError 400 \<and> sv' = sv)"
proof -
  let ?sv = "OnDisconnect ref ReasonProtocolViolation (upd ref closePipes (evict ref sv))"
  have ev: "sess ?sv ref = closePipes ((sess sv ref)\<lparr>s_closed := True\<rparr>)" "sessions ?sv ident = None"
      "disconnects ?sv = disconnects sv @ [(ref, ReasonProtocolViolation)]" "length (heap ?sv) = length (heap sv)"
    using assms(3,4) by (simp_all add: evict_simps sess_upd)
  have "closeSession (pe_now env) ref ReasonProtocolViolation sv = ?sv"
    using assms(4-6) by (simp add: closeSession_def removeAndMarkClosed_def evict_def Let_def)
  then have "sv' = (if e = ErrBodyTooLarge then ?sv else sv)" "resp = writeError (if e = ErrBodyTooLarge then 413 else 400)"
    using assms(1,2,7) by (simp_all add: plain_poll_def Let_def split: if_splits)
  then show ?thesis using ev by (simp del: OnDisconnect_simps(1))
qed

lemma plain_poll_accepted:
  assumes "read_all_max (cfg_MaxSendBytes cfg) (rq_body rq) = Inr d" and "pe_body env = id" and "pe_others env = id" and "ref < length (heap sv)"
    and "s_pollMode (sess sv ref) \<noteq> PollModeStream" and "0 < nat (cfg_PollBufferSize cfg)"
    and "plain_poll cfg rq env ref sv = Returns (Answer resp, sv')"
  shows "pollInFlight (sess sv' ref) = pollInFlight (sess sv ref) \<and> length (heap sv') = length (heap sv) \<and>
    p_buf (toServer (sess sv' ref)) = p_buf (toServer (sess sv ref)) @ (if p_closed (toServer (sess sv ref)) then [] else d) \<and>
    (if header_true (rq_header rq) HeaderSendOnly
     then resp = WriteHeader 200 \<and> toClient (sess sv' ref) = toClient (sess sv ref)
     else \<exists>sch' got. p_buf (toClient (sess sv ref)) @ written_by (p_closed (toClient (sess sv ref))) (slept (pe_wait env) sch') =
              got @ p_buf (toClient (sess sv' ref)) \<and>
            (if got \<noteq> [] then rp_status resp = 200 \<and> rp_body resp = Raw got \<and> length got \<le> nat (cfg_PollBufferSize cfg)
             else resp = writeError 410 \<and> p_closed (toClient (sess sv' ref)) \<and> p_buf (toClient (sess sv' ref)) = [] \<or>
                  resp = WriteHeader 204))"
proof -
  define sv3 where "sv3 = (if d \<noteq> [] then upd ref (\<lambda>s. snd (writeUpstream s d)) sv else sv)"
  have at3: "p_buf (toServer (sess sv3 ref)) = p_buf (toServer (sess sv ref)) @ (if p_closed (toServer (sess sv ref)) then [] else d)"
      "toClient (sess sv3 ref) = toClient (sess sv ref)" "pollInFlight (sess sv3 ref) = pollInFlight (sess sv ref)"
      "s_pollMode (sess sv3 ref) = s_pollMode (sess sv ref)" "length (heap sv3) = length (heap sv)"
    using assms(4) Write_buf [of "toServer (sess sv ref)" d] by (auto simp: sv3_def sess_upd writeUpstream_def split_beta)
  show ?thesis
  proof (cases "header_true (rq_header rq) HeaderSendOnly")
    case True
    then show ?thesis using assms(1,2,7) at3 by (auto simp: plain_poll_def Let_def sv3_def [symmetric])
  next
    case False
    obtain res p sch' where ra: "ReadAvailable (nat (cfg_PollBufferSize cfg)) (toClient (sess sv ref)) (pe_wait env) = Some (res, p, sch')"
        "plain_answer res = Answer resp" "sv' = upd ref (\<lambda>s. s\<lparr>toClient := p\<rparr>) sv3"
      using assms(1-3,5,7) False at3 by (auto simp: plain_poll_def Let_def sv3_def [symmetric] split: option.splits)
    have s': "toClient (sess sv' ref) = p" "toServer (sess sv' ref) = toServer (sess sv3 ref)"
        "pollInFlight (sess sv' ref) = pollInFlight (sess sv3 ref)" "length (heap sv') = length (heap sv)"
      using assms(4) at3(5) by (simp_all add: ra(3) sess_upd)
    obtain got where got: "p_buf (toClient (sess sv ref)) @ written_by (p_closed (toClient (sess sv ref))) (slept (pe_wait env) sch') = got @ p_buf p"
        "if got \<noteq> [] then rp_status resp = 200 \<and> rp_body resp = Raw got \<and> length got \<le> nat (cfg_PollBufferSize cfg)
         else resp = writeError 410 \<and> p_closed p \<and> p_buf p = [] \<or> resp = WriteHeader 204"
      using plain_receive [OF ra(1) assms(6) ra(2)] by blast
    show ?thesis unfolding if_not_P [OF False]
      by (intro conjI exI [of _ sch'] exI [of _ got]) (use got s' at3(1,3) in simp_all)
  qed
qed

lemma plain_poll_facts:
  assumes "store_inv sv" and "check cfg = None" and "Get ident sv = Some ref" and "s_rs (sess sv ref) = None" and "\<not> s_closed (sess sv ref)"
    and "h_OnPoll h = None" and "pe_body env = id" and "pe_others env = id" and "pe_end env = id"
    and "\<not> header_true (rq_header rq) HeaderSendStream" and "s_pollMode (sess sv ref) \<noteq> PollModeStream"
    and "PollHandler cfg h ident rq env sv = Returns (Answer resp, sv')"
  shows "pollInFlight (sess sv' ref) = pollInFlight (sess sv ref) \<and>
    (case read_all_max (cfg_MaxSendBytes (withDefaults cfg)) (rq_body rq) of
       Inl e \<Rightarrow>
         if e = ErrBodyTooLarge
         then resp = writeError 413 \<and> s_closed (sess sv' ref) \<and> Get ident sv' = None \<and>
              disconnects sv' = disconnects sv @ [(ref, ReasonProtocolViolation)]
         else resp = writeError 400 \<and> sessions sv' = sessions sv \<and> disconnects sv' = disconnects sv
     | Inr d \<Rightarrow>
         p_buf (toServer (sess sv' ref)) = p_buf (toServer (sess sv ref)) @ (if p_closed (toServer (sess sv ref)) then [] else d) \<and>
         (if header_true (rq_header rq) HeaderSendOnly
          then resp = WriteHeader 200 \<and> toClient (sess sv' ref) = toClient (sess sv ref)
          else \<exists>sch' got. p_buf (toClient (sess sv ref)) @ written_by (p_closed (toClient (sess sv ref))) (slept (pe_wait env) sch') =
                   got @ p_buf (toClient (sess sv' ref)) \<and>
                 (if got \<noteq> [] then rp_status resp = 200 \<and> rp_body resp = Raw got \<and>
                      length got \<le> nat (cfg_PollBufferSize (withDefaults cfg))
                  else resp = writeError 410 \<and> p_closed (toClient (sess sv' ref)) \<and> p_buf (toClient (sess sv' ref)) = [] \<or>
                       resp = WriteHeader 204)))"
proof -
  have ref: "ref < length (heap sv)" and id: "s_ID (sess sv ref) = ident" and st: "sessions sv ident = Some ref"
    using assms(1,3) by (simp_all add: store_inv_def Get_def)
  obtain sv1 sv2 where sv1: "sv1 = upd ref (\<lambda>s. touch (pe_now env) (s\<lparr>pollInFlight := pollInFlight s + 1\<rparr>)) sv"
    and run: "plain_poll (withDefaults cfg) rq env ref sv1 = Returns (Answer resp, sv2)" and fin: "sv' = upd ref (endPoll (pe_endTime env)) sv2"
    using PollHandler_plain [OF assms(1-6,9,10,12)] by blast
  have at1: "sess sv1 ref = touch (pe_now env) ((sess sv ref)\<lparr>pollInFlight := pollInFlight (sess sv ref) + 1\<rparr>)"
    "sessions sv1 = sessions sv" "disconnects sv1 = disconnects sv" "length (heap sv1) = length (heap sv)"
    using ref by (simp_all add: sv1 sess_upd)
  then have t1: "s_ID (sess sv1 ref) = ident" "\<not> s_closed (sess sv1 ref)" "s_pollMode (sess sv1 ref) \<noteq> PollModeStream"
      "toClient (sess sv1 ref) = toClient (sess sv ref)" "toServer (sess sv1 ref) = toServer (sess sv ref)"
      "pollInFlight (sess sv1 ref) = pollInFlight (sess sv ref) + 1" "ref < length (heap sv1)" "sessions sv1 ident = Some ref"
    using id assms(5,11) ref st by (simp_all add: touch_def)
  have ended: "sess sv' ref = endPoll (pe_endTime env) (sess sv2 ref)" "sessions sv' = sessions sv2" "disconnects sv' = disconnects sv2"
    if "length (heap sv2) = length (heap sv1)"
    using that t1(7) by (simp_all add: fin sess_upd)
  show ?thesis
  proof (cases "read_all_max (cfg_MaxSendBytes (withDefaults cfg)) (rq_body rq)")
    case (Inl e)
    note res = plain_poll_refused [OF Inl assms(7) t1(7,1,8,2) run]
    then show ?thesis using Inl ended t1(6) at1(2,3) by (simp add: endPoll_def noteDetachedLocked_def Get_def split: if_splits)
  next
    case (Inr d)
    note res = plain_poll_accepted [OF Inr assms(7,8) t1(7,3) buffer_positive run, unfolded t1(4-6)]
    then have s': "toServer (sess sv' ref) = toServer (sess sv2 ref)" "toClient (sess sv' ref) = toClient (sess sv2 ref)"
        "pollInFlight (sess sv' ref) = pollInFlight (sess sv ref)"
      using ended(1) by (simp_all add: endPoll_def noteDetachedLocked_def)
    show ?thesis unfolding Inr sum.case s' by (rule conjI [OF refl conjunct2 [OF conjunct2 [OF res]]])
  qed
qed

section \<open>Properties\<close>

text \<open>
  C16: The handlers are type-safe. Serving any request on a well-formed server never panics - no nil
  layer or attachments is dereferenced, no slice is out of range - and leaves a well-formed
  server in which every session kept its id and is resumable exactly if it was.
\<close>

theorem handlers_keep_types:
  assumes "wf_server B sv" and "hooks_ok B h" and "check cfg = None" and "call_ok B C cfg x" and "B \<le> C" and "C < 2 ^ 64"
  shows "serve cfg h x sv \<noteq> Panics \<and>
    (\<forall>sv'. serve cfg h x sv = Returns sv' \<longrightarrow> wf_server C sv' \<and>
       (\<forall>ref < length (heap sv). ref < length (heap sv') \<and> s_ID (sess sv' ref) = s_ID (sess sv ref) \<and>
          (s_rs (sess sv' ref) = None \<longleftrightarrow> s_rs (sess sv ref) = None)))"
  using serve_safe [OF assms] by (cases "serve cfg h x sv") (auto simp: server_goes_def)

text \<open>
  C17: What \<open>ConnectHandler\<close> answers is what it registers. A response that describes a session is
  status 200, was asked for in a protocol version the server speaks, and has a new open session
  behind it, registered under the id it names, with the metadata, modes, transport and
  resumability it states. Any other response leaves the store as it was: no earlier session is
  changed, and a session the application rejected is closed and not registered.
\<close>

theorem connect_outcome:
  assumes "check cfg = None" and "\<forall>ident. newID = Some ident \<longrightarrow> sessions sv ident = None"
    and "\<forall>f ref m x. h_OnConnect h = Some f \<longrightarrow> snd (f ref m x) = x"
  shows "\<exists>resp sv'. ConnectHandler cfg h body newID now sv = Returns (resp, sv') \<and> take (length (heap sv)) (heap sv') = heap sv \<and>
    (if \<exists>cr. rp_body resp = ConnectBody cr
     then \<exists>cr s req. rp_body resp = ConnectBody cr \<and> rp_status resp = 200 \<and>
            decode zero_ConnectRequest body = Some req \<and> cr_ProtocolVersion req = ProtocolVersion \<and>
            heap sv' = heap sv @ [s] \<and> described s cr \<and> \<not> s_closed s \<and> wf_session 0 s \<and>
            newID = Some (resp_SessionID cr) \<and> sessions sv' = (sessions sv)(resp_SessionID cr \<mapsto> length (heap sv))
     else sessions sv' = sessions sv \<and> (\<forall>s \<in> set (drop (length (heap sv)) (heap sv')). s_closed s))"
proof -
  let ?auth = "\<lambda>req. case h_Authenticate h of None \<Rightarrow> Inr Map.empty | Some f \<Rightarrow> f req"
  have err: "\<not> (\<exists>cr. rp_body (writeError st) = ConnectBody cr)" for st by (simp add: writeError_def writeJSON_def)
  show ?thesis
  proof (cases "\<exists>req m ident. decode zero_ConnectRequest body = Some req \<and> cr_ProtocolVersion req = ProtocolVersion \<and>
      ?auth req = Inr m \<and> newID = Some ident")
    case True
    then obtain req m ident where ok: "decode zero_ConnectRequest body = Some req" "cr_ProtocolVersion req = ProtocolVersion"
      "?auth req = Inr m" "newID = Some ident" by blast
    let ?m = "cr_Meta req ++ m" and ?cfg = "withDefaults cfg"
    obtain resp sv' where reg: "connect_register ?cfg h req ident ?m now sv = (resp, sv')" by fastforce
    have run: "ConnectHandler cfg h body newID now sv = Returns (resp, sv')"
      using ok reg assms(1) by (simp add: ConnectHandler_def Let_def)
    have id: "resp_SessionID (connect_response ?cfg req ident ?m) = ident" by (simp add: connect_response_def Let_def)
    have "sessions sv ident = None" using assms(2) ok(4) by simp
    from connect_register_outcome [OF this assms(3) reg] show ?thesis
      using run ok err [of 500] id connect_session_described [of ?cfg req ident ?m now] connect_session_fields(6) connect_session_resume(3)
      by (auto simp: writeJSON_def)
  next
    case False
    have "\<exists>st. ConnectHandler cfg h body newID now sv = Returns (writeError st, sv)"
    proof (cases "decode zero_ConnectRequest body")
      case (Some req)
      show ?thesis
      proof (cases "?auth req")
        case (Inr m)
        then have "cr_ProtocolVersion req = ProtocolVersion \<Longrightarrow> newID = None" using False Some by (cases newID) auto
        then show ?thesis using Some Inr assms(1) by (cases "cr_ProtocolVersion req = ProtocolVersion") (auto simp: ConnectHandler_def Let_def)
      qed (use Some assms(1) in \<open>auto simp: ConnectHandler_def Let_def\<close>)
    qed (use assms(1) in \<open>auto simp: ConnectHandler_def Let_def\<close>)
    then obtain st where "ConnectHandler cfg h body newID now sv = Returns (writeError st, sv)" by blast
    then show ?thesis using err [of st] by simp
  qed
qed

lemma resume_result:
  assumes "wf_server B sv" and "check cfg = None" and "Get ident sv = Some ref"
    and "decode zero_ResumeRequest body = Some req" and "rr_ProtocolVersion req = ProtocolVersion"
    and "s_rs (sess sv ref) = Some r" and "s_att (sess sv ref) = Some a" and "\<not> isBroken r" and "\<not> a_resuming a"
    and "\<not> refusesAttach (re_now env) (sess sv ref)" and "kickAll (kick_targets a) (re_kick env) = Some None"
    and "\<forall>x. length (heap (re_left env x)) = length (heap x) \<and> s_rs (sess (re_left env x) ref) = map_option g (s_rs (sess x ref)) \<and>
       (s_att (sess (re_left env x) ref) = None \<longleftrightarrow> s_att (sess x ref) = None)"
    and "rel_inv (g r)" and "re_end env = id" and "off = rr_RecvOffset req"
  shows "\<exists>resp sv' r' a'. ResumeHandler cfg ident body env sv = Returns (resp, sv') \<and>
    s_rs (sess sv' ref) = Some r' \<and> s_att (sess sv' ref) = Some a' \<and> \<not> a_resuming a' \<and>
    (if \<not> isBroken (g r) \<and> ackedOffset (g r) \<le> off \<and> off \<le> sendOffset (g r)
     then resp = writeJSON 200 (ResumeBody \<lparr>Resumed = True, RecvOffset = recvOffset (g r)\<rparr>) \<and> \<not> isBroken r' \<and> rel_inv r' \<and>
       sentCursor r' = off \<and> ackedOffset r' = off \<and> sendOffset r' = sendOffset (g r) \<and> recvOffset r' = recvOffset (g r) \<and>
       replay r' = drop (unat off - unat (ackedOffset (g r))) (replay (g r))
     else resp = writeError 409 \<and> isBroken r')"
proof -
  have ref: "ref < length (heap sv)" using Get_ref [OF assms(1,3)] .
  let ?s = "(sess sv ref)\<lparr>pollInFlight := pollInFlight (sess sv ref) + 1\<rparr>"
  have b: "beginPoll (re_now env) (sess sv ref) = (True, ?s)" using assms(10) by (simp add: beginPoll_def refusesAttach_def)
  define sv1 where "sv1 = upd ref (\<lambda>_. touch (re_now env) ?s) sv"
  have sv1: "sess sv1 ref = touch (re_now env) ?s" "length (heap sv1) = length (heap sv)" using ref by (simp_all add: sv1_def sess_upd)
  let ?a = "a\<lparr>a_resuming := True\<rparr>"
  define sv2 where "sv2 = re_left env (upd ref (\<lambda>s. s\<lparr>s_att := Some ?a\<rparr>) sv1)"
  have l2: "length (heap sv2) = length (heap sv)" using assms(12) sv1(2) by (simp add: sv2_def)
  have rs2: "s_rs (sess sv2 ref) = Some (g r)" and att2: "s_att (sess sv2 ref) \<noteq> None"
    using assms(6,12) sv1 ref by (simp_all add: sv2_def sess_upd touch_def)
  have kick: "kick_targets ?a = kick_targets a" by (simp add: kick_targets_def)
  define fin where "fin x = upd ref (endPoll (re_endTime env)) (upd ref (\<lambda>s. s\<lparr>s_att := map_option endResume (s_att s)\<rparr>) x)" for x
  define exch where "exch f = (case resumeOut off (g r) of
         None \<Rightarrow> Panics
       | Some (False, r') \<Rightarrow> Returns (writeError 409, f (upd ref (\<lambda>s. s\<lparr>s_rs := Some (markBroken r')\<rparr>) sv2))
       | Some (True, r') \<Rightarrow> Returns (writeJSON 200 (ResumeBody \<lparr>Resumed = True, RecvOffset = recvOffsetNow r'\<rparr>),
                              f (upd ref (\<lambda>s. s\<lparr>s_rs := Some r'\<rparr>) sv2)))" for f :: "server \<Rightarrow> server"
  have x: "resume_exchange req env ref ?a (upd ref (\<lambda>s. s\<lparr>s_att := Some ?a\<rparr>) sv1) = exch id"
    unfolding resume_exchange_def kick assms(11) sv2_def [symmetric] rs2 Let_def exch_def assms(15)
    by (simp split: option.split bool.split)
  have att: "resume_attached req env ref sv1 = exch (upd ref (\<lambda>s. s\<lparr>s_att := map_option endResume (s_att s)\<rparr>))"
    using assms(6-9) x sv1(1) unfolding resume_attached_def
    by (simp add: beginResume_def touch_def) (simp add: exch_def split: option.split bool.split)
  have run: "ResumeHandler cfg ident body env sv = exch fin"
    using assms(2-6,14) b att unfolding ResumeHandler_def
    by (simp add: sv1_def [symmetric]) (simp add: exch_def fin_def split: option.split bool.split)
  have at: "s_rs (sess (fin (upd ref (\<lambda>s. s\<lparr>s_rs := Some x\<rparr>) sv2)) ref) = Some x"
      "\<exists>a'. s_att (sess (fin (upd ref (\<lambda>s. s\<lparr>s_rs := Some x\<rparr>) sv2)) ref) = Some a' \<and> \<not> a_resuming a'" for x
    using ref l2 att2 by (auto simp: fin_def sess_upd endPoll_def noteDetachedLocked_def endResume_def)
  from assms(13) show ?thesis
  proof (cases rule: resumeOut_cases [where n = off])
    case refused
    then have "\<not> (\<not> isBroken (g r) \<and> ackedOffset (g r) \<le> off \<and> off \<le> sendOffset (g r))" by (auto simp: isBroken_def)
    then show ?thesis using run refused(2) at [of "markBroken (g r)"] by (auto simp: markBroken_def isBroken_def exch_def)
  next
    case rewinds
    let ?r = "(g r)\<lparr>replay := drop (unat off - unat (ackedOffset (g r))) (replay (g r)), ackedOffset := off, sentCursor := off\<rparr>"
    have "rel_inv ?r" using release(2) [OF assms(13) rewinds(1-3) order_refl rewinds(3)] .
    then show ?thesis using run rewinds at [of ?r] by (auto simp: isBroken_def recvOffsetNow_def exch_def)
  qed
qed

text \<open>
  C18: What a resume does. Once the session accepts it and the owners of both directions have
  left, the layer is as they left it (\<open>g\<close>). If the client's offset is one the replay can honour, the
  response names the server's received offset and the layer sends on from exactly the client's
  offset, with the bytes before it released and none after it lost. Otherwise the response is 409
  and the session can never be resumed again. In both cases the handshake is over: another may begin.
\<close>

theorem resume_outcome:
  assumes "wf_server B sv" and "check cfg = None" and "Get ident sv = Some ref"
    and "decode zero_ResumeRequest body = Some req" and "rr_ProtocolVersion req = ProtocolVersion"
    and "s_rs (sess sv ref) = Some r" and "s_att (sess sv ref) = Some a" and "\<not> isBroken r" and "\<not> a_resuming a"
    and "\<not> refusesAttach (re_now env) (sess sv ref)" and "kickAll (kick_targets a) (re_kick env) = Some None"
    and "\<forall>x. length (heap (re_left env x)) = length (heap x) \<and> s_rs (sess (re_left env x) ref) = map_option g (s_rs (sess x ref)) \<and>
       (s_att (sess (re_left env x) ref) = None \<longleftrightarrow> s_att (sess x ref) = None)"
    and "rel_inv (g r)" and "re_end env = id" and "off = rr_RecvOffset req"
  shows "\<exists>resp sv' r' a'. ResumeHandler cfg ident body env sv = Returns (resp, sv') \<and>
    s_rs (sess sv' ref) = Some r' \<and> s_att (sess sv' ref) = Some a' \<and> \<not> a_resuming a' \<and>
    (if \<not> isBroken (g r) \<and> ackedOffset (g r) \<le> off \<and> off \<le> sendOffset (g r)
     then resp = writeJSON 200 (ResumeBody \<lparr>Resumed = True, RecvOffset = recvOffset (g r)\<rparr>) \<and> \<not> isBroken r' \<and> rel_inv r' \<and>
       sentCursor r' = off \<and> ackedOffset r' = off \<and> sendOffset r' = sendOffset (g r) \<and> recvOffset r' = recvOffset (g r) \<and>
       replay r' = drop (unat off - unat (ackedOffset (g r))) (replay (g r))
     else resp = writeError 409 \<and> isBroken r')"
  by (rule resume_result [OF assms])

text \<open>
  C19: A poll of a plain session. An upload's whole body goes to the server side of the
  session behind what is there; a receive returns the bytes the application wrote, in order,
  as many as fit and keeps the rest, or 410 once the session is closed and drained, or 204. A
  body beyond the negotiated limit closes the session as a protocol violation and reports it
  once. On every path the count of attached transports is what it was.
\<close>

theorem plain_poll_exact:
  assumes "store_inv sv" and "check cfg = None" and "Get ident sv = Some ref" and "s_rs (sess sv ref) = None" and "\<not> s_closed (sess sv ref)"
    and "h_OnPoll h = None" and "pe_body env = id" and "pe_others env = id" and "pe_end env = id"
    and "\<not> header_true (rq_header rq) HeaderSendStream" and "s_pollMode (sess sv ref) \<noteq> PollModeStream"
    and "PollHandler cfg h ident rq env sv = Returns (Answer resp, sv')"
  shows "pollInFlight (sess sv' ref) = pollInFlight (sess sv ref) \<and>
    (case read_all_max (cfg_MaxSendBytes (withDefaults cfg)) (rq_body rq) of
       Inl e \<Rightarrow>
         if e = ErrBodyTooLarge
         then resp = writeError 413 \<and> s_closed (sess sv' ref) \<and> Get ident sv' = None \<and>
              disconnects sv' = disconnects sv @ [(ref, ReasonProtocolViolation)]
         else resp = writeError 400 \<and> sessions sv' = sessions sv \<and> disconnects sv' = disconnects sv
     | Inr d \<Rightarrow>
         p_buf (toServer (sess sv' ref)) = p_buf (toServer (sess sv ref)) @ (if p_closed (toServer (sess sv ref)) then [] else d) \<and>
         (if header_true (rq_header rq) HeaderSendOnly
          then resp = WriteHeader 200 \<and> toClient (sess sv' ref) = toClient (sess sv ref)
          else \<exists>sch' got. p_buf (toClient (sess sv ref)) @ written_by (p_closed (toClient (sess sv ref))) (slept (pe_wait env) sch') =
                   got @ p_buf (toClient (sess sv' ref)) \<and>
                 (if got \<noteq> [] then rp_status resp = 200 \<and> rp_body resp = Raw got \<and>
                      length got \<le> nat (cfg_PollBufferSize (withDefaults cfg))
                  else resp = writeError 410 \<and> p_closed (toClient (sess sv' ref)) \<and> p_buf (toClient (sess sv' ref)) = [] \<or>
                       resp = WriteHeader 204)))"
  by (rule plain_poll_facts [OF assms])

section \<open>Witnesses\<close>

definition no_hooks :: Hooks where
  "no_hooks = \<lparr>h_Authenticate = None, h_OnConnect = None, h_OnPoll = None\<rparr>"

definition sample_resume :: resume_env where
  "sample_resume = \<lparr>re_now = 10, re_kick = [], re_left = id, re_end = id, re_endTime = 11\<rparr>"

definition sample_poll :: poll_env where
  "sample_poll =
     \<lparr>pe_att = 1, pe_body = id, pe_wait = [[EvTimer], [EvTimer]], pe_others = id, pe_stream = sample_stream,
      pe_send = \<lparr>sn_attach = [], sn_others = \<lambda>_. id\<rparr>, pe_batch = sample_env, pe_now = 10, pe_end = id, pe_endTime = 11\<rparr>"

text \<open>A server with one plain session that has two bytes for its client.\<close>

definition plain_server :: server where
  "plain_server =
     \<lparr>heap = [(newSession ''p'' Map.empty 0)\<lparr>toClient := NewBufferedPipe\<lparr>p_buf := [5, 6]\<rparr>\<rparr>],
      sessions = [''p'' \<mapsto> 0], maxDetachedResumable = 0, disconnects = []\<rparr>"

lemma sample_config_checks: "check sample_config = None"
  by (simp add: check_def sample_config_def MaxResumeGrace_def)

lemma sample_server_wf: "wf_server 0 sample_server"
proof -
  have "sendOffset (newReliable 0) = 0" by (simp add: newReliable_def)
  then show ?thesis using sample_server_ok(2) rel_inv_newReliable [of 0]
    by (auto simp: wf_server_def wf_session_def sample_server_def sample_session_def enableResume_def)
qed

lemma quiet_ok: "server_ok B id" "session_ok B id" "hooks_ok B no_hooks"
  by (simp_all add: server_ok_def session_ok_def hooks_ok_def no_hooks_def server_goes_refl goes_refl)

theorem handlers_keep_types_witness:
  "\<exists>sv'. serve sample_config no_hooks (CallResume ''a'' (Decoded \<lparr>rr_ProtocolVersion = 1, rr_RecvOffset = 0\<rparr>) sample_resume) sample_server =
     Returns sv' \<and> wf_server 5 sv'"
proof -
  let ?x = "CallResume ''a'' (Decoded \<lparr>rr_ProtocolVersion = 1, rr_RecvOffset = 0\<rparr>) sample_resume"
  have "call_ok 0 5 sample_config ?x" using quiet_ok(1) by (simp add: sample_resume_def)
  note keep = handlers_keep_types [OF sample_server_wf quiet_ok(3) sample_config_checks this]
  have "serve sample_config no_hooks ?x sample_server \<noteq> Sleeps"
    using sample_config_checks
    by (simp add: ResumeHandler_def ProtocolVersion_def Get_def sample_server_simps beginPoll_def resumeExpiredLocked_def
        sample_resume_def resume_attached_def upd_def touch_def newAttachments_def beginResume_def resume_exchange_def
        kick_targets_def resumeOut_def Let_def)
  with keep show ?thesis by (cases "serve sample_config no_hooks ?x sample_server") simp_all
qed

theorem connect_outcome_witness:
  "\<exists>resp sv' cr. ConnectHandler sample_config no_hooks (Decoded sample_request) (Some ''x'') 0 NewSessionStore = Returns (resp, sv') \<and>
     rp_body resp = ConnectBody cr \<and> Get ''x'' sv' = Some 0 \<and> described (sess sv' 0) cr"
proof -
  obtain resp sv' where run: "ConnectHandler sample_config no_hooks (Decoded sample_request) (Some ''x'') 0 NewSessionStore = Returns (resp, sv')"
    "rp_body resp = ConnectBody (connect_response (withDefaults sample_config) sample_request ''x'' (cr_Meta sample_request))"
    using sample_config_checks
    by (simp add: ConnectHandler_def connect_register_def no_hooks_def sample_request_def ProtocolVersion_def writeJSON_def Let_def)
  have "\<forall>ident. Some ''x'' = Some ident \<longrightarrow> sessions NewSessionStore ident = None" by (simp add: NewSessionStore_def)
  from connect_outcome [OF sample_config_checks this, of no_hooks "Decoded sample_request" 0] run show ?thesis
    by (auto simp: no_hooks_def Get_def NewSessionStore_def)
qed

theorem resume_outcome_witness:
  "\<exists>resp sv'. ResumeHandler sample_config ''a'' (Decoded \<lparr>rr_ProtocolVersion = 1, rr_RecvOffset = 7\<rparr>) sample_resume sample_server =
     Returns (resp, sv') \<and> resp = writeError 409 \<and> \<not> Resumable (sess sv' 0)"
proof -
  have s: "Get ''a'' sample_server = Some 0" "s_rs (sess sample_server 0) = Some (newReliable 0)"
      "s_att (sess sample_server 0) = Some newAttachments" "\<not> refusesAttach (re_now sample_resume) (sess sample_server 0)"
    by (simp_all add: Get_def sample_server_simps refusesAttach_def resumeExpiredLocked_def sample_resume_def)
  let ?req = "\<lparr>rr_ProtocolVersion = 1, rr_RecvOffset = 7\<rparr>" and ?r = "newReliable 0"
  have req: "decode zero_ResumeRequest (Decoded ?req) = Some ?req" "rr_ProtocolVersion ?req = ProtocolVersion" "7 = rr_RecvOffset ?req"
    by (simp_all add: ProtocolVersion_def)
  have r: "\<not> isBroken ?r" "\<not> a_resuming newAttachments" "kickAll (kick_targets newAttachments) (re_kick sample_resume) = Some None"
      "sendOffset ?r = 0"
    by (simp_all add: isBroken_def newReliable_def newAttachments_def kick_targets_def)
  have env: "\<forall>x. length (heap (re_left sample_resume x)) = length (heap x) \<and>
      s_rs (sess (re_left sample_resume x) 0) = map_option id (s_rs (sess x 0)) \<and>
      (s_att (sess (re_left sample_resume x) 0) = None \<longleftrightarrow> s_att (sess x 0) = None)" "re_end sample_resume = id"
    by (simp_all add: sample_resume_def option.map_id)
  have "rel_inv (id ?r)" by (simp add: rel_inv_newReliable)
  from resume_outcome [OF sample_server_wf sample_config_checks s(1) req(1,2) s(2,3) r(1,2) s(4) r(3) env(1) this env(2) req(3)] r(4)
  show ?thesis by (auto simp: Resumable_def)
qed

theorem plain_poll_exact_witness:
  "\<exists>resp sv'. PollHandler sample_config no_hooks ''p'' (sample_body []) sample_poll plain_server = Returns (Answer resp, sv') \<and>
     rp_body resp = Raw [5, 6] \<and> pollInFlight (sess sv' 0) = 0"
proof -
  have max_send: "cfg_MaxSendBytes (withDefaults sample_config) = 1048576"
    by (simp add: withDefaults_def sample_config_def DefaultMaxSendBytes_def)
  have ra: "ReadAvailable (nat (cfg_PollBufferSize (withDefaults sample_config))) (NewBufferedPipe\<lparr>p_buf := [5, 6]\<rparr>) [[EvTimer], [EvTimer]] =
      Some (Inr [5, 6], NewBufferedPipe, [[EvTimer]])"
    by (simp add: ReadAvailable_def NewBufferedPipe_def coalesce_def phase2_waits_def take_out_def withDefaults_def sample_config_def DefaultPollBufferSize_def)
  have run: "\<exists>resp sv'. PollHandler sample_config no_hooks ''p'' (sample_body []) sample_poll plain_server = Returns (Answer resp, sv') \<and>
      rp_body resp = Raw [5, 6]"
    using sample_config_checks ra
    by (simp add: PollHandler_def sample_poll_def plain_server_def no_hooks_def Get_def newSession_def beginPoll_def
        resumeExpiredLocked_def Resumable_def upd_def touch_def Let_def poll_dispatch_def plain_poll_def sample_body_def
        read_all_max_def r_bytes_def PollModeStream_def plain_answer_def max_send)
  have inv: "store_inv plain_server" by (simp add: store_inv_def plain_server_def newSession_def)
  have s: "Get ''p'' plain_server = Some 0" "s_rs (sess plain_server 0) = None" "\<not> s_closed (sess plain_server 0)"
      "s_pollMode (sess plain_server 0) \<noteq> PollModeStream" "pollInFlight (sess plain_server 0) = 0"
    by (simp_all add: Get_def plain_server_def newSession_def PollModeStream_def)
  have env: "h_OnPoll no_hooks = None" "pe_body sample_poll = id" "pe_others sample_poll = id" "pe_end sample_poll = id"
      "\<not> header_true (rq_header (sample_body [])) HeaderSendStream"
    by (simp_all add: no_hooks_def sample_poll_def sample_body_def)
  from run obtain resp sv' where run: "PollHandler sample_config no_hooks ''p'' (sample_body []) sample_poll plain_server = Returns (Answer resp, sv')"
    "rp_body resp = Raw [5, 6]" by blast
  from plain_poll_exact [OF inv sample_config_checks s(1-3) env(1-5) s(4) run(1)] run s(5) show ?thesis by auto
qed

end
