(* ===== verification/Reconnect.thy ===== *)
theory Reconnect
  imports Protocol
begin

text \<open>
  \<^verbatim>\<open>reconnect.go\<close> and \<^verbatim>\<open>accept.go\<close>: the loop that connects, serves and reconnects, and the loop that
  accepts streams and says why the session ended. Both wait for what they do not control, so
  each takes one record per turn with what it found: the context's state, the result of
  \<open>Connect\<close>, the outcome of \<open>Serve\<close> and how long it ran, which case of a \<^verbatim>\<open>select\<close> was taken. \<open>None\<close> is a
  loop that is still running. The delays the loop slept are part of its result.

  The lemmas show when the reconnect loop stops, which delays it uses, and that the accept
  loop's outcome is what it observed, with one exception that makes a replaced session reconnect.
\<close>

section \<open>Outcomes\<close>

datatype Outcome = OutcomeTransportFailed | OutcomePeerClosed | OutcomeSuperseded | OutcomeShutdown

fun Outcome_String :: "Outcome \<Rightarrow> string" where
  "Outcome_String OutcomeTransportFailed = ''transport_failed''"
| "Outcome_String OutcomePeerClosed = ''peer_closed''"
| "Outcome_String OutcomeSuperseded = ''superseded''"
| "Outcome_String OutcomeShutdown = ''shutdown''"

section \<open>The reconnect loop\<close>

text \<open>The two callbacks are required; whether they are set is all the model keeps of them.\<close>

record ReconnectLoop =
  l_hasConnect :: bool
  l_hasServe :: bool
  l_InitialBackoff :: duration
  l_MaxBackoff :: duration
  l_PeerClosedPause :: duration
  l_MinStableDuration :: duration

definition orDuration :: "duration \<Rightarrow> duration \<Rightarrow> duration" where
  "orDuration v fallback = (if v \<le> 0 then fallback else v)"

definition orInt :: "int \<Rightarrow> int \<Rightarrow> int" where
  "orInt v fallback = (if v \<le> 0 then fallback else v)"

text \<open>The timings the loop runs with.\<close>

record timings =
  tm_initial :: duration
  tm_max :: duration
  tm_peerPause :: duration
  tm_minStable :: duration

definition loop_timings :: "ReconnectLoop \<Rightarrow> timings" where
  "loop_timings l =
     \<lparr>tm_initial = orDuration (l_InitialBackoff l) DefaultInitialBackoff,
      tm_max = orDuration (l_MaxBackoff l) DefaultMaxBackoff,
      tm_peerPause = orDuration (l_PeerClosedPause l) DefaultPeerClosedPause,
      tm_minStable =
        (let m = (if l_MinStableDuration l \<noteq> 0 then l_MinStableDuration l else DefaultMinStableDuration)
         in if m < 0 then 0 else m)\<rparr>"

text \<open>
  What one turn of the loop meets: \<open>ctx.Err()\<close> at its start, after a failed connect and at the end;
  the result of \<open>Connect\<close>; the outcome of \<open>Serve\<close> and its duration; whether the context outlasted
  the sleep.
\<close>

record loop_turn =
  lt_ctxErr :: "error option"
  lt_connect :: "error option"
  lt_outcome :: Outcome
  lt_servedFor :: duration
  lt_ctxErr2 :: "error option"
  lt_slept :: bool
  lt_ctxErr3 :: "error option"

text \<open>\<^verbatim>\<open>sleepOrDone\<close>: without a delay the context decides at once, otherwise whichever comes first.\<close>

definition sleepOrDone :: "duration \<Rightarrow> bool \<Rightarrow> error option \<Rightarrow> bool" where
  "sleepOrDone d slept ctxErr = (if d \<le> 0 then ctxErr = None else slept)"

text \<open>\<open>min(backoff*2, maxBackoff)\<close> on 64-bit durations.\<close>

definition next_backoff :: "timings \<Rightarrow> duration \<Rightarrow> duration" where
  "next_backoff tm backoff = min (wrap64 (backoff * 2)) (tm_max tm)"

text \<open>The loop; the last argument and the second result are the delays slept so far.\<close>

fun run_loop :: "timings \<Rightarrow> loop_turn list \<Rightarrow> duration \<Rightarrow> duration list \<Rightarrow> (error option \<times> duration list) option" where
  "run_loop tm [] backoff log = None"
| "run_loop tm (t # ts) backoff log =
     (if lt_ctxErr t \<noteq> None then Some (lt_ctxErr t, log)
      else
        (case lt_connect t of
           Some e \<Rightarrow>
             if e = ErrProtocolVersion then Some (Some e, log)
             else if lt_ctxErr2 t \<noteq> None then Some (lt_ctxErr2 t, log)
             else if \<not> sleepOrDone backoff (lt_slept t) (lt_ctxErr3 t) then Some (lt_ctxErr3 t, log @ [backoff])
             else run_loop tm ts (next_backoff tm backoff) (log @ [backoff])
         | None \<Rightarrow>
             (case lt_outcome t of
                OutcomeShutdown \<Rightarrow> Some (lt_ctxErr3 t, log)
              | OutcomeSuperseded \<Rightarrow> Some (None, log)
              | OutcomePeerClosed \<Rightarrow>
                  if \<not> sleepOrDone (tm_peerPause tm) (lt_slept t) (lt_ctxErr3 t)
                  then Some (lt_ctxErr3 t, log @ [tm_peerPause tm])
                  else run_loop tm ts backoff (log @ [tm_peerPause tm])
              | OutcomeTransportFailed \<Rightarrow>
                  let b = (if tm_minStable tm > 0 \<and> lt_servedFor t \<ge> tm_minStable tm then tm_initial tm else backoff)
                  in if \<not> sleepOrDone b (lt_slept t) (lt_ctxErr3 t) then Some (lt_ctxErr3 t, log @ [b])
                     else run_loop tm ts (next_backoff tm b) (log @ [b]))))"

definition Run :: "ReconnectLoop \<Rightarrow> loop_turn list \<Rightarrow> (error option \<times> duration list) option" where
  "Run l ts =
     (if \<not> l_hasConnect l \<or> \<not> l_hasServe l then Some (Some ErrBadConfig, [])
      else run_loop (loop_timings l) ts (tm_initial (loop_timings l)) [])"

section \<open>The accept loop\<close>

text \<open>
  What the accept loop sees when its \<^verbatim>\<open>select\<close> runs: which channels are closed, and what the
  accepting goroutine has reported (\<open>Some True\<close>: a stream, \<open>Some False\<close>: an error).
\<close>

record accept_view =
  av_ctxDone :: bool
  av_failed :: bool
  av_superseded :: bool
  av_yamuxClosed :: bool
  av_accepted :: "bool option"

datatype accept_case = CaseCtx | CaseFailed | CaseSuperseded | CaseClosed | CaseAccept

text \<open>A \<^verbatim>\<open>select\<close> takes any case that is ready.\<close>

fun ready :: "accept_view \<Rightarrow> accept_case \<Rightarrow> bool" where
  "ready v CaseCtx = av_ctxDone v"
| "ready v CaseFailed = av_failed v"
| "ready v CaseSuperseded = av_superseded v"
| "ready v CaseClosed = av_yamuxClosed v"
| "ready v CaseAccept = (av_accepted v \<noteq> None)"

definition classifyClose :: "bool \<Rightarrow> Outcome" where
  "classifyClose failed = (if failed then OutcomeTransportFailed else OutcomePeerClosed)"

text \<open>One turn: the view, the case that was taken, and whether the transport has failed when it is looked at again.\<close>

fun AcceptLoop :: "(accept_view \<times> accept_case \<times> bool) list \<Rightarrow> nat \<Rightarrow> (Outcome \<times> nat) option" where
  "AcceptLoop [] n = None"
| "AcceptLoop ((v, c, failed) # ts) n =
     (case c of
        CaseCtx \<Rightarrow> Some (OutcomeShutdown, n)
      | CaseFailed \<Rightarrow> Some (OutcomeTransportFailed, n)
      | CaseSuperseded \<Rightarrow> Some (OutcomeSuperseded, n)
      | CaseClosed \<Rightarrow> Some (classifyClose failed, n)
      | CaseAccept \<Rightarrow> if av_accepted v \<noteq> Some True then Some (classifyClose failed, n) else AcceptLoop ts (n + 1))"

section \<open>Specification\<close>

text \<open>What ends the loop in one turn, whatever the delays are: the result it returns then.\<close>

definition ends :: "loop_turn \<Rightarrow> error option option" where
  "ends t =
     (if lt_ctxErr t \<noteq> None then Some (lt_ctxErr t)
      else if lt_connect t = Some ErrProtocolVersion then Some (Some ErrProtocolVersion)
      else if lt_connect t \<noteq> None \<and> lt_ctxErr2 t \<noteq> None then Some (lt_ctxErr2 t)
      else if lt_connect t = None \<and> lt_outcome t = OutcomeShutdown then Some (lt_ctxErr3 t)
      else if lt_connect t = None \<and> lt_outcome t = OutcomeSuperseded then Some None
      else if lt_slept t then None else Some (lt_ctxErr3 t))"

fun first_end :: "loop_turn list \<Rightarrow> error option option" where
  "first_end [] = None"
| "first_end (t # ts) = (case ends t of Some e \<Rightarrow> Some e | None \<Rightarrow> first_end ts)"

text \<open>A turn that fails to connect, or loses its transport before it was stable, and sleeps its delay out.\<close>

definition fails_fast :: "timings \<Rightarrow> loop_turn \<Rightarrow> bool" where
  "fails_fast tm t \<longleftrightarrow>
     ends t = None \<and>
     (lt_connect t \<noteq> None \<or> lt_outcome t = OutcomeTransportFailed \<and> \<not> (tm_minStable tm > 0 \<and> lt_servedFor t \<ge> tm_minStable tm))"

text \<open>Delays as anyone configures them: they and their double are far from the end of the clock.\<close>

definition sane :: "timings \<Rightarrow> bool" where
  "sane tm \<longleftrightarrow> 0 < tm_initial tm \<and> 0 < tm_max tm \<and> 0 < tm_peerPause tm \<and> tm_initial tm \<le> 2 ^ 61 \<and> tm_max tm \<le> 2 ^ 61"

definition between :: "timings \<Rightarrow> duration \<Rightarrow> bool" where
  "between tm d \<longleftrightarrow> min (tm_initial tm) (tm_max tm) \<le> d \<and> d \<le> max (tm_initial tm) (tm_max tm)"

section \<open>Lemmas\<close>

lemma loop_timings_pos: "0 < tm_initial (loop_timings l)" "0 < tm_max (loop_timings l)" "0 < tm_peerPause (loop_timings l)"
  by (simp_all add: loop_timings_def orDuration_def DefaultInitialBackoff_def DefaultMaxBackoff_def DefaultPeerClosedPause_def)

lemma loop_timings_sane: "l_InitialBackoff l \<le> 2 ^ 61 \<Longrightarrow> l_MaxBackoff l \<le> 2 ^ 61 \<Longrightarrow> sane (loop_timings l)"
  using loop_timings_pos [of l]
  by (simp add: sane_def loop_timings_def orDuration_def DefaultInitialBackoff_def DefaultMaxBackoff_def)

lemma between_bounds: "sane tm \<Longrightarrow> between tm b \<Longrightarrow> 0 < b" "sane tm \<Longrightarrow> between tm b \<Longrightarrow> b \<le> 2 ^ 61"
  unfolding between_def sane_def by linarith+

lemma next_backoff_between: "sane tm \<Longrightarrow> between tm b \<Longrightarrow> next_backoff tm b = min (b * 2) (tm_max tm) \<and> between tm (next_backoff tm b)"
proof -
  assume a: "sane tm" "between tm b"
  then have b: "0 < b" "b \<le> 2 ^ 61" by (rule between_bounds)+
  then have "wrap64 (b * 2) = b * 2" by (intro wrap64_id) simp_all
  then have n: "next_backoff tm b = min (b * 2) (tm_max tm)" by (simp only: next_backoff_def)
  have "min (tm_initial tm) (tm_max tm) \<le> min (b * 2) (tm_max tm)" using a(2) b(1) unfolding between_def by linarith
  moreover have "min (b * 2) (tm_max tm) \<le> max (tm_initial tm) (tm_max tm)" by linarith
  ultimately show ?thesis using n by (simp only: between_def simp_thms)
qed

lemma between_initial: "sane tm \<Longrightarrow> between tm (tm_initial tm)"
  by (auto simp: between_def sane_def)

text \<open>One turn with sane delays: it ends as \<open>ends\<close> says, or sleeps and goes on with a delay that is in bounds.\<close>

lemma run_loop_turn:
  assumes "sane tm" and "between tm b"
  obtains (over) e d where "ends t = Some e" "run_loop tm (t # ts) b log = Some (e, log @ d)" "\<forall>x \<in> set d. x = tm_peerPause tm \<or> between tm x"
  | (on) d b' where "ends t = None" "run_loop tm (t # ts) b log = run_loop tm ts b' (log @ [d])" "between tm b'"
      "d = tm_peerPause tm \<or> between tm d" "fails_fast tm t \<Longrightarrow> d = b \<and> b' = min (b * 2) (tm_max tm)"
proof -
  note nb = next_backoff_between [OF assms] next_backoff_between [OF assms(1) between_initial [OF assms(1)]]
  have pos: "0 < b" "0 < tm_initial tm" "0 < tm_peerPause tm" using between_bounds(1) [OF assms] assms(1) by (simp_all add: sane_def)
  define stable where "stable \<longleftrightarrow> tm_minStable tm > 0 \<and> lt_servedFor t \<ge> tm_minStable tm"
  have goes: thesis
    if c: "lt_ctxErr t = None" and step: "lt_connect t = Some e \<and> e \<noteq> ErrProtocolVersion \<and> lt_ctxErr2 t = None \<and> d = b \<and> b' = next_backoff tm d \<or>
      lt_connect t = None \<and> lt_outcome t = OutcomePeerClosed \<and> d = tm_peerPause tm \<and> b' = b \<or>
      lt_connect t = None \<and> lt_outcome t = OutcomeTransportFailed \<and> b' = next_backoff tm d \<and> d = (if stable then tm_initial tm else b)" for e d b'
  proof -
    have run: "run_loop tm (t # ts) b log = (if lt_slept t then run_loop tm ts b' (log @ [d]) else Some (lt_ctxErr3 t, log @ [d]))"
      using step by (elim disjE) (use c pos in \<open>simp_all add: sleepOrDone_def Let_def stable_def\<close>)
    have d: "d = tm_peerPause tm \<or> between tm d" "between tm b'" using step nb assms(2) between_initial [OF assms(1)] by auto
    have e: "ends t = (if lt_slept t then None else Some (lt_ctxErr3 t))" using c step by (auto simp: ends_def)
    have f: "d = b \<and> b' = min (b * 2) (tm_max tm)" if "fails_fast tm t"
      using that step nb(1) by (auto simp: fails_fast_def stable_def)
    show thesis
    proof (cases "lt_slept t")
      case True
      then show thesis using run e d f by (intro on [of b' d]) simp_all
    next
      case False
      then show thesis using run e d by (intro over [of "lt_ctxErr3 t" "[d]"]) simp_all
    qed
  qed
  show thesis
  proof (cases "lt_ctxErr t")
    case (Some x)
    then show thesis by (intro over [of "Some x" "[]"]) (simp_all add: ends_def)
  next
    case c: None
    show thesis
    proof (cases "lt_connect t")
      case (Some e)
      show thesis
      proof (cases "e = ErrProtocolVersion \<or> lt_ctxErr2 t \<noteq> None")
        case True
        then show thesis using c Some
          by (intro over [of "if e = ErrProtocolVersion then Some e else lt_ctxErr2 t" "[]"]) (auto simp: ends_def)
      next
        case False
        then show thesis using goes [OF c, of e b "next_backoff tm b"] Some by simp
      qed
    next
      case None
      show thesis
      proof (cases "lt_outcome t")
        case OutcomeShutdown
        then show thesis using c None by (intro over [of "lt_ctxErr3 t" "[]"]) (simp_all add: ends_def)
      next
        case OutcomeSuperseded
        then show thesis using c None by (intro over [of None "[]"]) (simp_all add: ends_def)
      next
        case OutcomePeerClosed
        then show thesis using goes [OF c, of _ "tm_peerPause tm" b] None by simp
      next
        case OutcomeTransportFailed
        then show thesis using goes [OF c, of _ "if stable then tm_initial tm else b"] None by simp
      qed
    qed
  qed
qed

declare run_loop.simps(2) [simp del]

lemma run_loop_result:
  assumes "sane tm" and "between tm b"
  shows "map_option fst (run_loop tm ts b log) = first_end ts \<and>
    (\<forall>e log'. run_loop tm ts b log = Some (e, log') \<longrightarrow> (\<exists>d. log' = log @ d \<and> (\<forall>x \<in> set d. x = tm_peerPause tm \<or> between tm x)))"
  using assms(2)
proof (induction ts arbitrary: b log)
  case (Cons t ts)
  from assms(1) Cons.prems show ?case
  proof (cases rule: run_loop_turn [where t = t and ts = ts and log = log])
    case (over e d)
    then show ?thesis by simp
  next
    case (on d b')
    from Cons.IH [OF on(3), of "log @ [d]"] on(1,2,4) show ?thesis by auto
  qed
qed simp

lemma run_loop_doubles:
  assumes "sane tm" and "between tm b" and "tm_initial tm \<le> tm_max tm" and "\<forall>t \<in> set ts. fails_fast tm t" and "ends u = Some e"
    and "run_loop tm (ts @ [u]) b log = Some (e', log')" and "lt_ctxErr u \<noteq> None"
  shows "log' = log @ map (\<lambda>k. min (b * 2 ^ k) (tm_max tm)) [0..<length ts]"
  using assms(2,4,6)
proof (induction ts arbitrary: b log)
  case Nil
  then show ?case using assms(5,7) by (simp add: run_loop.simps(2))
next
  case (Cons t ts)
  from assms(1) Cons.prems(1) show ?case
  proof (cases rule: run_loop_turn [where t = t and ts = "ts @ [u]" and log = log])
    case (over e d)
    then show ?thesis using Cons.prems(2) by (simp add: fails_fast_def)
  next
    case (on d b')
    then have d: "d = b" "b' = min (b * 2) (tm_max tm)" using Cons.prems(2) by simp_all
    have le: "b \<le> tm_max tm" using Cons.prems(1) assms(3) by (simp add: between_def)
    have b: "0 < b" using between_bounds(1) [OF assms(1) Cons.prems(1)] .
    have "log' = log @ [d] @ map (\<lambda>k. min (b' * 2 ^ k) (tm_max tm)) [0..<length ts]"
      using Cons.IH [OF on(3), of "log @ [d]"] Cons.prems(2,3) on(2) by simp
    moreover have "min (b' * 2 ^ k) (tm_max tm) = min (b * 2 ^ Suc k) (tm_max tm)" for k
    proof (cases "b * 2 \<le> tm_max tm")
      case False
      have "tm_max tm * 1 \<le> tm_max tm * 2 ^ k" by (rule mult_left_mono) (use b le in simp_all)
      moreover have "tm_max tm * 1 \<le> b * 2 * 2 ^ k" using False b by (intro mult_mono) auto
      ultimately show ?thesis using False d(2) by (simp add: min_def mult.assoc)
    qed (simp add: d(2) mult.assoc)
    ultimately show ?thesis using d(1) le b by (simp add: upt_conv_Cons map_Suc_upt [symmetric] del: upt_Suc)
  qed
qed

section \<open>Properties\<close>


text \<open>
  The backoff doubles. Through \<open>n\<close> turns that fail to connect or lose a transport before it
  was stable, until the context is done, the loop sleeps the initial backoff, twice that, four
  times that and so on, each capped at the maximum.
\<close>

lemma backoff_doubles:
  assumes "l_hasConnect l" and "l_hasServe l" and "l_InitialBackoff l \<le> 2 ^ 61" and "l_MaxBackoff l \<le> 2 ^ 61" and "tm = loop_timings l"
    and "tm_initial tm \<le> tm_max tm" and "\<forall>t \<in> set ts. fails_fast tm t" and "lt_ctxErr u = Some e"
  shows "Run l (ts @ [u]) = Some (Some e, map (\<lambda>k. min (tm_initial tm * 2 ^ k) (tm_max tm)) [0..<length ts])"
proof -
  have sane: "sane tm" using loop_timings_sane assms(3-5) by simp
  have u: "ends u = Some (Some e)" using assms(8) by (simp add: ends_def)
  have "first_end (ts @ [u]) = Some (Some e)" using assms(7) u by (induction ts) (simp_all add: fails_fast_def)
  then obtain ds where run: "run_loop tm (ts @ [u]) (tm_initial tm) [] = Some (Some e, ds)"
    using run_loop_result [OF sane between_initial [OF sane], of "ts @ [u]" "[]"] by auto
  have "ds = [] @ map (\<lambda>k. min (tm_initial tm * 2 ^ k) (tm_max tm)) [0..<length ts]"
    by (rule run_loop_doubles [OF sane between_initial [OF sane] assms(6,7) u run]) (simp add: assms(8))
  then show ?thesis using run assms(1,2,5) by (simp add: Run_def)
qed

text \<open>
  The accept loop reports what it saw. Whichever ready case each \<^verbatim>\<open>select\<close> takes, a shutdown is
  reported only with the context done, a transport failure only once the transport has failed, a
  superseded session only when it was superseded, and a departed peer only if the yamux session
  is over and the transport had not failed when it was looked at again. Every accepted stream
  before that was handed over.
\<close>

lemma accept_outcome:
  assumes "AcceptLoop ts n = Some (out, m)" and "\<forall>(v, c, failed) \<in> set ts. ready v c \<and> (av_failed v \<longrightarrow> failed)"
  shows "\<exists>pre v c failed post. ts = pre @ (v, c, failed) # post \<and> m = n + length pre \<and> (\<forall>(w, d, f) \<in> set pre. av_accepted w = Some True) \<and>
    (case out of
       OutcomeShutdown \<Rightarrow> av_ctxDone v
     | OutcomeTransportFailed \<Rightarrow> failed
     | OutcomeSuperseded \<Rightarrow> av_superseded v
     | OutcomePeerClosed \<Rightarrow> \<not> failed \<and> (av_yamuxClosed v \<or> av_accepted v = Some False))"
  using assms
proof (induction ts n rule: AcceptLoop.induct)
  case (2 v c failed ts n)
  show ?case
  proof (cases "c = CaseAccept \<and> av_accepted v = Some True")
    case True
    then obtain pre v' c' f' post where ih: "ts = pre @ (v', c', f') # post" "m = n + 1 + length pre"
        "\<forall>(w, d, f) \<in> set pre. av_accepted w = Some True"
        "case out of OutcomeShutdown \<Rightarrow> av_ctxDone v' | OutcomeTransportFailed \<Rightarrow> f' | OutcomeSuperseded \<Rightarrow> av_superseded v'
         | OutcomePeerClosed \<Rightarrow> \<not> f' \<and> (av_yamuxClosed v' \<or> av_accepted v' = Some False)"
      using 2 by fastforce
    show ?thesis
      by (rule exI [of _ "(v, c, failed) # pre"], rule exI [of _ v'], rule exI [of _ c'], rule exI [of _ f'], rule exI [of _ post])
        (use ih True in auto)
  next
    case False
    have "m = n \<and> (case out of OutcomeShutdown \<Rightarrow> av_ctxDone v | OutcomeTransportFailed \<Rightarrow> failed | OutcomeSuperseded \<Rightarrow> av_superseded v
         | OutcomePeerClosed \<Rightarrow> \<not> failed \<and> (av_yamuxClosed v \<or> av_accepted v = Some False))"
      using 2(2,3) False by (cases c) (auto simp: classifyClose_def split: if_splits Outcome.splits)
    then show ?thesis by (intro exI [of _ "[]"]) auto
  qed
qed simp

text \<open>
  A superseded session can still be reported as a departed peer, because a close is classified by
  the transport alone: with both channels closed the \<^verbatim>\<open>select\<close> may take either, and the reconnect
  loop then connects again instead of stopping.
\<close>

lemma superseded_can_reconnect:
  "\<exists>v. av_superseded v \<and> ready v CaseClosed \<and> \<not> av_failed v \<and> AcceptLoop [(v, CaseClosed, av_failed v)] 0 = Some (OutcomePeerClosed, 0) \<and>
     ends \<lparr>lt_ctxErr = None, lt_connect = None, lt_outcome = OutcomePeerClosed, lt_servedFor = 0, lt_ctxErr2 = None,
            lt_slept = True, lt_ctxErr3 = None\<rparr> = None"
  by (rule exI [of _ "\<lparr>av_ctxDone = False, av_failed = False, av_superseded = True, av_yamuxClosed = True, av_accepted = None\<rparr>"])
    (simp add: classifyClose_def ends_def)

section \<open>Witnesses\<close>

definition sample_loop :: ReconnectLoop where
  "sample_loop =
     \<lparr>l_hasConnect = True, l_hasServe = True, l_InitialBackoff = 3, l_MaxBackoff = 10, l_PeerClosedPause = 1, l_MinStableDuration = 0\<rparr>"

definition sample_failure :: loop_turn where
  "sample_failure =
     \<lparr>lt_ctxErr = None, lt_connect = Some ErrNet, lt_outcome = OutcomeShutdown, lt_servedFor = 0, lt_ctxErr2 = None,
      lt_slept = True, lt_ctxErr3 = None\<rparr>"


lemma backoff_doubles_witness:
  "Run sample_loop [sample_failure, sample_failure, sample_failure, sample_failure\<lparr>lt_ctxErr := Some ErrCanceled\<rparr>] =
     Some (Some ErrCanceled, [3, 6, 10])"
proof -
  have tm: "loop_timings sample_loop = \<lparr>tm_initial = 3, tm_max = 10, tm_peerPause = 1, tm_minStable = DefaultMinStableDuration\<rparr>"
    by (simp add: loop_timings_def sample_loop_def orDuration_def DefaultMinStableDuration_def Let_def)
  have "fails_fast (loop_timings sample_loop) sample_failure" by (simp add: fails_fast_def ends_def sample_failure_def)
  then show ?thesis
    using backoff_doubles [of sample_loop "loop_timings sample_loop" "[sample_failure, sample_failure, sample_failure]"
        "sample_failure\<lparr>lt_ctxErr := Some ErrCanceled\<rparr>" ErrCanceled] tm
    by (simp add: sample_loop_def upt_conv_Cons)
qed

lemma accept_outcome_witness:
  "let v = \<lparr>av_ctxDone = False, av_failed = False, av_superseded = False, av_yamuxClosed = False, av_accepted = Some True\<rparr> in
   AcceptLoop [(v, CaseAccept, False), (v\<lparr>av_failed := True\<rparr>, CaseFailed, True)] 0 = Some (OutcomeTransportFailed, 1)"
proof -
  let ?v = "\<lparr>av_ctxDone = False, av_failed = False, av_superseded = False, av_yamuxClosed = False, av_accepted = Some True\<rparr>"
  have run: "AcceptLoop [(?v, CaseAccept, False), (?v\<lparr>av_failed := True\<rparr>, CaseFailed, True)] 0 = Some (OutcomeTransportFailed, 1)" by simp
  from accept_outcome [OF run] run show ?thesis by (simp add: Let_def)
qed

end
