(* ===== verification/Client.thy ===== *)
theory Client
  imports Serving Reconnect
begin

text \<open>
  \<^verbatim>\<open>client.go\<close> and \<^verbatim>\<open>session_guard.go\<close>: the connector and the connection over plain HTTP requests. The
  connection's goroutines (poll loop, flush loop, send-stream loop) are functions on the record
  of the connection; each takes one record per turn with the answer of the request it made and
  what the other goroutines and the application did meanwhile. The session the connector
  currently considers active is shared with other connections, so it is an argument. Requests
  are built as the code builds them; the authorization and health headers, the redirect policy
  and the socket timeouts are not modelled, an answer simply is an error when one of them strikes.

  The lemmas show what \<open>connect\<close> accepts, that what the two ends set up agrees, that an upload is
  cut into requests the server accepts and that the bytes of both directions arrive in order.
\<close>

section \<open>The connector\<close>

record Connector =
  k_BaseURL :: string
  k_PathPrefix :: string
  k_Meta :: meta
  k_PollInterval :: duration
  k_PollGrace :: duration
  k_SendTimeout :: duration
  k_DialTimeout :: duration
  k_CoalesceWindow :: duration
  k_MaxSendChunk :: int
  k_PreferStream :: bool
  k_UploadStreamPreference :: string
  k_UploadProbeTimeout :: duration
  k_PreferWebSocket :: bool
  k_PreferResume :: bool
  k_MaxReplayBytes :: int
  k_activeSessionID :: string

definition adoptSession :: "string \<Rightarrow> Connector \<Rightarrow> Connector" where
  "adoptSession ident k = k\<lparr>k_activeSessionID := ident\<rparr>"

definition isActiveSession :: "string \<Rightarrow> Connector \<Rightarrow> bool" where
  "isActiveSession ident k \<longleftrightarrow> k_activeSessionID k = ident"

text \<open>\<^verbatim>\<open>strings.TrimRight\<close> and \<^verbatim>\<open>strings.Trim\<close> with one slash.\<close>

definition TrimRight :: "string \<Rightarrow> string" where
  "TrimRight s = rev (dropWhile (\<lambda>c. c = CHR ''/'') (rev s))"

definition Trim :: "string \<Rightarrow> string" where
  "Trim s = TrimRight (dropWhile (\<lambda>c. c = CHR ''/'') s)"

definition pathPrefix :: "Connector \<Rightarrow> string" where
  "pathPrefix k = (if k_PathPrefix k = [] then ''/tunnel'' else ''/'' @ Trim (k_PathPrefix k))"

definition base_url :: "Connector \<Rightarrow> string" where
  "base_url k = TrimRight (k_BaseURL k) @ pathPrefix k"

section \<open>Connecting\<close>

definition connect_request :: "Connector \<Rightarrow> bool \<Rightarrow> bool \<Rightarrow> ConnectRequest" where
  "connect_request k preferResume forceBatchUpload =
     \<lparr>cr_ProtocolVersion = ProtocolVersion, cr_Meta = k_Meta k, cr_PreferStreamMode = k_PreferStream k,
      cr_PreferStreamUpload = (\<not> forceBatchUpload \<and> k_UploadStreamPreference k \<noteq> PollModeBatch),
      cr_PreferWebSocket = k_PreferWebSocket k, cr_PreferResume = preferResume, cr_BatchResume = preferResume,
      cr_PollIntervalMS = Milliseconds (k_PollInterval k)\<rparr>"

text \<open>The answer to the connect request: an error of the exchange, or a status and a body.\<close>

type_synonym connect_answer = "error + (nat \<times> ConnectResponse decoded)"

definition doConnect :: "connect_answer \<Rightarrow> error + ConnectResponse" where
  "doConnect answer =
     (case answer of
        Inl e \<Rightarrow> Inl e
      | Inr (status, body) \<Rightarrow>
          if status \<noteq> 200 then
            Inl (if status = 401 then ErrUnauthorized
                 else if status = 426 then ErrProtocolVersion
                 else if status \<in> {302, 301, 303, 307, 308} then ErrRedirect
                 else ErrBadResponse)
          else
            (case body of
               Decoded cr \<Rightarrow>
                 if resp_SessionID cr = [] then Inl ErrEmptySessionID
                 else if resp_ProtocolVersion cr \<noteq> 0 \<and> resp_ProtocolVersion cr \<noteq> ProtocolVersion then Inl ErrProtocolVersion
                 else Inr cr
             | _ \<Rightarrow> Inl ErrBadResponse))"

text \<open>Which connection \<open>connect\<close> goes on to build.\<close>

datatype plan = PlanWebSocket | PlanResumable | PlanHTTP

definition negotiated_mode :: "ConnectResponse \<Rightarrow> string" where
  "negotiated_mode cr = (if resp_PollMode cr = PollModeStream then PollModeStream else PollModeBatch)"

definition negotiated_upload :: "ConnectResponse \<Rightarrow> bool" where
  "negotiated_upload cr \<longleftrightarrow> resp_UploadStreamMode cr = PollModeStream"

definition connect_plan :: "Connector \<Rightarrow> ConnectResponse \<Rightarrow> error + plan" where
  "connect_plan k cr =
     (let l = resp_Limits cr; upload = negotiated_upload cr in
      if Validate l \<noteq> None then Inl ErrBadLimits
      else if resp_Resumable cr \<and> ResumeGraceMS l \<le> 0 then Inl ErrBadLimits
      else if resp_Resumable cr \<and> resp_Transport cr \<noteq> TransportWebSocket \<and> \<not> resp_BatchResume cr \<and>
              (resp_PollMode cr \<noteq> PollModeStream \<or> resp_UploadStreamMode cr \<noteq> PollModeStream) then Inl ErrNotNegotiated
      else if resp_Transport cr = TransportWebSocket then
        if HeartbeatIntervalMS l \<le> 0 then Inl ErrBadLimits
        else Inr (if resp_Resumable cr then PlanResumable else PlanWebSocket)
      else if (negotiated_mode cr = PollModeStream \<or> upload) \<and> (HeartbeatIntervalMS l \<le> 0 \<or> StreamMaxDurationMS l \<le> 0) then Inl ErrBadLimits
      else if wrap64 (PollTimeout l + k_PollInterval k) \<ge> SessionTimeout l then Inl ErrPollInterval
      else if resp_Resumable cr \<and> negotiated_mode cr = PollModeBatch \<and> \<not> upload \<and> k_PollInterval k \<ge> ResumeGrace l then Inl ErrPollInterval
      else Inr (if resp_Resumable cr then PlanResumable else PlanHTTP))"

text \<open>
  \<open>connect\<close>: each attempt has an answer and what the upload probe of that attempt reports; a probe
  that fails on a resumable session deletes it and negotiates once more, without upload streaming.
  The result is the response, the plan and whether uploads are streamed, and the ids of the
  sessions it deleted.
\<close>

fun connect :: "Connector \<Rightarrow> bool \<Rightarrow> bool \<Rightarrow> (connect_answer \<times> bool) list
    \<Rightarrow> ((error + ConnectResponse \<times> plan \<times> bool) \<times> string list) option" where
  "connect k preferResume forceBatchUpload [] = None"
| "connect k preferResume forceBatchUpload ((answer, probe) # rest) =
     (if k_BaseURL k = [] then Some (Inl ErrBadConfig, [])
      else if k_UploadStreamPreference k \<notin> {'''', PollModeBatch, PollModeStream} then Some (Inl ErrBadConfig, [])
      else
        (case doConnect answer of
           Inl e \<Rightarrow> Some (Inl e, [])
         | Inr cr \<Rightarrow>
             (case connect_plan k cr of
                Inl e \<Rightarrow> Some (Inl e, [])
              | Inr PlanWebSocket \<Rightarrow> Some (Inr (cr, PlanWebSocket, False), [])
              | Inr PlanResumable \<Rightarrow>
                  if resp_Transport cr \<noteq> TransportWebSocket \<and> negotiated_upload cr \<and> k_UploadStreamPreference k = '''' \<and> \<not> probe
                  then map_option (\<lambda>(r, gone). (r, resp_SessionID cr # gone)) (connect k (resp_BatchResume cr) True rest)
                  else Some (Inr (cr, PlanResumable, negotiated_upload cr), [])
              | Inr PlanHTTP \<Rightarrow>
                  Some (Inr (cr, PlanHTTP,
                    negotiated_upload cr \<and>
                    (if k_UploadStreamPreference k = PollModeStream then True
                     else if k_UploadStreamPreference k = PollModeBatch then False
                     else probe)), []))))"

definition Connect :: "Connector \<Rightarrow> (connect_answer \<times> bool) list \<Rightarrow> ((error + ConnectResponse \<times> plan \<times> bool) \<times> string list) option" where
  "Connect k attempts = connect k (k_PreferResume k) False attempts"

section \<open>The guard against superseded sessions\<close>

text \<open>\<open>g_superseded\<close>: the channel is closed; \<open>g_cancelled\<close>: the connection's context is cancelled.\<close>

record sessionGuard =
  g_sessionID :: string
  g_superseded :: bool
  g_cancelled :: bool

definition newSessionGuard :: "string \<Rightarrow> sessionGuard" where
  "newSessionGuard ident = \<lparr>g_sessionID = ident, g_superseded = False, g_cancelled = False\<rparr>"

definition supersede :: "sessionGuard \<Rightarrow> sessionGuard" where
  "supersede g = (if g_superseded g then g else g\<lparr>g_superseded := True, g_cancelled := True\<rparr>)"

definition supersededByNewerConnect :: "Connector \<Rightarrow> sessionGuard \<Rightarrow> bool \<times> sessionGuard" where
  "supersededByNewerConnect k g = (if \<not> isActiveSession (g_sessionID g) k then (True, supersede g) else (False, g))"

definition isSessionClosedErr :: "error \<Rightarrow> bool" where
  "isSessionClosedErr e \<longleftrightarrow> e = ErrSessionGone \<or> e = ErrStatus 410 \<or> e = ErrStatus 404"

section \<open>The connection\<close>

record httpConn =
  c_guard :: sessionGuard
  c_limits :: Limits
  c_maxSendChunk :: nat
  c_pollInterval :: duration
  c_readPipe :: pipe
  c_streamMode :: bool
  c_streamMaxFrame :: int
  c_failed :: bool
  c_closed :: bool
  c_writeBuf :: bytes
  c_writeFlightOn :: bool
  c_uploadStreamMode :: bool
  c_writePipe :: "pipe option"

definition newHttpConn :: "Connector \<Rightarrow> ConnectResponse \<Rightarrow> bool \<Rightarrow> httpConn" where
  "newHttpConn k cr uploadStream =
     \<lparr>c_guard = newSessionGuard (resp_SessionID cr), c_limits = resp_Limits cr,
      c_maxSendChunk = nat (min (orInt (k_MaxSendChunk k) DefaultMaxSendChunk) (MaxSendBytes (resp_Limits cr))),
      c_pollInterval = k_PollInterval k, c_readPipe = NewBufferedPipe,
      c_streamMode = (negotiated_mode cr = PollModeStream),
      c_streamMaxFrame = orInt (PollBufferBytes (resp_Limits cr)) DefaultPollBufferSize,
      c_failed = False, c_closed = False, c_writeBuf = [], c_writeFlightOn = False, c_uploadStreamMode = uploadStream,
      c_writePipe = (if uploadStream then Some NewBufferedPipe else None)\<rparr>"

text \<open>The end of \<open>connect\<close> for \<open>PlanHTTP\<close>: the session is adopted before the loops start.\<close>

definition connect_http :: "Connector \<Rightarrow> ConnectResponse \<Rightarrow> bool \<Rightarrow> httpConn \<times> Connector" where
  "connect_http k cr uploadStream = (newHttpConn k cr uploadStream, adoptSession (resp_SessionID cr) k)"

abbreviation ctx_done :: "httpConn \<Rightarrow> bool" where
  "ctx_done c \<equiv> g_cancelled (c_guard c)"

definition fail :: "httpConn \<Rightarrow> httpConn" where
  "fail c = (if c_failed c then c else c\<lparr>c_failed := True, c_readPipe := Close (c_readPipe c)\<rparr>)"

text \<open>What both handlers of an ended session do: nothing is a failure if a newer connect has replaced it.\<close>

definition supersede_or_fail :: "Connector \<Rightarrow> httpConn \<Rightarrow> httpConn" where
  "supersede_or_fail k c =
     (case supersededByNewerConnect k (c_guard c) of
        (True, g) \<Rightarrow>
          c\<lparr>c_guard := g, c_readPipe := Close (c_readPipe c), c_writePipe := map_option Close (c_writePipe c)\<rparr>
      | (False, _) \<Rightarrow> fail c)"

definition onSessionClosed :: "Connector \<Rightarrow> httpConn \<Rightarrow> httpConn" where
  "onSessionClosed k c = supersede_or_fail k c"

definition onTransportProblem :: "Connector \<Rightarrow> error \<Rightarrow> httpConn \<Rightarrow> httpConn" where
  "onTransportProblem k e c = (if isSessionClosedErr e then onSessionClosed k c else supersede_or_fail k c)"

definition conn_Read :: "nat \<Rightarrow> httpConn \<Rightarrow> schedule \<Rightarrow> ((error + bytes) \<times> httpConn \<times> schedule) option" where
  "conn_Read cap c sch = map_option (\<lambda>(res, p, sch'). (res, c\<lparr>c_readPipe := p\<rparr>, sch')) (Read cap (c_readPipe c) sch)"

text \<open>\<open>Write\<close> returns also whether it starts a flush loop; \<open>None\<close> is the panic of a missing pipe.\<close>

definition conn_Write :: "bytes \<Rightarrow> httpConn \<Rightarrow> ((error + nat) \<times> bool \<times> httpConn) option" where
  "conn_Write p c =
     (if c_closed c then Some (Inl ErrClosedPipe, False, c)
      else if p = [] then Some (Inr 0, False, c)
      else if c_uploadStreamMode c then
        map_option (\<lambda>w. case Write w p of (res, _, w') \<Rightarrow> (res, False, c\<lparr>c_writePipe := Some w'\<rparr>)) (c_writePipe c)
      else
        let c1 = c\<lparr>c_writeBuf := c_writeBuf c @ p\<rparr> in
        if c_writeFlightOn c1 then Some (Inr (length p), False, c1)
        else Some (Inr (length p), True, c1\<lparr>c_writeFlightOn := True\<rparr>))"

text \<open>\<open>Close\<close>: \<open>finish\<close> is what the loops do until they have ended. Whether it sends the DELETE is the first result.\<close>

definition conn_Close :: "(httpConn \<Rightarrow> httpConn) \<Rightarrow> httpConn \<Rightarrow> bool \<times> httpConn" where
  "conn_Close finish c =
     (if c_closed c then (False, c)
      else
        let c1 = finish (c\<lparr>c_closed := True, c_guard := (c_guard c)\<lparr>g_cancelled := True\<rparr>, c_writePipe := map_option Close (c_writePipe c)\<rparr>)
        in (True, c1\<lparr>c_readPipe := Close (c_readPipe c1)\<rparr>))"

section \<open>Downloads\<close>

text \<open>One long poll: the request and what becomes of its answer. The result says whether data came back.\<close>

definition doPoll_request :: request where
  "doPoll_request =
     \<lparr>rq_header = header_Set no_header HeaderReceiveOnly ''true'', rq_ContentLength = 0, rq_body = \<lparr>r_chunks = [], r_end = EOF\<rparr>\<rparr>"

definition doPoll :: "nat \<Rightarrow> error + wire \<Rightarrow> httpConn \<Rightarrow> (error + bool) \<times> httpConn" where
  "doPoll readCap answer c =
     (case answer of
        Inl e \<Rightarrow> (Inl e, c)
      | Inr resp \<Rightarrow>
          if wr_status resp = 200 then
            (case read_all_limit readCap (wr_body resp) of
               Inl e \<Rightarrow> (Inl e, c)
             | Inr data \<Rightarrow>
                 if data = [] then (Inr False, c)
                 else (case Write (c_readPipe c) data of
                         (Inl e, _, p) \<Rightarrow> (Inl e, c\<lparr>c_readPipe := p\<rparr>)
                       | (Inr _, _, p) \<Rightarrow> (Inr True, c\<lparr>c_readPipe := p\<rparr>)))
          else if wr_status resp = 204 then (Inr False, c)
          else (Inl (ErrStatus (wr_status resp)), c))"

text \<open>
  One turn of the poll loop: what happens to the connection before the request and while it is
  in flight, its answer, the connector when it is over, and whether the pause was slept out.
\<close>

record poll_turn =
  pt_before :: "httpConn \<Rightarrow> httpConn"
  pt_during :: "httpConn \<Rightarrow> httpConn"
  pt_answer :: "error + wire"
  pt_connector :: Connector
  pt_slept :: bool

fun pollLoop :: "poll_turn list \<Rightarrow> httpConn \<Rightarrow> httpConn option" where
  "pollLoop [] c = None"
| "pollLoop (t # ts) c =
     (let c0 = pt_before t c in
      if ctx_done c0 then Some c0
      else
        (case doPoll (nat (orInt (PollBufferBytes (c_limits c0)) DefaultPollBufferSize)) (pt_answer t) (pt_during t c0) of
           (Inl e, c1) \<Rightarrow>
             if ctx_done c1 \<or> c_closed c1 then Some c1
             else if isSessionClosedErr e then Some (onSessionClosed (pt_connector t) c1)
             else Some (onTransportProblem (pt_connector t) e c1)
         | (Inr got, c1) \<Rightarrow>
             if \<not> got \<and> c_pollInterval c1 > 0 \<and> \<not> pt_slept t then Some c1 else pollLoop ts c1))"

text \<open>
  A loop that reads frames until an error or a step ends it: \<open>others\<close> is what the other goroutines
  do before each frame is handled, \<open>report\<close> turns the reader's error into the loop's. A step that
  returns \<open>None\<close> panics.
\<close>

function read_loop :: "(nat \<Rightarrow> 'c \<Rightarrow> 'c) \<Rightarrow> (frameType \<Rightarrow> bytes \<Rightarrow> 'c \<Rightarrow> (error option \<times> 'c) option) \<Rightarrow> (error \<Rightarrow> error)
    \<Rightarrow> nat \<Rightarrow> frameReader \<Rightarrow> 'c \<Rightarrow> (error \<times> 'c) outcome" where
  "read_loop others step report k f c =
     (case frameReader_next f of
        (Inl e, _) \<Rightarrow> Returns (report e, others k c)
      | (Inr (ty, payload), f') \<Rightarrow>
          (case step ty payload (others k c) of
             None \<Rightarrow> Panics
           | Some (Some e, c') \<Rightarrow> Returns (e, c')
           | Some (None, c') \<Rightarrow> read_loop others step report (Suc k) f' c'))"
  by pat_completeness auto
termination
  by (relation "measure (\<lambda>(_, _, _, _, f, _). length (r_bytes (fr_r f)))") (auto intro: next_consumes [OF sym])

declare read_loop.simps [simp del]

text \<open>The switch on a frame of a streamed poll.\<close>

definition stream_step :: "frameType \<Rightarrow> bytes \<Rightarrow> httpConn \<Rightarrow> (error option \<times> httpConn) option" where
  "stream_step ty payload c =
     (if ty = frameData then
        if payload \<noteq> [] then
          (case Write (c_readPipe c) payload of
             (Inl e, _, p) \<Rightarrow> Some (Some e, c\<lparr>c_readPipe := p\<rparr>)
           | (Inr _, _, p) \<Rightarrow> Some (None, c\<lparr>c_readPipe := p\<rparr>))
        else Some (None, c)
      else if ty = frameHeartbeat then Some (None, c)
      else if ty = frameEnd then Some (Some ErrStreamEnd, c)
      else if ty = frameGone then Some (Some ErrSessionGone, c)
      else Some (Some ErrUnknownFrame, c))"

text \<open>A body that ends cleanly is a clean end; \<open>watchdog\<close>: the idle timer fired and the context is alive.\<close>

definition stream_error :: "bool \<Rightarrow> error \<Rightarrow> error" where
  "stream_error watchdog e = (if e = EOF then ErrStreamEnd else if watchdog then ErrWatchdog else e)"

definition doStreamPoll :: "(nat \<Rightarrow> httpConn \<Rightarrow> httpConn) \<Rightarrow> bool \<Rightarrow> error + wire \<Rightarrow> httpConn \<Rightarrow> (error \<times> httpConn) outcome" where
  "doStreamPoll others watchdog answer c =
     (case answer of
        Inl e \<Rightarrow> Returns (e, c)
      | Inr resp \<Rightarrow>
          if wr_status resp \<noteq> 200 then Returns (ErrStatus (wr_status resp), c)
          else read_loop others stream_step (stream_error watchdog) 0 (newFrameReader (wr_body resp) (c_streamMaxFrame c)) c)"

record stream_poll_turn =
  sp_before :: "httpConn \<Rightarrow> httpConn"
  sp_others :: "nat \<Rightarrow> httpConn \<Rightarrow> httpConn"
  sp_watchdog :: bool
  sp_answer :: "error + wire"
  sp_connector :: Connector

fun pollLoopStream :: "stream_poll_turn list \<Rightarrow> httpConn \<Rightarrow> httpConn outcome" where
  "pollLoopStream [] c = Sleeps"
| "pollLoopStream (t # ts) c =
     (let c0 = sp_before t c in
      if ctx_done c0 then Returns c0
      else
        (case doStreamPoll (sp_others t) (sp_watchdog t) (sp_answer t) c0 of
           Panics \<Rightarrow> Panics
         | Sleeps \<Rightarrow> Sleeps
         | Returns (e, c1) \<Rightarrow>
             if e = ErrStreamEnd then pollLoopStream ts c1
             else if ctx_done c1 \<or> c_closed c1 then Returns c1
             else if isSessionClosedErr e then Returns (onSessionClosed (sp_connector t) c1)
             else Returns (onTransportProblem (sp_connector t) e c1)))"

section \<open>Uploads in requests\<close>

definition doSend_request :: "bytes \<Rightarrow> request" where
  "doSend_request chunk =
     \<lparr>rq_header = header_Set (header_Set no_header ''Content-Type'' ''application/octet-stream'') HeaderSendOnly ''true'',
      rq_ContentLength = int (length chunk), rq_body = \<lparr>r_chunks = [chunk], r_end = EOF\<rparr>\<rparr>"

definition doSend :: "error + wire \<Rightarrow> error option" where
  "doSend answer =
     (case answer of
        Inl e \<Rightarrow> Some e
      | Inr resp \<Rightarrow> if wr_status resp = 200 \<or> wr_status resp = 204 then None else Some (ErrStatus (wr_status resp)))"

definition clearFlight :: "httpConn \<Rightarrow> httpConn" where
  "clearFlight c = c\<lparr>c_writeFlightOn := False\<rparr>"

text \<open>One request of the flush loop: what the others do while it is in flight, its answer, the connector then.\<close>

record flush_turn =
  ft_others :: "httpConn \<Rightarrow> httpConn"
  ft_answer :: "error + wire"
  ft_connector :: Connector

text \<open>
  The loop after the coalescing window: the bytes taken from the buffer and not yet sent, and the
  chunks sent so far.
\<close>

fun flush_run :: "flush_turn list \<Rightarrow> bytes \<Rightarrow> bytes list \<Rightarrow> httpConn \<Rightarrow> (bytes list \<times> httpConn) option" where
  "flush_run ts buf chunks c =
     (let (buf1, c1) = (if buf = [] then (c_writeBuf c, c\<lparr>c_writeBuf := []\<rparr>) else (buf, c)) in
      if buf1 = [] then Some (chunks, c1\<lparr>c_writeFlightOn := False\<rparr>)
      else
        (case ts of
           [] \<Rightarrow> None
         | t # ts' \<Rightarrow>
             let n = min (length buf1) (c_maxSendChunk c1); c2 = ft_others t c1 in
             (case doSend (ft_answer t) of
                Some e \<Rightarrow>
                  Some (chunks @ [take n buf1],
                        clearFlight (if \<not> ctx_done c2 \<and> \<not> c_closed c2 then onTransportProblem (ft_connector t) e c2 else c2))
              | None \<Rightarrow> flush_run ts' (drop n buf1) (chunks @ [take n buf1]) c2)))"

declare flush_run.simps [simp del]

text \<open>\<open>waited\<close>: the coalescing window passed before the context was done; \<open>meanwhile\<close>: what happened during it.\<close>

definition flushLoop :: "bool \<Rightarrow> (httpConn \<Rightarrow> httpConn) \<Rightarrow> flush_turn list \<Rightarrow> httpConn \<Rightarrow> (bytes list \<times> httpConn) option" where
  "flushLoop waited meanwhile ts c =
     (let c0 = meanwhile c in if \<not> waited then Some ([], clearFlight c0) else flush_run ts [] [] c0)"

section \<open>Uploads in a stream\<close>

text \<open>One turn of the feeder: what happens to the pipe before the wait, the wait, and whether the deadline has passed.\<close>

record feed_turn =
  fd_before :: "pipe_event list"
  fd_wait :: schedule
  fd_late :: bool

fun feedSendStream :: "nat \<Rightarrow> feed_turn list \<Rightarrow> pipe \<Rightarrow> writer \<Rightarrow> (error option \<times> pipe \<times> writer) option" where
  "feedSendStream cap [] p w = None"
| "feedSendStream cap (t # ts) p w =
     (case ReadAvailable cap (after (fd_before t) p) (fd_wait t) of
        None \<Rightarrow> None
      | Some (res, p1, _) \<Rightarrow>
          if res = Inl EOF then Some (None, p1, snd (writeFrame w frameEnd []))
          else
            (case (case res of
                     Inr d \<Rightarrow> if d \<noteq> [] then writeFrame w frameData d else writeFrame w frameHeartbeat []
                   | Inl _ \<Rightarrow> writeFrame w frameHeartbeat []) of
               (Some e, w1) \<Rightarrow> Some (Some e, p1, w1)
             | (None, w1) \<Rightarrow>
                 if fd_late t then Some (None, p1, snd (writeFrame w1 frameEnd [])) else feedSendStream cap ts p1 w1))"

definition doSendStream_request :: "reader \<Rightarrow> request" where
  "doSendStream_request body =
     \<lparr>rq_header = header_Set (header_Set no_header ''Content-Type'' ''application/octet-stream'') HeaderSendStream ''true'',
      rq_ContentLength = -1, rq_body = body\<rparr>"

definition doSendStream :: "error option \<Rightarrow> error + wire \<Rightarrow> error option" where
  "doSendStream feedErr answer =
     (case answer of
        Inl e \<Rightarrow> Some e
      | Inr resp \<Rightarrow> if wr_status resp = 200 then feedErr else Some (ErrStatus (wr_status resp)))"

record send_turn =
  st_before :: "httpConn \<Rightarrow> httpConn"
  st_feed :: "feed_turn list"
  st_writer :: writer
  st_during :: "httpConn \<Rightarrow> httpConn"
  st_answer :: "error + wire"
  st_connector :: Connector

fun sendLoopStream :: "send_turn list \<Rightarrow> httpConn \<Rightarrow> httpConn outcome" where
  "sendLoopStream [] c = Sleeps"
| "sendLoopStream (t # ts) c =
     (let c0 = st_before t c in
      if ctx_done c0 then Returns c0
      else
        (case c_writePipe c0 of
           None \<Rightarrow> Panics
         | Some p \<Rightarrow>
             (case feedSendStream (nat (c_streamMaxFrame c0)) (st_feed t) p (st_writer t) of
                None \<Rightarrow> Sleeps
              | Some (feedErr, p', w) \<Rightarrow>
                  let c1 = st_during t (c0\<lparr>c_writePipe := Some p'\<rparr>) in
                  (case doSendStream feedErr (st_answer t) of
                     None \<Rightarrow> sendLoopStream ts c1
                   | Some e \<Rightarrow>
                       if ctx_done c1 \<or> c_closed c1 then Returns c1 else Returns (onTransportProblem (st_connector t) e c1)))))"

text \<open>The probe: its frames, its request, and what counts as passed.\<close>

definition probe_frames :: "(frameType \<times> bytes) list" where
  "probe_frames =
     map (\<lambda>k. (frameData, replicate (min 32768 (uploadProbeFillerBytes - k * 32768)) 0))
       [0..<(uploadProbeFillerBytes + 32767) div 32768] @ [(frameEnd, [])]"

definition probe_request :: "reader \<Rightarrow> request" where
  "probe_request body =
     \<lparr>rq_header = header_Set (header_Set (header_Set no_header ''Content-Type'' ''application/octet-stream'')
        HeaderSendStream ''true'') HeaderSendStreamProbe ''true'', rq_ContentLength = -1, rq_body = body\<rparr>"

definition probeUploadStream :: "error + wire \<Rightarrow> bool" where
  "probeUploadStream answer = (case answer of Inl _ \<Rightarrow> False | Inr resp \<Rightarrow> wr_status resp = 200)"

section \<open>Specification\<close>

text \<open>What the application does while a request is in flight: it writes \<open>w\<close>.\<close>

definition writes :: "bytes \<Rightarrow> (httpConn \<Rightarrow> httpConn) \<Rightarrow> bool" where
  "writes w f \<longleftrightarrow> (\<forall>c. f c = c\<lparr>c_writeBuf := c_writeBuf c @ w\<rparr>)"

text \<open>Chunks posted to the server one after the other, as long as each is answered with 200.\<close>

fun post_all :: "ServerConfig \<Rightarrow> Hooks \<Rightarrow> string \<Rightarrow> poll_env \<Rightarrow> bytes list \<Rightarrow> server \<Rightarrow> server option" where
  "post_all cfg h ident env [] sv = Some sv"
| "post_all cfg h ident env (ch # chs) sv =
     (case PollHandler cfg h ident (doSend_request ch) env sv of
        Returns (Answer resp, sv') \<Rightarrow> if doSend (Inr (wire_of resp)) = None then post_all cfg h ident env chs sv' else None
      | _ \<Rightarrow> None)"

section \<open>Lemmas on uploads in requests\<close>

lemma flush_run_idle: "buf = [] \<Longrightarrow> c_writeBuf c = [] \<Longrightarrow> flush_run ts buf chunks c = Some (chunks, c\<lparr>c_writeFlightOn := False\<rparr>)"
  by (simp add: flush_run.simps [of ts])

lemma flush_run_turn:
  assumes "doSend (ft_answer t) = None" and "writes w (ft_others t)" and "c_maxSendChunk c > 0" and "buf @ c_writeBuf c \<noteq> []"
  obtains a b c2 where "a \<noteq> []" "length a \<le> c_maxSendChunk c" "a @ b @ c_writeBuf c2 = buf @ c_writeBuf c @ w"
    "c_maxSendChunk c2 = c_maxSendChunk c" "flush_run (t # ts) buf chunks c = flush_run ts b (chunks @ [a]) c2"
proof -
  define buf1 where "buf1 = (if buf = [] then c_writeBuf c else buf)"
  define c1 where "c1 = (if buf = [] then c\<lparr>c_writeBuf := []\<rparr> else c)"
  have grab: "(if buf = [] then (c_writeBuf c, c\<lparr>c_writeBuf := []\<rparr>) else (buf, c)) = (buf1, c1)" by (simp add: c1_def buf1_def)
  have c1: "c_maxSendChunk c1 = c_maxSendChunk c" "buf1 @ c_writeBuf c1 = buf @ c_writeBuf c" "buf1 \<noteq> []"
    using assms(4) by (simp_all add: c1_def buf1_def split: if_splits)
  define n where "n = min (length buf1) (c_maxSendChunk c1)"
  define a where "a = take n buf1"
  define b where "b = drop n buf1"
  have ab: "a @ b = buf1" by (simp add: a_def b_def)
  let ?c2 = "c1\<lparr>c_writeBuf := c_writeBuf c1 @ w\<rparr>"
  have t: "ft_others t c1 = ?c2" using assms(2) by (simp add: writes_def)
  show thesis
  proof (rule that [of a b ?c2])
    show "a \<noteq> []" "length a \<le> c_maxSendChunk c" using c1(1,3) assms(3) by (simp_all add: a_def n_def)
    have "a @ b @ c_writeBuf ?c2 = (buf1 @ c_writeBuf c1) @ w" using ab by simp
    then show "a @ b @ c_writeBuf ?c2 = buf @ c_writeBuf c @ w" unfolding c1(2) by simp
    show "c_maxSendChunk ?c2 = c_maxSendChunk c" using c1(1) by simp
    show "flush_run (t # ts) buf chunks c = flush_run ts b (chunks @ [a]) ?c2"
      unfolding flush_run.simps [of "t # ts"] grab Let_def prod.case using c1(3) t assms(1)
      by (simp add: n_def [symmetric] a_def [symmetric] b_def [symmetric])
  qed
qed

lemma flush_run_sends:
  assumes "\<forall>t \<in> set ts. doSend (ft_answer t) = None \<and> writes (w t) (ft_others t)" and "c_maxSendChunk c > 0"
    and "flush_run ts buf chunks c = Some (chunks', c')"
  shows "\<exists>new. chunks' = chunks @ new \<and> length new \<le> length ts \<and> concat new = buf @ c_writeBuf c @ concat (map w (take (length new) ts)) \<and>
    (\<forall>ch \<in> set new. ch \<noteq> [] \<and> length ch \<le> c_maxSendChunk c) \<and> c_writeBuf c' = [] \<and> \<not> c_writeFlightOn c'"
  using assms
proof (induction ts arbitrary: buf chunks c)
  case Nil
  then show ?case by (auto simp: flush_run.simps [of "[]"] Let_def split: if_splits)
next
  case (Cons t ts)
  show ?case
  proof (cases "buf @ c_writeBuf c = []")
    case True
    then show ?thesis using Cons.prems(3) flush_run_idle [of buf c "t # ts" chunks] by auto
  next
    case False
    obtain a b c2 where turn: "a \<noteq> []" "length a \<le> c_maxSendChunk c" "a @ b @ c_writeBuf c2 = buf @ c_writeBuf c @ w t"
      "c_maxSendChunk c2 = c_maxSendChunk c" "flush_run (t # ts) buf chunks c = flush_run ts b (chunks @ [a]) c2"
      using flush_run_turn [OF _ _ Cons.prems(2) False, of t "w t" ts chunks] Cons.prems(1) by auto
    obtain new where new: "chunks' = (chunks @ [a]) @ new" "length new \<le> length ts"
        "concat new = b @ c_writeBuf c2 @ concat (map w (take (length new) ts))"
        "\<forall>ch \<in> set new. ch \<noteq> [] \<and> length ch \<le> c_maxSendChunk c" "c_writeBuf c' = []" "\<not> c_writeFlightOn c'"
      using Cons.IH [of c2 b "chunks @ [a]"] Cons.prems turn(4,5) by auto
    have "concat (a # new) = (a @ b @ c_writeBuf c2) @ concat (map w (take (length new) ts))" using new(3) by simp
    then have "concat (a # new) = buf @ c_writeBuf c @ concat (map w (take (length (a # new)) (t # ts)))" unfolding turn(3) by simp
    then show ?thesis by (intro exI [of _ "a # new"]) (use new turn(1,2) in simp)
  qed
qed

lemma flush_run_returns:
  assumes "\<forall>t \<in> set ts. doSend (ft_answer t) = None \<and> writes (w t) (ft_others t)" and "c_maxSendChunk c > 0"
    and "length (buf @ c_writeBuf c @ concat (map w ts)) \<le> length ts"
  shows "\<exists>r. flush_run ts buf chunks c = Some r"
  using assms
proof (induction ts arbitrary: buf chunks c)
  case Nil
  then show ?case by (simp add: flush_run_idle)
next
  case (Cons t ts)
  show ?case
  proof (cases "buf @ c_writeBuf c = []")
    case False
    obtain a b c2 where turn: "a \<noteq> []" "length a \<le> c_maxSendChunk c" "a @ b @ c_writeBuf c2 = buf @ c_writeBuf c @ w t"
      "c_maxSendChunk c2 = c_maxSendChunk c" "flush_run (t # ts) buf chunks c = flush_run ts b (chunks @ [a]) c2"
      using flush_run_turn [OF _ _ Cons.prems(2) False, of t "w t" ts chunks] Cons.prems(1) by auto
    have "length (a @ b @ c_writeBuf c2) + length (concat (map w ts)) \<le> Suc (length ts)" using Cons.prems(3) unfolding turn(3) by simp
    then have "length (b @ c_writeBuf c2 @ concat (map w ts)) \<le> length ts" using turn(1) by (cases a) simp_all
    then show ?thesis using Cons.IH [of c2 b "chunks @ [a]"] Cons.prems(1,2) turn(4,5) by simp
  qed (simp add: flush_run_idle)
qed

lemma doSend_headers [simp]:
  "header_true (rq_header (doSend_request ch)) HeaderSendOnly" "\<not> header_true (rq_header (doSend_request ch)) HeaderSendStream"
  by (simp_all add: doSend_request_def header_true_def header_Get_def header_Set_def no_header_def header_names)

text \<open>A plain, open session that nobody else touches.\<close>

definition plain_open :: "string \<Rightarrow> nat \<Rightarrow> server \<Rightarrow> bool" where
  "plain_open ident ref sv \<longleftrightarrow>
     store_inv sv \<and> Get ident sv = Some ref \<and> s_rs (sess sv ref) = None \<and> \<not> s_closed (sess sv ref) \<and> \<not> p_closed (toServer (sess sv ref))"

definition quiet :: "Hooks \<Rightarrow> poll_env \<Rightarrow> bool" where
  "quiet h env \<longleftrightarrow> h_OnPoll h = None \<and> pe_body env = id \<and> pe_others env = id \<and> pe_end env = id"

lemma plain_open_ref: "plain_open ident ref sv \<Longrightarrow> ref < length (heap sv)"
  by (auto simp: plain_open_def store_inv_def Get_def)

lemma plain_open_upd:
  assumes "plain_open ident ref sv" and "s_ID (f (sess sv ref)) = s_ID (sess sv ref)" and "s_rs (f (sess sv ref)) = None"
    and "\<not> s_closed (f (sess sv ref))" and "\<not> p_closed (toServer (f (sess sv ref)))"
  shows "plain_open ident ref (upd ref f sv)"
  using assms plain_open_ref [OF assms(1)] by (auto simp: plain_open_def store_inv_def Get_def sess_upd)

lemma writeUpstream_simps [simp]:
  "s_ID (snd (writeUpstream s d)) = s_ID s" "s_rs (snd (writeUpstream s d)) = s_rs s" "s_closed (snd (writeUpstream s d)) = s_closed s"
  "toServer (snd (writeUpstream s d)) = snd (snd (Write (toServer s) d))"
  by (simp_all add: writeUpstream_def split_beta)

lemma endPoll_simps [simp]:
  "s_ID (endPoll now s) = s_ID s" "s_rs (endPoll now s) = s_rs s" "s_closed (endPoll now s) = s_closed s"
  "toServer (endPoll now s) = toServer s" "toClient (endPoll now s) = toClient s"
  by (simp_all add: endPoll_def noteDetachedLocked_def)

lemma plain_send:
  assumes "check cfg = None" and "plain_open ident ref sv" and "quiet h env" and "int (length ch) \<le> cfg_MaxSendBytes (withDefaults cfg)"
  obtains sv' where "PollHandler cfg h ident (doSend_request ch) env sv = Returns (Answer (WriteHeader 200), sv')" "plain_open ident ref sv'"
    "p_buf (toServer (sess sv' ref)) = p_buf (toServer (sess sv ref)) @ ch"
proof -
  let ?s = "(sess sv ref)\<lparr>pollInFlight := pollInFlight (sess sv ref) + 1\<rparr>"
  have s: "s_rs (sess sv ref) = None" "\<not> s_closed (sess sv ref)" "\<not> p_closed (toServer (sess sv ref))" "Get ident sv = Some ref"
    using assms(2) by (simp_all add: plain_open_def)
  have b: "beginPoll (pe_now env) (sess sv ref) = (True, ?s)" using s by (simp add: beginPoll_def resumeExpiredLocked_def Resumable_def)
  define sv1 where "sv1 = upd ref (\<lambda>_. touch (pe_now env) ?s) sv"
  define f where "f s = (if ch \<noteq> [] then snd (writeUpstream s ch) else s)" for s
  have sv2: "(if ch \<noteq> [] then upd ref (\<lambda>s. snd (writeUpstream s ch)) sv1 else sv1) = upd ref f sv1"
    by (simp add: f_def upd_def)
  have o1: "plain_open ident ref sv1" unfolding sv1_def by (rule plain_open_upd [OF assms(2)]) (use s in \<open>simp_all add: touch_def\<close>)
  then have rs1: "s_rs (sess sv1 ref) = None" "\<not> s_closed (sess sv1 ref)" "\<not> p_closed (toServer (sess sv1 ref))" by (simp_all add: plain_open_def)
  have o2: "plain_open ident ref (upd ref f sv1)" by (rule plain_open_upd [OF o1]) (use rs1 in \<open>simp_all add: f_def\<close>)
  then have rs2: "s_rs (sess (upd ref f sv1) ref) = None" "\<not> s_closed (sess (upd ref f sv1) ref)" "\<not> p_closed (toServer (sess (upd ref f sv1) ref))"
    by (simp_all add: plain_open_def)
  have body: "read_all_max (cfg_MaxSendBytes (withDefaults cfg)) (rq_body (doSend_request ch)) = Inr ch"
    using assms(4) by (simp add: read_all_max_def doSend_request_def r_bytes_def)
  have "plain_poll (withDefaults cfg) (doSend_request ch) env ref sv1 = Returns (Answer (WriteHeader 200), upd ref f sv1)"
    using assms(3) sv2 by (simp add: plain_poll_def body quiet_def)
  then have run: "PollHandler cfg h ident (doSend_request ch) env sv = Returns (Answer (WriteHeader 200), upd ref (endPoll (pe_endTime env)) (upd ref f sv1))"
    using assms(1,3) s b rs1 by (simp add: PollHandler_def quiet_def poll_dispatch_def sv1_def [symmetric] Let_def)
  show thesis
  proof (rule that [OF run])
    show "plain_open ident ref (upd ref (endPoll (pe_endTime env)) (upd ref f sv1))" by (rule plain_open_upd [OF o2]) (use rs2 in simp_all)
    have "toServer (sess sv1 ref) = toServer (sess sv ref)" using plain_open_ref [OF assms(2)] by (simp add: sv1_def sess_upd touch_def)
    then show "p_buf (toServer (sess (upd ref (endPoll (pe_endTime env)) (upd ref f sv1)) ref)) = p_buf (toServer (sess sv ref)) @ ch"
      using plain_open_ref [OF o1] s(3) by (simp add: sess_upd f_def Write_buf)
  qed
qed

lemma post_all_arrives:
  assumes "check cfg = None" and "plain_open ident ref sv" and "quiet h env"
    and "\<forall>ch \<in> set chs. int (length ch) \<le> cfg_MaxSendBytes (withDefaults cfg)"
  shows "\<exists>sv'. post_all cfg h ident env chs sv = Some sv' \<and> plain_open ident ref sv' \<and>
     p_buf (toServer (sess sv' ref)) = p_buf (toServer (sess sv ref)) @ concat chs"
  using assms(2,4)
proof (induction chs arbitrary: sv)
  case (Cons ch chs)
  obtain sv1 where sv1: "PollHandler cfg h ident (doSend_request ch) env sv = Returns (Answer (WriteHeader 200), sv1)" "plain_open ident ref sv1"
      "p_buf (toServer (sess sv1 ref)) = p_buf (toServer (sess sv ref)) @ ch"
    using plain_send [OF assms(1) Cons.prems(1) assms(3)] Cons.prems(2) by auto
  have "doSend (Inr (wire_of (WriteHeader 200))) = None" by (simp add: doSend_def wire_of_def WriteHeader_def)
  then show ?case using Cons.IH [OF sv1(2)] Cons.prems(2) sv1 by auto
qed simp

section \<open>Lemmas on streams\<close>

text \<open>The feeder is the server's download loop with another last frame.\<close>

definition as_turn :: "feed_turn \<Rightarrow> stream_turn" where
  "as_turn t = \<lparr>t_ctxDone = False, t_before = fd_before t, t_wait = fd_wait t, t_late = fd_late t\<rparr>"

lemma feed_as_stream:
  assumes "feedSendStream cap ts p w = Some (e, p', w')" and "w_room w = None"
  shows "e = None \<and> (\<exists>X how w''. how \<in> {SessionGone, RolledOver} \<and> pollStream_loop cap (map as_turn ts) p w = Some (how, p', w'') \<and>
     w_out w'' = X @ concat (map frame_bytes (last_frame how)) \<and> w_out w' = X @ frame_bytes (frameEnd, []))"
  using assms
proof (induction ts arbitrary: p w)
  case (Cons t ts)
  obtain res p1 sch where ra: "ReadAvailable cap (after (fd_before t) p) (fd_wait t) = Some (res, p1, sch)"
    using Cons.prems(1) by (auto split: option.splits)
  have turn: "\<not> t_ctxDone (as_turn t)" "ReadAvailable cap (after (t_before (as_turn t)) p) (t_wait (as_turn t)) = Some (res, p1, sch)"
    using ra by (simp_all add: as_turn_def)
  note step = pollStream_loop_turn(1) [OF turn, of "map as_turn ts" w]
  define w1 where "w1 = w\<lparr>w_out := w_out w @ frame_bytes (turn_frame res)\<rparr>"
  have frame: "(case res of
                  Inr d \<Rightarrow> if d \<noteq> [] then writeFrame w frameData d else writeFrame w frameHeartbeat []
                | Inl _ \<Rightarrow> writeFrame w frameHeartbeat []) = (None, w1)" unfolding w1_def by (rule turn_frame(3) [OF Cons.prems(2)])
  have w1: "w_room w1 = None" using Cons.prems(2) by (simp add: w1_def)
  show ?case
  proof (cases "res = Inl EOF \<or> fd_late t")
    case True
    let ?v = "if res = Inl EOF then w else w1" and ?how = "if res = Inl EOF then SessionGone else RolledOver"
    have run: "feedSendStream cap (t # ts) p w = Some (None, p1, snd (writeFrame ?v frameEnd []))"
      using True ra frame by auto
    have stream: "pollStream_loop cap (map as_turn (t # ts)) p w =
        Some (?how, p1, snd (writeFrame ?v (if res = Inl EOF then frameGone else frameEnd) []))"
      unfolding list.map step frame using True by (auto simp: as_turn_def)
    have "w_room ?v = None" using w1 Cons.prems(2) by simp
    then show ?thesis using Cons.prems(1) run stream
      by (intro conjI exI [of _ "w_out ?v"] exI [of _ ?how]) (simp_all add: writeFrame_unlimited)
  next
    case False
    have "feedSendStream cap (t # ts) p w = feedSendStream cap ts p1 w1" using False ra frame by simp
    moreover have "pollStream_loop cap (map as_turn (t # ts)) p w = pollStream_loop cap (map as_turn ts) p1 w1"
      unfolding list.map step frame using False by (simp add: as_turn_def)
    ultimately show ?thesis using Cons.IH [of p1 w1] Cons.prems(1) w1 by simp
  qed
qed simp

lemma feed_frames:
  assumes "feedSendStream cap ts p w = Some (e, p', w')" and "w_room w = None"
  shows "e = None \<and> (\<exists>fs. w_out w' = w_out w @ concat (map frame_bytes (fs @ [(frameEnd, [])])) \<and> list_all (body_frame cap) fs \<and>
     p_buf p @ stream_in cap (map as_turn ts) p = data_of fs @ p_buf p')"
proof -
  obtain X how w'' where x: "e = None" "pollStream_loop cap (map as_turn ts) p w = Some (how, p', w'')"
      "w_out w'' = X @ concat (map frame_bytes (last_frame how))" "w_out w' = X @ frame_bytes (frameEnd, [])"
    using feed_as_stream [OF assms] by blast
  obtain fs where fs: "w_out w'' = w_out w @ concat (map frame_bytes (fs @ last_frame how))" "list_all (body_frame cap) fs"
      "p_buf p @ stream_in cap (map as_turn ts) p = data_of fs @ p_buf p'"
    using pollStream_loop_frames [OF x(2) assms(2)] by blast
  have "X = w_out w @ concat (map frame_bytes fs)" using x(3) fs(1) by simp
  then show ?thesis using x(1,4) fs(2,3) by (intro conjI exI [of _ fs]) simp_all
qed

text \<open>The client's loop over the frames of a response.\<close>

lemma read_loop_data:
  assumes "r_bytes (fr_r f) = concat (map frame_bytes (xs @ tail))" and "list_all (frame_ok (fr_maxPayload f)) (xs @ tail)"
    and "\<forall>x \<in> set xs. fst x = frameData \<or> fst x = frameHeartbeat" and "r_end (fr_r f) = EOF"
    and "tail = [] \<and> e = report EOF \<or> tail = [(frameEnd, [])] \<and> e = ErrStreamEnd \<or> tail = [(frameGone, [])] \<and> e = ErrSessionGone"
    and "\<not> p_closed (c_readPipe c)" and "\<forall>k c. c_readPipe (others k c) = c_readPipe c"
  shows "\<exists>c'. read_loop others stream_step report k f c = Returns (e, c') \<and> p_buf (c_readPipe c') = p_buf (c_readPipe c) @ data_of xs"
  using assms(1-4,6)
proof (induction xs arbitrary: k f c)
  case Nil
  show ?case
  proof (cases "tail = []")
    case True
    then obtain f' where "frameReader_next f = (Inl EOF, f')" using next_at_end [of f] Nil.prems(1,4) by auto
    then show ?thesis using assms(5,7) True by (subst read_loop.simps) simp
  next
    case False
    then obtain ty where ty: "tail = [(ty, [])]" "ty = frameEnd \<and> e = ErrStreamEnd \<or> ty = frameGone \<and> e = ErrSessionGone"
      using assms(5) by auto
    then obtain f' where "frameReader_next f = (Inr (ty, []), f')"
      using next_frame [of f "(ty, [])" "[]"] Nil.prems(1,2) by auto
    then show ?thesis using assms(7) ty(2) by (subst read_loop.simps) (auto simp: stream_step_def frame_type_defs)
  qed
next
  case (Cons x xs)
  obtain f' where f': "frameReader_next f = (Inr x, f')" "r_bytes (fr_r f') = concat (map frame_bytes (xs @ tail))"
      "r_end (fr_r f') = r_end (fr_r f)" "fr_maxPayload f' = fr_maxPayload f"
    using next_frame [of f x "concat (map frame_bytes (xs @ tail))"] Cons.prems(1,2) by auto
  obtain ty payload where x: "x = (ty, payload)" by (cases x)
  obtain c1 where c1: "stream_step ty payload (others k c) = Some (None, c1)" "\<not> p_closed (c_readPipe c1)"
      "p_buf (c_readPipe c1) = p_buf (c_readPipe c) @ data_of [x]"
  proof (cases "ty = frameData \<and> payload \<noteq> []")
    case True
    obtain n l p where w: "Write (c_readPipe c) payload = (Inr n, l, p)"
      using Cons.prems(5) Write_result [of "c_readPipe c" payload] by (cases "Write (c_readPipe c) payload") auto
    have "p_buf p = p_buf (c_readPipe c) @ payload" "\<not> p_closed p"
      using Write_buf [of "c_readPipe c" payload] Write_frame(1) [of "c_readPipe c" payload] Cons.prems(5) w by simp_all
    then show ?thesis using True w assms(7) x by (intro that [of "(others k c)\<lparr>c_readPipe := p\<rparr>"]) (simp_all add: stream_step_def)
  next
    case False
    then show ?thesis using Cons.prems(3,5) assms(7) x
      by (intro that [of "others k c"]) (auto simp: stream_step_def frame_type_defs)
  qed
  have "\<exists>c'. read_loop others stream_step report (Suc k) f' c1 = Returns (e, c') \<and> p_buf (c_readPipe c') = p_buf (c_readPipe c1) @ data_of xs"
    by (rule Cons.IH) (use c1(2) f' Cons.prems in simp_all)
  moreover have "read_loop others stream_step report k f c = read_loop others stream_step report (Suc k) f' c1"
    using f'(1) c1(1) x by (subst read_loop.simps) simp
  ultimately show ?case using c1(3) by (auto simp: data_of_def)
qed

lemma stream_download:
  assumes "pollStream cap att env s = Returns (Streamed how bs, s')" and "s_rs s = None"
    and "w_room (se_writer env) = None" and "w_out (se_writer env) = []" and "\<forall>x. toClient (se_finish env x) = toClient x"
    and "cap < 2 ^ 32" and "int cap \<le> m"
  obtains fs where "bs = concat (map frame_bytes (fs @ last_frame how))" "list_all (frame_ok m) (fs @ last_frame how)"
    "\<forall>x \<in> set fs. fst x = frameData \<or> fst x = frameHeartbeat"
    "p_buf (toClient (se_started env s)) @ stream_in cap (se_turns env) (toClient (se_started env s)) = data_of fs @ p_buf (toClient s')"
    "how \<in> {CtxDone, SessionGone, RolledOver}" "how = SessionGone \<longrightarrow> p_closed (toClient s') \<and> p_buf (toClient s') = []"
proof -
  obtain p w where run: "pollStream_loop cap (se_turns env) (toClient (se_started env s)) (se_writer env) = Some (how, p, w)"
    and w: "w_out w = bs" and s': "toClient s' = p"
    using assms(1,2,5) by (auto simp: pollStream_def Let_def split: if_splits option.splits prod.splits)
  obtain fs where fs: "w_out w = concat (map frame_bytes (fs @ last_frame how))" "list_all (body_frame cap) fs"
      "p_buf (toClient (se_started env s)) @ stream_in cap (se_turns env) (toClient (se_started env s)) = data_of fs @ p_buf p"
      "how \<in> {CtxDone, SessionGone, RolledOver}" "how = SessionGone \<longrightarrow> p_closed p \<and> p_buf p = []"
    using pollStream_loop_frames [OF run assms(3)] assms(4) by auto
  have "\<forall>x \<in> set fs. fst x = frameData \<or> fst x = frameHeartbeat" using fs(2) by (auto simp: list_all_iff body_frame_def)
  then show thesis using that [of fs] fs w s' body_frames_ok [OF fs(2) assms(6,7)] by simp
qed

section \<open>Lemmas on connecting\<close>

lemma ms_down:
  assumes "Millisecond \<le> d" and "d < 2 ^ 62"
  shows "Milliseconds d > 0" "0 \<le> from_ms (Milliseconds d)" "from_ms (Milliseconds d) \<le> d" "d - Millisecond < from_ms (Milliseconds d)"
proof -
  show "Milliseconds d > 0" using assms(1) by (simp add: Milliseconds_pos pos_imp_zdiv_pos_iff)
  have d: "from_ms (Milliseconds d) = d - d mod Millisecond" using assms by (intro from_ms_Milliseconds) simp_all
  have "d mod Millisecond \<le> d" using assms(1) by (intro zmod_le_nonneg_dividend) simp
  then show "0 \<le> from_ms (Milliseconds d)" using d by simp
  show "from_ms (Milliseconds d) \<le> d" "d - Millisecond < from_ms (Milliseconds d)" using d by simp_all
qed

lemma connect_limits:
  obtains mode where "resp_Limits (connect_response cfg req ident meta) = limits cfg mode (resp_Resumable (connect_response cfg req ident meta))"
    "mode = PollModeStream \<or> resp_Transport (connect_response cfg req ident meta) \<noteq> TransportWebSocket \<and>
       resp_PollMode (connect_response cfg req ident meta) \<noteq> PollModeStream \<and>
       resp_UploadStreamMode (connect_response cfg req ident meta) \<noteq> PollModeStream"
proof -
  define mode where "mode = negotiatePollMode (cfg_PollMode cfg) (cr_PreferStreamMode req)"
  define upload where "upload = negotiatePollMode (cfg_PollMode cfg) (cr_PreferStreamUpload req)"
  show thesis
    by (rule that [of "if upload = PollModeStream \<or> connect_transport cfg req = TransportWebSocket then PollModeStream else mode"])
      (auto simp: connect_response_def Let_def mode_def [symmetric] upload_def [symmetric] PollModeStream_def)
qed

text \<open>Timings that leave the client room: each at least a millisecond, the poll interval within the session timeout and the grace.\<close>

definition timely :: "ServerConfig \<Rightarrow> Connector \<Rightarrow> bool" where
  "timely cfg k \<longleftrightarrow>
     (\<forall>d \<in> {cfg_PollTimeout cfg, cfg_SessionTimeout cfg, cfg_HeartbeatInterval cfg, cfg_StreamMaxDuration cfg, cfg_ResumeGrace cfg}.
        Millisecond \<le> d \<and> d < 2 ^ 62) \<and> 0 \<le> k_PollInterval k \<and>
     cfg_PollTimeout cfg + k_PollInterval k + Millisecond \<le> cfg_SessionTimeout cfg \<and> k_PollInterval k + Millisecond \<le> cfg_ResumeGrace cfg"

lemma connect_accepted:
  assumes "timely cfg k" and "0 < cfg_MaxSendBytes cfg" and "cr = connect_response cfg req ident meta"
  shows "connect_plan k cr = Inr (if resp_Resumable cr then PlanResumable else if resp_Transport cr = TransportWebSocket then PlanWebSocket else PlanHTTP)"
proof -
  obtain mode where lim: "resp_Limits cr = limits cfg mode (resp_Resumable cr)"
      "mode = PollModeStream \<or> resp_Transport cr \<noteq> TransportWebSocket \<and> resp_PollMode cr \<noteq> PollModeStream \<and> resp_UploadStreamMode cr \<noteq> PollModeStream"
    unfolding assms(3) by (rule connect_limits)
  have ms: "Milliseconds d > 0" "0 \<le> from_ms (Milliseconds d)" "from_ms (Milliseconds d) \<le> d" "d - Millisecond < from_ms (Milliseconds d)"
    if "d \<in> {cfg_PollTimeout cfg, cfg_SessionTimeout cfg, cfg_HeartbeatInterval cfg, cfg_StreamMaxDuration cfg, cfg_ResumeGrace cfg}" for d
    using that assms(1) ms_down [of d] by (auto simp: timely_def)
  have gap: "0 \<le> k_PollInterval k" "cfg_PollTimeout cfg + k_PollInterval k + Millisecond \<le> cfg_SessionTimeout cfg"
      "k_PollInterval k + Millisecond \<le> cfg_ResumeGrace cfg" "cfg_SessionTimeout cfg < 2 ^ 62"
    using assms(1) by (simp_all add: timely_def)
  let ?l = "resp_Limits cr"
  have grace: "resp_Resumable cr \<Longrightarrow> ResumeGraceMS ?l > 0 \<and> k_PollInterval k < ResumeGrace ?l"
    using ms(1,4) [of "cfg_ResumeGrace cfg"] gap(3) by (auto simp: lim(1) ResumeGrace_def)
  have beat: "mode = PollModeStream \<Longrightarrow> HeartbeatIntervalMS ?l > 0 \<and> StreamMaxDurationMS ?l > 0" using ms(1) by (simp add: lim(1))
  have poll: "wrap64 (PollTimeout ?l + k_PollInterval k) < SessionTimeout ?l"
  proof -
    have t: "0 \<le> PollTimeout ?l" "PollTimeout ?l \<le> cfg_PollTimeout cfg" "cfg_SessionTimeout cfg - Millisecond < SessionTimeout ?l"
      using ms(2,3) [of "cfg_PollTimeout cfg"] ms(4) [of "cfg_SessionTimeout cfg"] by (simp_all add: lim(1) PollTimeout_def SessionTimeout_def)
    then have "wrap64 (PollTimeout ?l + k_PollInterval k) = PollTimeout ?l + k_PollInterval k"
      using gap by (intro wrap64_id) simp_all
    then show ?thesis using t gap(2) by simp
  qed
  have "Validate ?l = None" using assms(2) ms(1) [of "cfg_PollTimeout cfg"] ms(1) [of "cfg_SessionTimeout cfg"] by (simp add: lim(1) Validate_def)
  moreover have "resp_Resumable cr \<Longrightarrow> resp_Transport cr \<noteq> TransportWebSocket \<Longrightarrow> \<not> resp_BatchResume cr \<Longrightarrow>
      resp_PollMode cr = PollModeStream \<and> resp_UploadStreamMode cr = PollModeStream"
    by (auto simp: assms(3) connect_response_def Let_def negotiateResume_def split: if_splits)
  moreover have "PollModeBatch \<noteq> PollModeStream" by (simp add: PollModeBatch_def PollModeStream_def)
  ultimately show ?thesis using grace beat poll lim(2)
    by (auto simp: connect_plan_def Let_def not_le negotiated_mode_def negotiated_upload_def)
qed

lemma doConnect_accepts: "ident \<noteq> [] \<Longrightarrow> doConnect (Inr (200, Decoded (connect_response cfg req ident meta))) = Inr (connect_response cfg req ident meta)"
  by (simp add: doConnect_def connect_response_def Let_def)

text \<open>A client that does not ask for streamed uploads is not offered them, so a second negotiation settles.\<close>

lemma forced_batch: "\<not> negotiated_upload (connect_response cfg (connect_request k pr True) ident meta)"
  by (simp add: negotiated_upload_def connect_response_def connect_request_def Let_def negotiatePollMode_def PollModeBatch_def PollModeStream_def)

section \<open>Properties\<close>

text \<open>
  C20: Uploads in requests arrive. Let the server answer every request of a flush loop, and let
  the application write while they are in flight. The loop ends, with the buffer empty, once it
  has had as many requests as there were bytes; and whenever it ends, the requests it made are
  ones the server of this connection accepts, none is empty or beyond the negotiated limit, and
  posted one after the other they leave in the session exactly the bytes that were written, in order.
\<close>

theorem plain_upload_arrives:
  assumes "check cfg = None" and "plain_open ident ref sv" and "quiet h env" and "MaxSendBytes l = cfg_MaxSendBytes (withDefaults cfg)"
    and "c_maxSendChunk c = nat (min (orInt mx DefaultMaxSendChunk) (MaxSendBytes l))"
    and "\<forall>t \<in> set ts. doSend (ft_answer t) = None \<and> writes (w t) (ft_others t)" and "writes w0 meanwhile"
  shows "(length (c_writeBuf c @ w0 @ concat (map w ts)) \<le> length ts \<longrightarrow> flushLoop True meanwhile ts c \<noteq> None) \<and>
    (\<forall>chunks c'. flushLoop True meanwhile ts c = Some (chunks, c') \<longrightarrow>
       c_writeBuf c' = [] \<and> \<not> c_writeFlightOn c' \<and> (\<forall>ch \<in> set chunks. ch \<noteq> [] \<and> int (length ch) \<le> MaxSendBytes l) \<and>
       (\<exists>sv'. post_all cfg h ident env chunks sv = Some sv' \<and>
          p_buf (toServer (sess sv' ref)) = p_buf (toServer (sess sv ref)) @ c_writeBuf c @ w0 @ concat (map w (take (length chunks) ts))))"
proof -
  have l: "0 < MaxSendBytes l" using assms(4) by (simp add: withDefaults_def DefaultMaxSendBytes_def)
  then have max: "0 < c_maxSendChunk c" "int (c_maxSendChunk c) \<le> MaxSendBytes l"
    using assms(5) by (simp_all add: orInt_def DefaultMaxSendChunk_def)
  let ?c = "c\<lparr>c_writeBuf := c_writeBuf c @ w0\<rparr>"
  have run: "flushLoop True meanwhile ts c = flush_run ts [] [] ?c" using assms(7) by (simp add: flushLoop_def writes_def)
  have max': "0 < c_maxSendChunk ?c" using max(1) by simp
  have sent: "c_writeBuf c' = [] \<and> \<not> c_writeFlightOn c' \<and> (\<forall>ch \<in> set chunks. ch \<noteq> [] \<and> int (length ch) \<le> MaxSendBytes l) \<and>
       (\<exists>sv'. post_all cfg h ident env chunks sv = Some sv' \<and>
          p_buf (toServer (sess sv' ref)) = p_buf (toServer (sess sv ref)) @ c_writeBuf c @ w0 @ concat (map w (take (length chunks) ts)))"
    if r: "flush_run ts [] [] ?c = Some (chunks, c')" for chunks c'
  proof -
    have f: "concat chunks = (c_writeBuf c @ w0) @ concat (map w (take (length chunks) ts))"
        "\<forall>ch \<in> set chunks. ch \<noteq> [] \<and> length ch \<le> c_maxSendChunk c" "c_writeBuf c' = []" "\<not> c_writeFlightOn c'"
      using flush_run_sends [OF assms(6) max' r] by auto
    have ok: "\<forall>ch \<in> set chunks. int (length ch) \<le> MaxSendBytes l" using f(2) max(2) by (meson of_nat_mono order_trans)
    obtain sv' where "post_all cfg h ident env chunks sv = Some sv'"
        "p_buf (toServer (sess sv' ref)) = p_buf (toServer (sess sv ref)) @ concat chunks"
      using post_all_arrives [OF assms(1-3)] ok assms(4) by auto
    then show ?thesis using f ok by auto
  qed
  show ?thesis unfolding run using sent flush_run_returns [OF assms(6) max', of "[]" "[]"] by auto
qed

text \<open>
  Downloads in requests arrive. The client that makes the long poll and the handler that
  serves it agree: what the client's pipe gains is exactly what the session's pipe lost, in order;
  a quiet poll adds nothing and is no failure; and the client learns that the session is
  gone exactly when the session is closed and everything in it has been handed over.
\<close>

lemma plain_download_arrives:
  assumes "store_inv sv" and "check cfg = None" and "Get ident sv = Some ref" and "s_rs (sess sv ref) = None" and "\<not> s_closed (sess sv ref)"
    and "quiet h env" and "s_pollMode (sess sv ref) \<noteq> PollModeStream"
    and "PollHandler cfg h ident doPoll_request env sv = Returns (Answer resp, sv')"
    and "cap = nat (cfg_PollBufferSize (withDefaults cfg))" and "\<not> p_closed (c_readPipe c)"
    and "doPoll cap (Inr (wire_of resp)) c = (res, c')"
  shows "\<exists>sch' got. p_buf (toClient (sess sv ref)) @ written_by (p_closed (toClient (sess sv ref))) (slept (pe_wait env) sch') =
       got @ p_buf (toClient (sess sv' ref)) \<and> p_buf (c_readPipe c') = p_buf (c_readPipe c) @ got \<and>
     (res = Inr (got \<noteq> []) \<or>
      got = [] \<and> res = Inl (ErrStatus 410) \<and> p_closed (toClient (sess sv' ref)) \<and> p_buf (toClient (sess sv' ref)) = [])"
proof -
  have q: "h_OnPoll h = None" "pe_body env = id" "pe_others env = id" "pe_end env = id" using assms(6) by (simp_all add: quiet_def)
  have hd: "\<not> header_true (rq_header doPoll_request) HeaderSendStream" "\<not> header_true (rq_header doPoll_request) HeaderSendOnly"
    by (simp_all add: doPoll_request_def header_true_def header_Get_def header_Set_def no_header_def header_names)
  have body: "read_all_max (cfg_MaxSendBytes (withDefaults cfg)) (rq_body doPoll_request) = Inr []"
    by (simp add: read_all_max_def doPoll_request_def r_bytes_def withDefaults_def DefaultMaxSendBytes_def)
  obtain sch' got where got: "p_buf (toClient (sess sv ref)) @ written_by (p_closed (toClient (sess sv ref))) (slept (pe_wait env) sch') =
        got @ p_buf (toClient (sess sv' ref))"
      "if got \<noteq> [] then rp_status resp = 200 \<and> rp_body resp = Raw got \<and> length got \<le> cap
       else resp = writeError 410 \<and> p_closed (toClient (sess sv' ref)) \<and> p_buf (toClient (sess sv' ref)) = [] \<or> resp = WriteHeader 204"
    using plain_poll_facts [OF assms(1-5) q hd(1) assms(7,8)] hd(2) body assms(9) by auto
  have "p_buf (c_readPipe c') = p_buf (c_readPipe c) @ got \<and>
     (res = Inr (got \<noteq> []) \<or>
      got = [] \<and> res = Inl (ErrStatus 410) \<and> p_closed (toClient (sess sv' ref)) \<and> p_buf (toClient (sess sv' ref)) = [])"
  proof (cases "got = []")
    case True
    then show ?thesis using got(2) assms(11) by (auto simp: doPoll_def wire_of_def writeError_def writeJSON_def WriteHeader_def)
  next
    case False
    then have "read_all_limit cap (wr_body (wire_of resp)) = Inr got"
      using got(2) by (auto simp: read_all_limit_def wire_of_def r_bytes_def)
    then have "doPoll cap (Inr (wire_of resp)) c = (Inr True, c\<lparr>c_readPipe := snd (snd (Write (c_readPipe c) got))\<rparr>)"
      using False got(2) assms(10) Write_result [of "c_readPipe c" got]
      by (cases "Write (c_readPipe c) got") (auto simp: doPoll_def wire_of_def)
    then show ?thesis using False assms(10,11) Write_buf [of "c_readPipe c" got] by auto
  qed
  then show ?thesis using got(1) by blast
qed

text \<open>
  C21: A streamed download arrives. The client's loop over a complete response puts into its pipe
  exactly the bytes the handler took out of the session's pipe, in order. It reports a clean end,
  after which the client opens the next stream, or the end of the session, and the latter only
  when the session's pipe is closed and drained.
\<close>

theorem stream_download_arrives:
  assumes "pollStream cap att env s = Returns (Streamed how bs, s')" and "s_rs s = None"
    and "w_room (se_writer env) = None" and "w_out (se_writer env) = []" and "\<forall>x. toClient (se_finish env x) = toClient x"
    and "cap < 2 ^ 32" and "int cap \<le> c_streamMaxFrame c" and "\<not> p_closed (c_readPipe c)" and "\<forall>k c. c_readPipe (others k c) = c_readPipe c"
    and "wr_status resp = 200" and "r_bytes (wr_body resp) = bs" and "r_end (wr_body resp) = EOF"
  shows "\<exists>e c' got. doStreamPoll others watchdog (Inr resp) c = Returns (e, c') \<and>
     p_buf (toClient (se_started env s)) @ stream_in cap (se_turns env) (toClient (se_started env s)) = got @ p_buf (toClient s') \<and>
     p_buf (c_readPipe c') = p_buf (c_readPipe c) @ got \<and>
     e = (if how = SessionGone then ErrSessionGone else ErrStreamEnd) \<and>
     (how = SessionGone \<longrightarrow> p_closed (toClient s') \<and> p_buf (toClient s') = [])"
proof -
  obtain fs where fs: "bs = concat (map frame_bytes (fs @ last_frame how))" "list_all (frame_ok (c_streamMaxFrame c)) (fs @ last_frame how)"
    "\<forall>x \<in> set fs. fst x = frameData \<or> fst x = frameHeartbeat"
    "p_buf (toClient (se_started env s)) @ stream_in cap (se_turns env) (toClient (se_started env s)) = data_of fs @ p_buf (toClient s')"
    "how \<in> {CtxDone, SessionGone, RolledOver}" "how = SessionGone \<longrightarrow> p_closed (toClient s') \<and> p_buf (toClient s') = []"
    using stream_download [OF assms(1-7)] by blast
  let ?e = "if how = SessionGone then ErrSessionGone else ErrStreamEnd"
  have tail: "last_frame how = [] \<and> ?e = stream_error watchdog EOF \<or> last_frame how = [(frameEnd, [])] \<and> ?e = ErrStreamEnd \<or>
      last_frame how = [(frameGone, [])] \<and> ?e = ErrSessionGone"
    using fs(5) by (auto simp: stream_error_def)
  let ?f = "newFrameReader (wr_body resp) (c_streamMaxFrame c)"
  have "\<exists>c'. read_loop others stream_step (stream_error watchdog) 0 ?f c = Returns (?e, c') \<and>
      p_buf (c_readPipe c') = p_buf (c_readPipe c) @ data_of fs"
  proof (rule read_loop_data [where tail = "last_frame how"])
    show "last_frame how = [] \<and> ?e = stream_error watchdog EOF \<or> last_frame how = [(frameEnd, [])] \<and> ?e = ErrStreamEnd \<or>
      last_frame how = [(frameGone, [])] \<and> ?e = ErrSessionGone" by (rule tail)
  qed (use fs(1-3) assms(8,9,11,12) in \<open>simp_all add: newFrameReader_def\<close>)
  then show ?thesis using fs(4,6) assms(10) by (auto simp: doStreamPoll_def)
qed

text \<open>
  A streamed upload arrives if the client's frames fit the server's limit. What one leg of
  the feeder took out of the client's pipe is exactly what the handler adds to the session, in
  order; the handler answers 200 and the client's loop goes on to the next leg without an error.
\<close>

lemma stream_upload_arrives:
  assumes "feedSendStream cap ts p w = Some (e, p', w')" and "w_room w = None" and "w_out w = []" and "cap < 2 ^ 32"
    and "int cap \<le> cfg_MaxSendBytes cfg" and "s_rs s = None" and "\<not> p_closed (toServer s)" and "\<forall>k s. toServer (sn_others env k s) = toServer s"
    and "r_bytes body = w_out w'" and "wr_status resp = 200"
  shows "\<exists>s' sent. pollSendStream cfg (doSendStream_request body) att env s = Returns (Some 200, s') \<and>
     p_buf p @ stream_in cap (map as_turn ts) p = sent @ p_buf p' \<and> p_buf (toServer s') = p_buf (toServer s) @ sent \<and>
     doSendStream e (Inr resp) = None"
proof -
  obtain fs where fs: "e = None" "w_out w' = concat (map frame_bytes (fs @ [(frameEnd, [])]))" "list_all (body_frame cap) fs"
      "p_buf p @ stream_in cap (map as_turn ts) p = data_of fs @ p_buf p'"
    using feed_frames [OF assms(1,2)] assms(3) by auto
  have kinds: "\<forall>x \<in> set fs. fst x = frameData \<or> fst x = frameHeartbeat" using fs(3) by (auto simp: list_all_iff body_frame_def)
  have ok: "list_all (frame_ok (cfg_MaxSendBytes cfg)) (fs @ [(frameEnd, [])])"
    using body_frames_ok [OF fs(3) assms(4,5), of RolledOver] by simp
  have body: "r_bytes (rq_body (doSendStream_request body)) = concat (map frame_bytes (fs @ [(frameEnd, [])]))"
    "\<not> header_true (rq_header (doSendStream_request body)) HeaderSendStreamProbe"
    using assms(9) fs(2) by (simp_all add: doSendStream_request_def header_true_def header_Get_def header_Set_def no_header_def header_names)
  have "\<exists>s'. pollSendStream cfg (doSendStream_request body) att env s = Returns (Some 200, s') \<and> p_buf (toServer s') = p_buf (toServer s) @ data_of fs"
    by (rule upload_plain_exact [OF assms(6-8) body(1) ok kinds _ body(2)]) simp
  then show ?thesis using fs(1,4) assms(10) by (auto simp: doSendStream_def)
qed

text \<open>
  A frame of a size the client may send but the server does not accept: nothing of it arrives, the
  handler gives up without an answer, and the bytes are no longer in the client's pipe.
\<close>

lemma oversized_frame_lost:
  assumes "cfg_MaxSendBytes cfg < int (length d)" and "0 \<le> cfg_MaxSendBytes cfg" and "length d < 2 ^ 32" and "s_rs s = None"
    and "\<forall>k. sn_others env k = id" and "r_bytes body = frame_bytes (frameData, d) @ rest"
  shows "pollSendStream cfg (doSendStream_request body) att env s = Returns (None, s)"
proof -
  let ?f = "newFrameReader body (cfg_MaxSendBytes cfg)"
  let ?len = "word_of_nat (length d) :: u32"
  have "length (snd (frameData, d)) < 2 ^ 32" using assms(3) by simp
  note hdr = frame_header [OF this]
  have bytes: "r_bytes (fr_r ?f) = frame_bytes (frameData, d) @ rest" using assms(6) by (simp add: newFrameReader_def)
  have "frameHeaderLen \<le> length (r_bytes (fr_r ?f))" unfolding bytes by (simp add: length_frame_bytes)
  then obtain r where "ReadFull (fr_r ?f) frameHeaderLen = (Inr (frameData # PutUint32 ?len), r)"
    using ReadFull_enough [of frameHeaderLen "fr_r ?f"] by (metis bytes hdr(1) fst_conv snd_conv)
  note next_after_header [OF this]
  moreover have "unat ?len \<noteq> 0" using assms(1,2) hdr(4) by auto
  then have "?len \<noteq> 0" by auto
  moreover have "unat ?len = length d" using hdr(4) by simp
  ultimately have "\<exists>f'. frameReader_next ?f = (Inl ErrFrameTooLong, f')"
    using assms(1) by (simp add: newFrameReader_def payload_bound_def frame_type_defs)
  then show ?thesis using assms(4,5) by (auto simp: pollSendStream_def doSendStream_request_def Let_def send_loop.simps [of _ _ _ _ ?f])
qed

text \<open>
  C22: The client accepts what the server of a sound configuration offers, and the two ends agree.
  If the timings leave the client room, it accepts the answer to its own connect request and
  builds the kind of connection the registered session expects, with the modes of that session;
  its upload requests are within what the server accepts, its frame limit is the server's frame
  size, and a resumable session polled in batches waits out at least the client's poll interval.
\<close>

theorem connect_agrees:
  assumes "cfg = withDefaults cfg0" and "req = connect_request k pr fb" and "ident \<noteq> []"
    and "cr = connect_response cfg req ident meta" and "s = connect_session cfg req ident meta now" and "timely cfg k"
  shows "doConnect (Inr (200, Decoded cr)) = Inr cr \<and>
     connect_plan k cr = Inr (if Resumable s then PlanResumable else if s_transport s = TransportWebSocket then PlanWebSocket else PlanHTTP) \<and>
     negotiated_mode cr = s_pollMode s \<and> (negotiated_upload cr \<longleftrightarrow> s_uploadStream s) \<and>
     (case connect_http k cr upload of (c, k') \<Rightarrow>
        isActiveSession (s_ID s) k' \<and> g_sessionID (c_guard c) = s_ID s \<and>
        0 < c_maxSendChunk c \<and> int (c_maxSendChunk c) \<le> cfg_MaxSendBytes cfg \<and> c_streamMaxFrame c = cfg_PollBufferSize cfg) \<and>
     (Resumable s \<and> s_transport s = [] \<and> \<not> s_uploadStream s \<and> s_pollMode s = PollModeBatch \<longrightarrow>
        s_pollGap s = k_PollInterval k - k_PollInterval k mod Millisecond + batchPollGapAllowance)"
proof -
  have d: "described s cr" unfolding assms(4,5) by (rule connect_session_described)
  have pos: "0 < cfg_MaxSendBytes cfg" "0 < cfg_PollBufferSize cfg" unfolding assms(1) by (rule withDefaults_positive)+
  have cr: "resp_PollMode cr \<in> {PollModeStream, PollModeBatch}" "MaxSendBytes (resp_Limits cr) = cfg_MaxSendBytes cfg"
      "PollBufferBytes (resp_Limits cr) = cfg_PollBufferSize cfg"
    by (simp_all add: assms(4) connect_response_def Let_def negotiatePollMode_def)
  have doc: "doConnect (Inr (200, Decoded cr)) = Inr cr" unfolding assms(4) by (rule doConnect_accepts [OF assms(3)])
  have modes: "negotiated_mode cr = s_pollMode s" "negotiated_upload cr \<longleftrightarrow> s_uploadStream s"
    using d cr(1) by (auto simp: described_def negotiated_mode_def negotiated_upload_def)
  have plan: "connect_plan k cr = Inr (if Resumable s then PlanResumable else if s_transport s = TransportWebSocket then PlanWebSocket else PlanHTTP)"
    using connect_accepted [OF assms(6) pos(1) assms(4)] d by (simp add: described_def)
  have conn: "case connect_http k cr upload of (c, k') \<Rightarrow>
        isActiveSession (s_ID s) k' \<and> g_sessionID (c_guard c) = s_ID s \<and>
        0 < c_maxSendChunk c \<and> int (c_maxSendChunk c) \<le> cfg_MaxSendBytes cfg \<and> c_streamMaxFrame c = cfg_PollBufferSize cfg"
    using d cr pos by (auto simp: connect_http_def newHttpConn_def newSessionGuard_def described_def orInt_def DefaultMaxSendChunk_def
        isActiveSession_def adoptSession_def)
  have gap: "s_pollGap s = k_PollInterval k - k_PollInterval k mod Millisecond + batchPollGapAllowance"
    if r: "Resumable s \<and> s_transport s = [] \<and> \<not> s_uploadStream s \<and> s_pollMode s = PollModeBatch"
  proof -
    have k: "0 \<le> k_PollInterval k" "k_PollInterval k + Millisecond \<le> cfg_ResumeGrace cfg" "cfg_ResumeGrace cfg < 2 ^ 62"
      using assms(6) by (simp_all add: timely_def)
    have "s_pollGap s = poll_gap cfg req"
      using r unfolding assms(5) connect_session_resume connect_session_fields
      by (auto simp: connect_response_def connect_session_def Let_def watchHighWater_def newSession_def enableResume_def PollModeBatch_def PollModeStream_def)
    moreover have "Milliseconds (k_PollInterval k) \<le> Milliseconds (cfg_ResumeGrace cfg)" "0 \<le> Milliseconds (k_PollInterval k)"
      using k by (simp_all add: Milliseconds_pos zdiv_mono1 pos_imp_zdiv_nonneg_iff)
    moreover have "from_ms (Milliseconds (k_PollInterval k)) = k_PollInterval k - k_PollInterval k mod Millisecond"
      using k by (intro from_ms_Milliseconds) auto
    ultimately show ?thesis by (simp add: poll_gap_def assms(2) connect_request_def)
  qed
  show ?thesis using doc plan modes conn gap by simp
qed


text \<open>
  The upload probe is harmless and tells the truth: if the server's limit admits the filler frames,
  the probe is answered with 200, which the client takes as passed, and whatever kind of session
  it is sent to, nothing of it enters the session.
\<close>

lemma probe_loop:
  assumes "r_bytes (fr_r f) = concat (map frame_bytes (xs @ [(frameEnd, [])]))" and "list_all (frame_ok (fr_maxPayload f)) (xs @ [(frameEnd, [])])"
    and "\<forall>x \<in> set xs. fst x = frameData" and "\<forall>k. others k = id"
  shows "send_loop True False others k f s = Returns (Some 200, s)"
  using assms(1-3)
proof (induction xs arbitrary: k f)
  case Nil
  then obtain f' where "frameReader_next f = (Inr (frameEnd, []), f')" using next_frame [of f "(frameEnd, [])" "[]"] by auto
  then show ?case using assms(4) by (subst send_loop.simps) (simp add: send_frame_def frame_type_defs)
next
  case (Cons x xs)
  obtain f' where f': "frameReader_next f = (Inr x, f')" "r_bytes (fr_r f') = concat (map frame_bytes (xs @ [(frameEnd, [])]))"
      "fr_maxPayload f' = fr_maxPayload f"
    using next_frame [of f x "concat (map frame_bytes (xs @ [(frameEnd, [])]))"] Cons.prems(1,2) by auto
  have "send_loop True False others (Suc k) f' s = Returns (Some 200, s)" by (rule Cons.IH) (use f' Cons.prems in simp_all)
  then show ?case using f'(1) assms(4) Cons.prems(3) by (subst send_loop.simps) (cases x, simp add: send_frame_def)
qed

lemma probe_harmless:
  assumes "r_bytes body = concat (map frame_bytes probe_frames)" and "32768 \<le> cfg_MaxSendBytes cfg" and "\<forall>k. sn_others env k = id"
  shows "pollSendStream cfg (probe_request body) att env s = Returns (Some 200, s)"
proof -
  obtain xs where xs: "probe_frames = xs @ [(frameEnd, [])]" "\<forall>x \<in> set xs. fst x = frameData \<and> length (snd x) \<le> 32768"
    by (auto simp: probe_frames_def)
  have ok: "list_all (frame_ok (cfg_MaxSendBytes cfg)) (xs @ [(frameEnd, [])])"
    using xs(2) assms(2) by (auto simp: list_all_iff frame_ok_def payload_bound_def frame_type_defs)
  have hd: "header_true (rq_header (probe_request body)) HeaderSendStreamProbe"
    by (simp add: probe_request_def header_true_def header_Get_def header_Set_def header_names)
  have "send_loop True False (sn_others env) 0 (newFrameReader body (cfg_MaxSendBytes cfg)) s = Returns (Some 200, s)"
    by (rule probe_loop [where xs = xs]) (use ok assms(1,3) xs in \<open>simp_all add: newFrameReader_def\<close>)
  then show ?thesis using hd by (simp add: pollSendStream_def Let_def) (simp add: probe_request_def)
qed

text \<open>
  After a failed request the rest of the buffer is dropped, but \<open>Write\<close> still accepts bytes and
  starts another flush: until \<open>Close\<close> is called the server can get bytes with a hole before them.
\<close>

lemma write_after_failure:
  assumes "c_writeBuf c = a @ b" and "length a = c_maxSendChunk c" and "a \<noteq> []" and "doSend (ft_answer t) = Some e" and "ft_others t = id"
    and "\<not> ctx_done c" and "\<not> c_closed c" and "isActiveSession (g_sessionID (c_guard c)) (ft_connector t)" and "\<not> c_uploadStreamMode c"
    and "p \<noteq> []" and "length p \<le> c_maxSendChunk c" and "doSend (ft_answer t2) = None" and "ft_others t2 = id"
  shows "\<exists>c1 c2 c3. flush_run [t] [] [] c = Some ([a], c1) \<and> c_failed c1 \<and>
     conn_Write p c1 = Some (Inr (length p), True, c2) \<and> flush_run [t2] [] [] c2 = Some ([p], c3)"
proof -
  define c0 where "c0 = fail (c\<lparr>c_writeBuf := []\<rparr>)"
  have c0: "c_failed c0" "c_writeBuf c0 = []" "\<not> c_closed c0" "\<not> c_uploadStreamMode c0" "c_maxSendChunk c0 = c_maxSendChunk c"
    using assms(7,9) by (simp_all add: c0_def fail_def)
  have "onTransportProblem (ft_connector t) e (c\<lparr>c_writeBuf := []\<rparr>) = c0"
    using assms(8) by (simp add: c0_def onTransportProblem_def onSessionClosed_def supersede_or_fail_def supersededByNewerConnect_def)
  then have "flush_run [t] [] [] c = Some ([a], clearFlight c0)"
    using assms(1-7) by (simp add: flush_run.simps [of "[t]"])
  moreover have "conn_Write p (clearFlight c0) = Some (Inr (length p), True, c0\<lparr>c_writeBuf := p, c_writeFlightOn := True\<rparr>)"
    using c0 assms(10) by (simp add: conn_Write_def clearFlight_def)
  moreover have "\<exists>c3. flush_run [t2] [] [] (c0\<lparr>c_writeBuf := p, c_writeFlightOn := True\<rparr>) = Some ([p], c3)"
    using c0(5) assms(10-13) by (simp add: flush_run.simps [of "[t2]"] flush_run_idle)
  moreover have "c_failed (clearFlight c0)" using c0(1) by (simp add: clearFlight_def)
  ultimately show ?thesis by blast
qed

section \<open>Witnesses\<close>

definition sample_connector :: Connector where
  "sample_connector =
     \<lparr>k_BaseURL = ''http://x/'', k_PathPrefix = '''', k_Meta = Map.empty, k_PollInterval = 5 * Second, k_PollGrace = 0, k_SendTimeout = 0,
      k_DialTimeout = 0, k_CoalesceWindow = 0, k_MaxSendChunk = 2, k_PreferStream = False, k_UploadStreamPreference = '''',
      k_UploadProbeTimeout = 0, k_PreferWebSocket = False, k_PreferResume = True, k_MaxReplayBytes = 0, k_activeSessionID = ''p''\<rparr>"

abbreviation (input) sample_req :: ConnectRequest where
  "sample_req \<equiv> connect_request sample_connector True True"

lemma base_url_example: "base_url sample_connector = ''http://x/tunnel''"
  by (simp add: base_url_def sample_connector_def TrimRight_def pathPrefix_def)

lemma sample_timely: "timely (withDefaults sample_config) sample_connector"
  by (simp add: timely_def sample_connector_def withDefaults_def sample_config_def duration_constants)

theorem connect_agrees_witness:
  "let cfg = withDefaults sample_config; cr = connect_response cfg sample_req ''p'' Map.empty; s = connect_session cfg sample_req ''p'' Map.empty 0
   in connect_plan sample_connector cr = Inr PlanResumable \<and> s_pollMode s = PollModeBatch \<and> s_pollGap s = 15 * Second"
proof -
  let ?cfg = "withDefaults sample_config"
  let ?s = "connect_session ?cfg sample_req ''p'' Map.empty 0"
  have s: "Resumable ?s" "s_transport ?s = []" "\<not> s_uploadStream ?s" "s_pollMode ?s = PollModeBatch"
    unfolding connect_session_resume connect_session_fields
    by (simp_all add: connect_response_def connect_request_def Let_def negotiateResume_def negotiatePollMode_def connect_transport_def
        withDefaults_def sample_config_def sample_connector_def PollModeBatch_def PollModeStream_def)
  have "k_PollInterval sample_connector - k_PollInterval sample_connector mod Millisecond + batchPollGapAllowance = 15 * Second"
    by (simp add: sample_connector_def batchPollGapAllowance_def)
  moreover have "''p'' \<noteq> []" by simp
  note connect_agrees [OF refl refl this refl refl sample_timely, where pr = True and fb = True and meta = Map.empty and now = 0]
  ultimately show ?thesis using s by (simp add: Let_def)
qed


definition sample_http :: httpConn where
  "sample_http = newHttpConn sample_connector (connect_response (withDefaults sample_config) sample_req ''p'' Map.empty) False"

lemma sample_http_simps:
  "c_maxSendChunk sample_http = 2" "c_writeBuf sample_http = []" "c_readPipe sample_http = NewBufferedPipe" "c_streamMaxFrame sample_http = 262144"
  by (simp_all add: sample_http_def newHttpConn_def sample_connector_def connect_response_def Let_def orInt_def withDefaults_def
      sample_config_def DefaultMaxSendBytes_def DefaultPollBufferSize_def)

text \<open>Three bytes written before the window ends and two more during the first request: three requests of at most two bytes.\<close>

definition sample_write :: "bytes \<Rightarrow> httpConn \<Rightarrow> httpConn" where
  "sample_write w c = c\<lparr>c_writeBuf := c_writeBuf c @ w\<rparr>"

definition sample_flush :: "bytes \<Rightarrow> flush_turn" where
  "sample_flush w = \<lparr>ft_others = sample_write w, ft_answer = Inr \<lparr>wr_status = 200, wr_header = no_header, wr_body = \<lparr>r_chunks = [], r_end = EOF\<rparr>\<rparr>,
     ft_connector = sample_connector\<rparr>"

theorem plain_upload_arrives_witness:
  "\<exists>c' sv'. flushLoop True (sample_write [1, 2, 3]) [sample_flush [4, 5], sample_flush [], sample_flush []] sample_http = Some ([[1, 2], [3], [4, 5]], c') \<and>
     post_all sample_config no_hooks ''p'' sample_poll [[1, 2], [3], [4, 5]] plain_server = Some sv' \<and>
     p_buf (toServer (sess sv' 0)) = [1, 2, 3, 4, 5]"
proof -
  let ?ts = "[sample_flush [4, 5], sample_flush [], sample_flush []]" and ?w = "\<lambda>t. c_writeBuf (ft_others t sample_http)"
  let ?l = "limits (withDefaults sample_config) PollModeBatch True"
  have pl: "plain_open ''p'' 0 plain_server" "p_buf (toServer (sess plain_server 0)) = []" "quiet no_hooks sample_poll"
    by (simp_all add: plain_open_def plain_server_def store_inv_def newSession_def Get_def NewBufferedPipe_def quiet_def no_hooks_def sample_poll_def)
  have turns: "\<forall>t \<in> set ?ts. doSend (ft_answer t) = None \<and> writes (?w t) (ft_others t)" "writes [1, 2, 3] (sample_write [1, 2, 3])"
    by (simp_all add: sample_flush_def sample_write_def doSend_def writes_def sample_http_simps)
  have max: "c_maxSendChunk sample_http = nat (min (orInt 2 DefaultMaxSendChunk) (MaxSendBytes ?l))"
    by (simp add: sample_http_simps orInt_def withDefaults_def sample_config_def DefaultMaxSendBytes_def)
  have run: "\<exists>c'. flushLoop True (sample_write [1, 2, 3]) ?ts sample_http = Some ([[1, 2], [3], [4, 5]], c')"
    by (simp add: flushLoop_def flush_run.simps sample_flush_def sample_write_def doSend_def sample_http_simps)
  from plain_upload_arrives [OF sample_config_checks pl(1,3) _ max turns] run pl(2) show ?thesis
    by (auto simp: sample_flush_def sample_write_def sample_http_simps)
qed

lemma plain_download_arrives_witness:
  "\<exists>resp sv' c'. PollHandler sample_config no_hooks ''p'' doPoll_request sample_poll plain_server = Returns (Answer resp, sv') \<and>
     doPoll 262144 (Inr (wire_of resp)) sample_http = (Inr True, c') \<and> p_buf (c_readPipe c') = [5, 6]"
proof -
  have ra: "ReadAvailable 262144 (NewBufferedPipe\<lparr>p_buf := [5, 6]\<rparr>) [[EvTimer], [EvTimer]] = Some (Inr [5, 6], NewBufferedPipe, [[EvTimer]])"
    by (simp add: ReadAvailable_def NewBufferedPipe_def coalesce_def phase2_waits_def take_out_def)
  have cfg: "cfg_MaxSendBytes (withDefaults sample_config) = 1048576" "cfg_PollBufferSize (withDefaults sample_config) = 262144"
    by (simp_all add: withDefaults_def sample_config_def DefaultMaxSendBytes_def DefaultPollBufferSize_def)
  have hd: "\<not> header_true (rq_header doPoll_request) HeaderSendStream" "\<not> header_true (rq_header doPoll_request) HeaderSendOnly"
    by (simp_all add: doPoll_request_def header_true_def header_Get_def header_Set_def no_header_def header_names)
  have "\<exists>resp sv'. PollHandler sample_config no_hooks ''p'' doPoll_request sample_poll plain_server = Returns (Answer resp, sv') \<and>
      p_buf (toClient (sess sv' 0)) = []"
    using sample_config_checks ra hd
    by (simp add: PollHandler_def sample_poll_def plain_server_def no_hooks_def Get_def newSession_def beginPoll_def
        resumeExpiredLocked_def Resumable_def upd_def touch_def Let_def poll_dispatch_def plain_poll_def
        read_all_max_def r_bytes_def PollModeStream_def plain_answer_def cfg) (simp add: doPoll_request_def NewBufferedPipe_def endPoll_def noteDetachedLocked_def)
  then obtain resp sv' where run: "PollHandler sample_config no_hooks ''p'' doPoll_request sample_poll plain_server = Returns (Answer resp, sv')"
    "p_buf (toClient (sess sv' 0)) = []" by blast
  have pl: "store_inv plain_server" "Get ''p'' plain_server = Some 0" "s_rs (sess plain_server 0) = None" "\<not> s_closed (sess plain_server 0)"
      "s_pollMode (sess plain_server 0) \<noteq> PollModeStream" "quiet no_hooks sample_poll" "p_buf (toClient (sess plain_server 0)) = [5, 6]"
    by (simp_all add: plain_server_def store_inv_def newSession_def Get_def NewBufferedPipe_def quiet_def no_hooks_def sample_poll_def PollModeStream_def)
  have quiet: "written_by b (slept (pe_wait sample_poll) sch') = []" for b sch'
    by (simp add: sample_poll_def slept_def take_Cons')
  obtain res c' where c': "doPoll 262144 (Inr (wire_of resp)) sample_http = (res, c')" by fastforce
  have "262144 = nat (cfg_PollBufferSize (withDefaults sample_config))" "\<not> p_closed (c_readPipe sample_http)"
    by (simp_all add: cfg sample_http_simps NewBufferedPipe_def)
  from plain_download_arrives [OF pl(1) sample_config_checks pl(2-4,6,5) run(1) this c'] pl(7) run c' show ?thesis
    by (auto simp: sample_http_simps NewBufferedPipe_def quiet)
qed

theorem stream_download_arrives_witness:
  "\<exists>bs s' c'. pollStream 8 0 sample_stream (newSession ''a'' Map.empty 0) = Returns (Streamed RolledOver bs, s') \<and>
     doStreamPoll (\<lambda>_. id) False (Inr \<lparr>wr_status = 200, wr_header = no_header, wr_body = \<lparr>r_chunks = [bs], r_end = EOF\<rparr>\<rparr>) sample_http =
       Returns (ErrStreamEnd, c') \<and> p_buf (c_readPipe c') @ p_buf (toClient s') = [5]"
proof -
  let ?p = "NewBufferedPipe\<lparr>p_buf := [5]\<rparr>" and ?t = "\<lparr>t_ctxDone = False, t_before = [], t_wait = [[EvTimer]], t_late = True\<rparr>"
  let ?s = "newSession ''a'' Map.empty 0"
  have ra: "ReadAvailable 8 (after [] ?p) [[EvTimer]] = Some (Inr [5], NewBufferedPipe, [])"
    by (simp add: ReadAvailable_def coalesce_def NewBufferedPipe_def phase2_waits_def take_out_def)
  note turn = pollStream_loop_turn [of ?t 8 ?p, simplified, OF ra [simplified]]
  obtain bs s' where run: "pollStream 8 0 sample_stream ?s = Returns (Streamed RolledOver bs, s')"
    using turn(1) by (simp add: pollStream_def sample_stream_def newSession_def writeFrame_unlimited Let_def)
  have q: "stream_in 8 (se_turns sample_stream) ?p = []" "toClient (se_started sample_stream ?s) = ?p" "p_buf (c_readPipe sample_http) = []"
    using turn(2) by (simp_all add: sample_stream_def slept_def sample_http_simps NewBufferedPipe_def)
  let ?resp = "\<lparr>wr_status = 200, wr_header = no_header, wr_body = \<lparr>r_chunks = [bs], r_end = EOF\<rparr>\<rparr>"
  have "s_rs ?s = None" "w_room (se_writer sample_stream) = None" "w_out (se_writer sample_stream) = []"
      "\<forall>x. toClient (se_finish sample_stream x) = toClient x" "8 < (2::nat) ^ 32" "int 8 \<le> c_streamMaxFrame sample_http"
      "\<not> p_closed (c_readPipe sample_http)" "\<forall>k c. c_readPipe ((\<lambda>_. id) k c) = c_readPipe c"
      "wr_status ?resp = 200" "r_bytes (wr_body ?resp) = bs" "r_end (wr_body ?resp) = EOF"
    by (simp_all add: sample_stream_def newSession_def sample_http_simps NewBufferedPipe_def r_bytes_def)
  from stream_download_arrives [OF run this, of False]
  obtain c' got where "doStreamPoll (\<lambda>_. id) False (Inr ?resp) sample_http = Returns (ErrStreamEnd, c')" "[5] = got @ p_buf (toClient s')"
      "p_buf (c_readPipe c') = got" unfolding q by (auto simp: id_def)
  then show ?thesis using run by metis
qed

text \<open>One leg of the feeder that finds one byte and ends at its deadline.\<close>

lemma stream_upload_arrives_witness:
  "\<exists>p' w' s'. feedSendStream 8 [\<lparr>fd_before = [EvWrite [5]], fd_wait = [[EvTimer]], fd_late = True\<rparr>] NewBufferedPipe \<lparr>w_out = [], w_room = None\<rparr> = Some (None, p', w') \<and>
     pollSendStream (withDefaults sample_config) (doSendStream_request \<lparr>r_chunks = [w_out w'], r_end = EOF\<rparr>) 0 \<lparr>sn_attach = [], sn_others = \<lambda>_. id\<rparr>
       (newSession ''a'' Map.empty 0) = Returns (Some 200, s') \<and> p_buf (toServer s') @ p_buf p' = [5]"
proof -
  let ?t = "\<lparr>fd_before = [EvWrite [5]], fd_wait = [[EvTimer]], fd_late = True\<rparr>" and ?w = "\<lparr>w_out = [], w_room = None\<rparr>"
  let ?s = "newSession ''a'' Map.empty 0" and ?env = "\<lparr>sn_attach = [], sn_others = \<lambda>_. id\<rparr>"
  have ra: "ReadAvailable 8 (after [EvWrite [5]] NewBufferedPipe) [[EvTimer]] = Some (Inr [5], NewBufferedPipe\<lparr>p_hiWater := 1\<rparr>, [])"
    by (simp add: ReadAvailable_def coalesce_def NewBufferedPipe_def phase2_waits_def take_out_def after_def Write_def)
  obtain e p' w' where run: "feedSendStream 8 [?t] NewBufferedPipe ?w = Some (e, p', w')"
    using ra by (simp add: writeFrame_unlimited)
  have q: "stream_in 8 (map as_turn [?t]) NewBufferedPipe = [5]" "p_buf NewBufferedPipe = []"
    using pollStream_loop_turn(2) [of "as_turn ?t" 8 NewBufferedPipe "Inr [5]" _ "[]" "[]"] ra
    by (simp_all add: as_turn_def slept_def) (simp_all add: NewBufferedPipe_def)
  have "w_room ?w = None" "w_out ?w = []" "8 < (2::nat) ^ 32" "int 8 \<le> cfg_MaxSendBytes (withDefaults sample_config)" "s_rs ?s = None"
      "\<not> p_closed (toServer ?s)" "\<forall>k s. toServer (sn_others ?env k s) = toServer s" "r_bytes \<lparr>r_chunks = [w_out w'], r_end = EOF\<rparr> = w_out w'"
      "wr_status \<lparr>wr_status = 200, wr_header = no_header, wr_body = \<lparr>r_chunks = [], r_end = EOF\<rparr>\<rparr> = 200"
    by (simp_all add: newSession_def NewBufferedPipe_def r_bytes_def withDefaults_def sample_config_def DefaultMaxSendBytes_def)
  from stream_upload_arrives [OF run this, of 0]
  obtain s' sent where s': "pollSendStream (withDefaults sample_config) (doSendStream_request \<lparr>r_chunks = [w_out w'], r_end = EOF\<rparr>) 0 ?env ?s = Returns (Some 200, s')"
      "[5] = sent @ p_buf p'" "p_buf (toServer s') = sent" "e = None"
    unfolding q by (auto simp: newSession_def NewBufferedPipe_def doSendStream_def)
  then show ?thesis using run by metis
qed

end
