(* ===== verification/WebSocket.thy ===== *)
theory WebSocket
  imports Client
begin

text \<open>
  \<^verbatim>\<open>websocket.go\<close>: the messages, the handler that attaches a WebSocket to a session with its two
  pumps, and the client's connection with its two loops. The WebSocket itself is a library:
  reading gives a message or an error, one record per turn with what other goroutines did to the
  session meanwhile; writing appends a message or fails. A pump that has used up its turns has
  not returned. The two pumps of a handler run at the same time on one session, each with its own
  view of what the other one does; the session that remains is the one the pump that ends last sees.

  The lemmas show that messages survive encoding and fit the reader's limit, that the bytes of
  both directions arrive in order, that the numbered pump never leaves a gap, and what the
  handler does to the session on every path.
\<close>

section \<open>Messages\<close>

definition wsEncode :: "frameType \<Rightarrow> bytes \<Rightarrow> bytes" where
  "wsEncode typ payload = typ # payload"

definition wsEncodeSeq :: "u64 \<Rightarrow> bytes \<Rightarrow> bytes" where
  "wsEncodeSeq off payload = frameSeqData # PutUint64 off @ payload"

definition wsDecode :: "bytes \<Rightarrow> error + frameType \<times> bytes" where
  "wsDecode msg = (case msg of [] \<Rightarrow> Inl ErrEmptyMessage | typ # payload \<Rightarrow> Inr (typ, payload))"

section \<open>The connection\<close>

text \<open>
  Writing: the messages that went out, and how many more will. Reading: one turn is what others
  did before the message is handled, and an error or a message and whether it is a binary one.
\<close>

record wsock =
  ws_sent :: "bytes list"
  ws_room :: "nat option"

definition ws_Write :: "wsock \<Rightarrow> bytes \<Rightarrow> error option \<times> wsock" where
  "ws_Write w msg =
     (case ws_room w of
        None \<Rightarrow> (None, w\<lparr>ws_sent := ws_sent w @ [msg]\<rparr>)
      | Some 0 \<Rightarrow> (Some ErrNet, w)
      | Some (Suc n) \<Rightarrow> (None, w\<lparr>ws_sent := ws_sent w @ [msg], ws_room := Some n\<rparr>))"

record 'c ws_read =
  rd_others :: "'c \<Rightarrow> 'c"
  rd_msg :: "error + bool \<times> bytes"

text \<open>The loop of every reader; \<open>step\<close> is its switch on the frame's type, where \<open>None\<close> is a panic.\<close>

fun ws_read_loop :: "(frameType \<Rightarrow> bytes \<Rightarrow> 'c \<Rightarrow> (error option \<times> 'c) option) \<Rightarrow> 'c ws_read list \<Rightarrow> 'c \<Rightarrow> (error \<times> 'c) outcome" where
  "ws_read_loop step [] c = Sleeps"
| "ws_read_loop step (t # ts) c =
     (let c0 = rd_others t c in
      case rd_msg t of
        Inl e \<Rightarrow> Returns (e, c0)
      | Inr (binary, msg) \<Rightarrow>
          if \<not> binary then ws_read_loop step ts c0
          else
            (case wsDecode msg of
               Inl e \<Rightarrow> Returns (e, c0)
             | Inr (ft, payload) \<Rightarrow>
                 (case step ft payload c0 of
                    None \<Rightarrow> Panics
                  | Some (Some e, c1) \<Rightarrow> Returns (e, c1)
                  | Some (None, c1) \<Rightarrow> ws_read_loop step ts c1)))"

section \<open>The server's pumps\<close>

text \<open>The switch of \<open>wsReadPump\<close>.\<close>

definition ws_frame :: "frameType \<Rightarrow> bytes \<Rightarrow> session \<Rightarrow> (error option \<times> session) option" where
  "ws_frame ft payload s =
     (if ft = frameData then
        if s_rs s \<noteq> None then Some (Some ErrUnnumbered, rs_markBroken s)
        else if payload \<noteq> [] then
          (case writeUpstream s payload of
             (Inl e, s') \<Rightarrow> Some (Some e, s')
           | (Inr _, s') \<Rightarrow> Some (None, s'))
        else Some (None, s)
      else if ft = frameSeqData then
        if s_rs s = None then Some (Some ErrNotNegotiated, s)
        else (case splitSeq payload of Inl e \<Rightarrow> Some (Some e, s) | Inr (off, d) \<Rightarrow> rs_recvIn off d s)
      else if ft = frameAck then
        if s_rs s = None then Some (Some ErrNotNegotiated, s)
        else (case decodeAck payload of Inl e \<Rightarrow> Some (Some e, s) | Inr n \<Rightarrow> rs_ack n s)
      else if ft = frameHeartbeat then Some (None, s)
      else Some (Some ErrUnknownFrame, s))"

definition wsReadPump :: "session ws_read list \<Rightarrow> session \<Rightarrow> (error \<times> session) outcome" where
  "wsReadPump ts s = ws_read_loop ws_frame ts s"

text \<open>One turn of a loop that drains a pipe: what happens to the pipe before the wait, and the wait.\<close>

record pump_turn =
  pu_before :: "pipe_event list"
  pu_wait :: schedule

fun ws_drain :: "nat \<Rightarrow> pump_turn list \<Rightarrow> pipe \<Rightarrow> wsock \<Rightarrow> (error \<times> pipe \<times> wsock) option" where
  "ws_drain cap [] p w = None"
| "ws_drain cap (t # ts) p w =
     (case ReadAvailable cap (after (pu_before t) p) (pu_wait t) of
        None \<Rightarrow> None
      | Some (res, p1, _) \<Rightarrow>
          if res = Inl EOF then Some (EOF, p1, w)
          else
            (case ws_Write w
                    (case res of
                       Inr d \<Rightarrow> if d \<noteq> [] then wsEncode frameData d else wsEncode frameHeartbeat []
                     | Inl _ \<Rightarrow> wsEncode frameHeartbeat []) of
               (Some e, w1) \<Rightarrow> Some (e, p1, w1)
             | (None, w1) \<Rightarrow> ws_drain cap ts p1 w1))"

text \<open>
  What one turn of a numbered pump writes: an acknowledgement that is due, then data or a
  heartbeat. An error of \<open>nextOut\<close> that is no wake-up ends the pump unless an acknowledgement was due.
\<close>

definition ws_write_turn :: "wsock \<Rightarrow> u64 option \<Rightarrow> (error + u64 \<times> bytes) \<Rightarrow> error option \<times> wsock" where
  "ws_write_turn w due res =
     (case (case due of
              Some n \<Rightarrow> ws_Write w (wsEncode frameAck (encodeOffset n))
            | None \<Rightarrow> (case res of Inl e \<Rightarrow> if e = ErrPipeInterrupted then None else Some e | Inr _ \<Rightarrow> None, w)) of
        (Some e, w1) \<Rightarrow> (Some e, w1)
      | (None, w1) \<Rightarrow>
          (case res of
             Inr (off, d) \<Rightarrow> if d \<noteq> [] then ws_Write w1 (wsEncodeSeq off d) else ws_Write w1 (wsEncode frameHeartbeat [])
           | Inl e \<Rightarrow> if e = ErrPipeInterrupted then (None, w1) else ws_Write w1 (wsEncode frameHeartbeat [])))"

text \<open>
  The numbered pump of either end: \<open>stop\<close> is what an interrupted wait makes of the turn, an error
  to leave with or nothing.
\<close>

fun ws_out_loop :: "(resume_turn \<Rightarrow> error option) \<Rightarrow> nat \<Rightarrow> resume_turn list \<Rightarrow> reliable \<times> pipe \<Rightarrow> wsock
    \<Rightarrow> (error \<times> (reliable \<times> pipe) \<times> wsock) outcome" where
  "ws_out_loop stop cap [] st w = Sleeps"
| "ws_out_loop stop cap (t # ts) st w =
     (case rt_before t st of (r0, out0) \<Rightarrow>
       (case nextOut cap r0 (rt_meanwhile t) out0 (rt_wait t) of
          Panics \<Rightarrow> Panics
        | Sleeps \<Rightarrow> Sleeps
        | Returns (res, r1, out1) \<Rightarrow>
            if res = Inl EOF then Returns (EOF, (r1, out1), w)
            else if res = Inl ErrPipeInterrupted \<and> stop t \<noteq> None then Returns (the (stop t), (r1, out1), w)
            else
              (case takeAck (rt_then t r1) of (due, r2) \<Rightarrow>
                 (case ws_write_turn w due res of
                    (Some e, w1) \<Rightarrow> Returns (e, (r2, out1), w1)
                  | (None, w1) \<Rightarrow> ws_out_loop stop cap ts (r2, out1) w1))))"

definition wsWritePumpResumable :: "nat \<Rightarrow> att \<Rightarrow> resume_turn list \<Rightarrow> reliable \<times> pipe \<Rightarrow> wsock
    \<Rightarrow> (error \<times> (reliable \<times> pipe) \<times> wsock) outcome" where
  "wsWritePumpResumable cap att =
     ws_out_loop (\<lambda>t. if rt_ctxDone t then Some ErrCanceled else if \<not> isCurrent att (rt_slots t) then Some ErrDetached else None) cap"

text \<open>
  \<open>wsWritePump\<close> on the session: the turns of either kind, and what others do to the rest of the
  session until it has ended.
\<close>

record ws_write =
  ww_turns :: "pump_turn list"
  ww_rturns :: "resume_turn list"
  ww_finish :: "session \<Rightarrow> session"
  ww_sock :: wsock

definition wsWritePump :: "nat \<Rightarrow> att \<Rightarrow> ws_write \<Rightarrow> session \<Rightarrow> (error \<times> session \<times> wsock) outcome" where
  "wsWritePump cap att env s =
     (case s_rs s of
        None \<Rightarrow>
          (case ws_drain cap (ww_turns env) (toClient s) (ww_sock env) of
             None \<Rightarrow> Sleeps
           | Some (e, p, w) \<Rightarrow> Returns (e, ww_finish env (s\<lparr>toClient := p\<rparr>), w))
      | Some r \<Rightarrow>
          (case wsWritePumpResumable cap att (ww_rturns env) (r, toClient s) (ww_sock env) of
             Panics \<Rightarrow> Panics
           | Sleeps \<Rightarrow> Sleeps
           | Returns (e, (r', p), w) \<Rightarrow> Returns (e, ww_finish env (s\<lparr>s_rs := Some r', toClient := p\<rparr>), w)))"

section \<open>The handler\<close>

text \<open>
  What the handler meets: the waits inside \<open>attach\<close>, what others do to the session up to
  \<open>beginWebSocket\<close> and up to the end of the upgrade, whether the upgrade succeeds, the turns of
  the pumps and which of them ends first, and what others do until the handler has returned.
\<close>

record ws_env =
  we_attach :: "(bool \<times> (attachments \<Rightarrow> attachments)) list"
  we_between :: "session \<Rightarrow> session"
  we_now :: instant
  we_later :: instant
  we_upgraded :: "session \<Rightarrow> session"
  we_accepted :: bool
  we_reads :: "session ws_read list"
  we_write :: ws_write
  we_readFirst :: bool
  we_end :: "session \<Rightarrow> session"
  we_endTime :: instant

text \<open>A refusal, a failed upgrade (the library has answered), a connection dropped at once, or the first error of a pump.\<close>

datatype ws_answer = Refused response | NotUpgraded | Dropped | Attached error

definition ws_pumps :: "nat \<Rightarrow> att \<Rightarrow> ws_env \<Rightarrow> session \<Rightarrow> (error \<times> session) outcome" where
  "ws_pumps cap att env s =
     (case wsReadPump (we_reads env) s of
        Panics \<Rightarrow> Panics
      | Sleeps \<Rightarrow> Sleeps
      | Returns (e1, s1) \<Rightarrow>
          (case wsWritePump cap att (we_write env) s of
             Panics \<Rightarrow> Panics
           | Sleeps \<Rightarrow> Sleeps
           | Returns (e2, s2, _) \<Rightarrow> Returns (if we_readFirst env then (e1, s2) else (e2, s1))))"

text \<open>From \<open>beginWebSocket\<close> to \<open>endWebSocket\<close>.\<close>

definition ws_attached :: "nat \<Rightarrow> att \<Rightarrow> ws_env \<Rightarrow> session \<Rightarrow> (ws_answer \<times> session) outcome" where
  "ws_attached cap att env s =
     (case beginWebSocket (we_now env) s of
        (False, _) \<Rightarrow> Returns (Refused (writeError (if refusesAttach (we_later env) s then 410 else 409)), s)
      | (True, s1) \<Rightarrow>
          let s2 = we_upgraded env (touch (we_now env) s1); finish = (\<lambda>x. endWebSocket (we_endTime env) (we_end env x)) in
          if \<not> we_accepted env then Returns (NotUpgraded, finish s2)
          else
            (case s_rs s2 of
               None \<Rightarrow>
                 (case ws_pumps cap att env s2 of
                    Panics \<Rightarrow> Panics
                  | Sleeps \<Rightarrow> Sleeps
                  | Returns (e, s3) \<Rightarrow> Returns (Attached e, finish s3))
             | Some r \<Rightarrow>
                 (case s_att s2 of
                    None \<Rightarrow> Panics
                  | Some a \<Rightarrow>
                      if \<not> isCurrent att a then Returns (Dropped, finish s2)
                      else
                        (case ws_pumps cap att env (s2\<lparr>s_rs := Some (resetAck r)\<rparr>) of
                           Panics \<Rightarrow> Panics
                         | Sleeps \<Rightarrow> Sleeps
                         | Returns (e, s3) \<Rightarrow> Returns (Attached e, finish s3)))))"

definition WebSocketHandler :: "ServerConfig \<Rightarrow> string \<Rightarrow> att \<Rightarrow> ws_env \<Rightarrow> server \<Rightarrow> (ws_answer \<times> server) outcome" where
  "WebSocketHandler cfg0 ident att env sv =
     (if check cfg0 \<noteq> None then Panics
      else
        let cap = nat (cfg_PollBufferSize (withDefaults cfg0)) in
        (case Get ident sv of
           None \<Rightarrow> Returns (Refused (writeError 404), sv)
         | Some ref \<Rightarrow>
             let s = sess sv ref in
             if s_transport s \<noteq> TransportWebSocket then Returns (Refused (writeError 400), sv)
             else if s_rs s = None then
               (case ws_attached cap att env (we_between env s) of
                  Panics \<Rightarrow> Panics
                | Sleeps \<Rightarrow> Sleeps
                | Returns (ans, s') \<Rightarrow> Returns (ans, upd ref (\<lambda>_. s') sv))
             else
               (case s_att s of
                  None \<Rightarrow> Panics
                | Some a \<Rightarrow>
                    (case attach attachBoth att a (we_attach env) of
                       None \<Rightarrow> Sleeps
                     | Some (Some _, a') \<Rightarrow> Returns (Refused (writeError 503), upd ref (\<lambda>s. s\<lparr>s_att := Some a'\<rparr>) sv)
                     | Some (None, a') \<Rightarrow>
                         (case ws_attached cap att env (we_between env (s\<lparr>s_att := Some a'\<rparr>)) of
                            Panics \<Rightarrow> Panics
                          | Sleeps \<Rightarrow> Sleeps
                          | Returns (ans, s') \<Rightarrow> Returns (ans, upd ref (\<lambda>_. detach_session att s') sv))))))"

text \<open>The longest message the server's end of a connection accepts.\<close>

definition server_read_limit :: "ServerConfig \<Rightarrow> int" where
  "server_read_limit cfg = cfg_MaxSendBytes cfg + 1 + int seqHeaderLen"

section \<open>The client\<close>

record wsConn =
  wc_guard :: sessionGuard
  wc_limits :: Limits
  wc_readPipe :: pipe
  wc_writePipe :: pipe
  wc_maxFrame :: int
  wc_failed :: bool
  wc_closed :: bool

definition newWsConn :: "ConnectResponse \<Rightarrow> wsConn" where
  "newWsConn cr =
     \<lparr>wc_guard = newSessionGuard (resp_SessionID cr), wc_limits = resp_Limits cr, wc_readPipe = NewBufferedPipe,
      wc_writePipe = NewBufferedPipe, wc_maxFrame = orInt (PollBufferBytes (resp_Limits cr)) DefaultPollBufferSize,
      wc_failed = False, wc_closed = False\<rparr>"

definition client_read_limit :: "wsConn \<Rightarrow> int" where
  "client_read_limit c = wc_maxFrame c + 1"

text \<open>The loops start before the session is adopted: \<open>early\<close> is what they do until then, with the connector as it was.\<close>

definition connectWebSocket :: "Connector \<Rightarrow> ConnectResponse \<Rightarrow> error option \<Rightarrow> (Connector \<Rightarrow> wsConn \<Rightarrow> wsConn)
    \<Rightarrow> (error + wsConn) \<times> Connector" where
  "connectWebSocket k cr dial early =
     (case dial of
        Some e \<Rightarrow> (Inl e, k)
      | None \<Rightarrow> (Inr (early k (newWsConn cr)), adoptSession (resp_SessionID cr) k))"

abbreviation ws_done :: "wsConn \<Rightarrow> bool" where
  "ws_done c \<equiv> g_cancelled (wc_guard c) \<or> wc_closed c"

definition wsConn_fail :: "wsConn \<Rightarrow> wsConn" where
  "wsConn_fail c = (if wc_failed c then c else c\<lparr>wc_failed := True, wc_readPipe := Close (wc_readPipe c)\<rparr>)"

definition wsConn_onTransportProblem :: "Connector \<Rightarrow> wsConn \<Rightarrow> wsConn" where
  "wsConn_onTransportProblem k c =
     (case supersededByNewerConnect k (wc_guard c) of
        (True, g) \<Rightarrow> c\<lparr>wc_guard := g, wc_readPipe := Close (wc_readPipe c)\<rparr>
      | (False, _) \<Rightarrow> wsConn_fail c)"

definition wsConn_Read :: "nat \<Rightarrow> wsConn \<Rightarrow> schedule \<Rightarrow> ((error + bytes) \<times> wsConn \<times> schedule) option" where
  "wsConn_Read cap c sch = map_option (\<lambda>(res, p, sch'). (res, c\<lparr>wc_readPipe := p\<rparr>, sch')) (Read cap (wc_readPipe c) sch)"

definition wsConn_Write :: "bytes \<Rightarrow> wsConn \<Rightarrow> (error + nat) \<times> wsConn" where
  "wsConn_Write p c =
     (if wc_closed c then (Inl ErrClosedPipe, c)
      else (case Write (wc_writePipe c) p of (res, _, w) \<Rightarrow> (res, c\<lparr>wc_writePipe := w\<rparr>)))"

text \<open>\<open>finish\<close> is what the loops do until they have ended; the first result says whether the DELETE is sent.\<close>

definition wsConn_Close :: "(wsConn \<Rightarrow> wsConn) \<Rightarrow> wsConn \<Rightarrow> bool \<times> wsConn" where
  "wsConn_Close finish c =
     (if wc_closed c then (False, c)
      else
        let c1 = finish (c\<lparr>wc_closed := True, wc_guard := (wc_guard c)\<lparr>g_cancelled := True\<rparr>, wc_writePipe := Close (wc_writePipe c)\<rparr>)
        in (True, c1\<lparr>wc_readPipe := Close (wc_readPipe c1)\<rparr>))"

text \<open>The two loops; each turn comes with the connector as it is then.\<close>

fun wsConn_readLoop :: "(wsConn ws_read \<times> Connector) list \<Rightarrow> wsConn \<Rightarrow> wsConn outcome" where
  "wsConn_readLoop [] c = Sleeps"
| "wsConn_readLoop ((t, k) # ts) c =
     (let c0 = rd_others t c in
      case rd_msg t of
        Inl e \<Rightarrow> Returns (if ws_done c0 then c0 else wsConn_onTransportProblem k c0)
      | Inr (binary, msg) \<Rightarrow>
          if \<not> binary then wsConn_readLoop ts c0
          else
            (case wsDecode msg of
               Inl e \<Rightarrow> Returns (wsConn_onTransportProblem k c0)
             | Inr (ft, payload) \<Rightarrow>
                 if ft = frameData then
                   if payload \<noteq> [] then
                     (case Write (wc_readPipe c0) payload of
                        (Inl _, _, p) \<Rightarrow> Returns (c0\<lparr>wc_readPipe := p\<rparr>)
                      | (Inr _, _, p) \<Rightarrow> wsConn_readLoop ts (c0\<lparr>wc_readPipe := p\<rparr>))
                   else wsConn_readLoop ts c0
                 else if ft = frameHeartbeat then wsConn_readLoop ts c0
                 else Returns (wsConn_onTransportProblem k c0)))"

record write_loop_turn =
  wl_before :: "wsConn \<Rightarrow> wsConn"
  wl_wait :: schedule
  wl_during :: "wsConn \<Rightarrow> wsConn"
  wl_connector :: Connector

fun wsConn_writeLoop :: "write_loop_turn list \<Rightarrow> wsConn \<Rightarrow> wsock \<Rightarrow> (wsConn \<times> wsock) outcome" where
  "wsConn_writeLoop [] c w = Sleeps"
| "wsConn_writeLoop (t # ts) c w =
     (let c0 = wl_before t c in
      case ReadAvailable (nat (wc_maxFrame c0)) (wc_writePipe c0) (wl_wait t) of
        None \<Rightarrow> Sleeps
      | Some (res, p, _) \<Rightarrow>
          let c1 = wl_during t (c0\<lparr>wc_writePipe := p\<rparr>) in
          if res = Inl EOF then Returns (c1, w)
          else
            (case ws_Write w
                    (case res of
                       Inr d \<Rightarrow> if d \<noteq> [] then wsEncode frameData d else wsEncode frameHeartbeat []
                     | Inl _ \<Rightarrow> wsEncode frameHeartbeat []) of
               (Some e, w1) \<Rightarrow> Returns (if ws_done c1 then c1 else wsConn_onTransportProblem (wl_connector t) c1, w1)
             | (None, w1) \<Rightarrow> wsConn_writeLoop ts c1 w1))"

section \<open>Specification\<close>

text \<open>A frame as a message.\<close>

definition msg_of :: "frameType \<times> bytes \<Rightarrow> bytes" where
  "msg_of f = wsEncode (fst f) (snd f)"

text \<open>What other goroutines put into the pipe while it is drained.\<close>

fun drain_in :: "nat \<Rightarrow> pump_turn list \<Rightarrow> pipe \<Rightarrow> wsock \<Rightarrow> bytes" where
  "drain_in cap [] p w = []"
| "drain_in cap (t # ts) p w =
     written_by (p_closed p) (pu_before t) @
     (case ReadAvailable cap (after (pu_before t) p) (pu_wait t) of
        None \<Rightarrow> []
      | Some (res, p1, sch) \<Rightarrow>
          written_by (p_closed (after (pu_before t) p)) (slept (pu_wait t) sch) @
          (if res = Inl EOF then []
           else case ws_Write w [] of (Some _, _) \<Rightarrow> [] | (None, w1) \<Rightarrow> drain_in cap ts p1 w1))"

text \<open>The same loop on a connection: what a turn does to the pipe besides the wait.\<close>

definition pipe_turn :: "pipe_event list \<Rightarrow> write_loop_turn \<Rightarrow> bool" where
  "pipe_turn evs t \<longleftrightarrow>
     (\<forall>c. wc_writePipe (wl_before t c) = after evs (wc_writePipe c) \<and> wc_maxFrame (wl_before t c) = wc_maxFrame c) \<and>
     (\<forall>c. wc_writePipe (wl_during t c) = wc_writePipe c \<and> wc_maxFrame (wl_during t c) = wc_maxFrame c)"

section \<open>Lemmas on messages\<close>

lemma wsDecode_msg_of [simp]: "wsDecode (msg_of f) = Inr f"
  by (simp add: msg_of_def wsDecode_def wsEncode_def)

lemma msg_of_simps:
  "wsEncode ty p = msg_of (ty, p)" "wsEncodeSeq off d = msg_of (frameSeqData, encodeOffset off @ d)" "length (msg_of f) = Suc (length (snd f))"
  by (simp_all add: msg_of_def wsEncode_def wsEncodeSeq_def encodeOffset_def)

text \<open>A write either adds the message or fails and adds nothing, the latter only on a connection that can fail.\<close>

lemma ws_Write_result:
  obtains (sent) w1 where "ws_Write w m = (None, w1)" "ws_sent w1 = ws_sent w @ [m]" "ws_room w1 = None \<longleftrightarrow> ws_room w = None"
  | (fails) "ws_Write w m = (Some ErrNet, w)" "ws_room w \<noteq> None"
proof (cases "ws_room w")
  case None
  then show ?thesis by (intro sent [of "w\<lparr>ws_sent := ws_sent w @ [m]\<rparr>"]) (simp_all add: ws_Write_def)
next
  case (Some n)
  then show ?thesis
  proof (cases n)
    case 0
    then show ?thesis using Some by (intro fails) (simp_all add: ws_Write_def)
  next
    case (Suc k)
    then show ?thesis using Some by (intro sent [of "w\<lparr>ws_sent := ws_sent w @ [m], ws_room := Some k\<rparr>"]) (simp_all add: ws_Write_def)
  qed
qed

section \<open>Lemmas on the plain pumps\<close>

lemma drain_turn:
  assumes "ReadAvailable cap (after (pu_before t) p) (pu_wait t) = Some (res, p1, sch)"
  shows "ws_drain cap (t # ts) p w =
      (if res = Inl EOF then Some (EOF, p1, w)
       else case ws_Write w (msg_of (turn_frame res)) of (Some e, w1) \<Rightarrow> Some (e, p1, w1) | (None, w1) \<Rightarrow> ws_drain cap ts p1 w1)"
    and "p_buf p @ drain_in cap (t # ts) p w = data_of [turn_frame res] @ p_buf p1 @
      (if res = Inl EOF then [] else case ws_Write w [] of (Some _, _) \<Rightarrow> [] | (None, w1) \<Rightarrow> drain_in cap ts p1 w1)"
    and "body_frame cap (turn_frame res)"
proof -
  have "(case res of Inr d \<Rightarrow> if d \<noteq> [] then wsEncode frameData d else wsEncode frameHeartbeat [] | Inl _ \<Rightarrow> wsEncode frameHeartbeat []) =
      msg_of (turn_frame res)"
    by (simp add: turn_frame_def msg_of_simps split: sum.split)
  then show "ws_drain cap (t # ts) p w =
      (if res = Inl EOF then Some (EOF, p1, w)
       else case ws_Write w (msg_of (turn_frame res)) of (Some e, w1) \<Rightarrow> Some (e, p1, w1) | (None, w1) \<Rightarrow> ws_drain cap ts p1 w1)"
    using assms by simp
  have "p_buf (after (pu_before t) p) @ written_by (p_closed (after (pu_before t) p)) (slept (pu_wait t) sch) =
      data_of [turn_frame res] @ p_buf p1"
    unfolding turn_frame(1) by (rule ReadAvailable_slept(1) [OF assms])
  then have "p_buf p @ written_by (p_closed p) (pu_before t) @ written_by (p_closed (after (pu_before t) p)) (slept (pu_wait t) sch) @ rest =
      data_of [turn_frame res] @ p_buf p1 @ rest" for rest
    by (metis after_simps(1) append_assoc)
  then show "p_buf p @ drain_in cap (t # ts) p w = data_of [turn_frame res] @ p_buf p1 @
      (if res = Inl EOF then [] else case ws_Write w [] of (Some _, _) \<Rightarrow> [] | (None, w1) \<Rightarrow> drain_in cap ts p1 w1)"
    unfolding drain_in.simps assms option.case prod.case by simp
  show "body_frame cap (turn_frame res)"
    using ReadAvailable_outcome_length [OF assms] by (intro turn_frame(2)) (simp split: sum.split)
qed

declare ws_drain.simps(2) [simp del] drain_in.simps(2) [simp del]

lemma drain_in_room: "ws_room w = ws_room v \<Longrightarrow> drain_in cap ts p w = drain_in cap ts p v"
proof (induction ts arbitrary: p w v)
  case (Cons t ts)
  have "(case ws_Write w [] of (Some _, _) \<Rightarrow> [] | (None, w1) \<Rightarrow> drain_in cap ts q w1) =
      (case ws_Write v [] of (Some _, _) \<Rightarrow> [] | (None, w1) \<Rightarrow> drain_in cap ts q w1)" for q
    using Cons.prems Cons.IH [of "w\<lparr>ws_sent := ws_sent w @ [[]]\<rparr>" "v\<lparr>ws_sent := ws_sent v @ [[]]\<rparr>" q]
      Cons.IH [of "w\<lparr>ws_sent := ws_sent w @ [[]], ws_room := Some n\<rparr>" "v\<lparr>ws_sent := ws_sent v @ [[]], ws_room := Some n\<rparr>" q for n]
    by (auto simp: ws_Write_def split: option.split nat.split)
  then show ?case by (simp add: drain_in.simps(2) split: option.split)
qed simp

lemma drain_messages:
  assumes "ws_drain cap ts p w = Some (e, p', w')"
  shows "\<exists>fs lost. ws_sent w' = ws_sent w @ map msg_of fs \<and> list_all (body_frame cap) fs \<and>
     p_buf p @ drain_in cap ts p w = data_of fs @ lost @ p_buf p' \<and>
     (e = EOF \<and> lost = [] \<and> p_closed p' \<and> p_buf p' = [] \<or> e = ErrNet \<and> length lost \<le> cap \<and> ws_room w \<noteq> None)"
  using assms
proof (induction ts arbitrary: p w)
  case (Cons t ts)
  obtain res p1 sch where ra: "ReadAvailable cap (after (pu_before t) p) (pu_wait t) = Some (res, p1, sch)"
    using Cons.prems by (auto simp: ws_drain.simps(2) split: option.splits)
  note turn = drain_turn(1,2) [OF ra, where ts = ts and w = w] drain_turn(3) [OF ra]
  show ?case
  proof (cases "res = Inl EOF")
    case True
    then have "e = EOF" "p' = p1" "w' = w" using turn(1) Cons.prems by simp_all
    moreover have "p_closed p1 \<and> p_buf p1 = []" using ra True by (cases rule: ReadAvailable_cases) simp_all
    moreover have "p_buf p @ drain_in cap (t # ts) p w = p_buf p1" using turn(2) unfolding turn_frame(1) by (simp add: True)
    ultimately show ?thesis by (intro exI [of _ "[]"]) simp
  next
    case False
    show ?thesis
    proof (cases rule: ws_Write_result [of w "msg_of (turn_frame res)"])
      case (sent w1)
      then have "ws_drain cap ts p1 w1 = Some (e, p', w')" using turn(1) Cons.prems False by simp
      from Cons.IH [OF this] obtain fs lost where fs: "ws_sent w' = ws_sent w1 @ map msg_of fs" "list_all (body_frame cap) fs"
          "p_buf p1 @ drain_in cap ts p1 w1 = data_of fs @ lost @ p_buf p'"
          "e = EOF \<and> lost = [] \<and> p_closed p' \<and> p_buf p' = [] \<or> e = ErrNet \<and> length lost \<le> cap \<and> ws_room w1 \<noteq> None" by blast
      have "(case ws_Write w [] of (Some _, _) \<Rightarrow> [] | (None, v) \<Rightarrow> drain_in cap ts p1 v) = drain_in cap ts p1 w1"
        using sent(1) by (auto simp: ws_Write_def split: option.splits nat.splits intro: drain_in_room)
      then have "p_buf p @ drain_in cap (t # ts) p w = data_of [turn_frame res] @ data_of fs @ lost @ p_buf p'"
        unfolding turn(2) fs(3) [symmetric] using False by simp
      then have "p_buf p @ drain_in cap (t # ts) p w = data_of (turn_frame res # fs) @ lost @ p_buf p'" by simp
      then show ?thesis using fs sent(2,3) turn(3) by (intro exI [of _ "turn_frame res # fs"] exI [of _ lost]) auto
    next
      case fails
      then have "e = ErrNet" "p' = p1" "w' = w" using turn(1) Cons.prems False by simp_all
      moreover have "length (data_of [turn_frame res]) \<le> cap" using turn(3) by (auto simp: body_frame_def)
      moreover have "fst (ws_Write w []) \<noteq> None" using fails by (auto simp: ws_Write_def split: option.splits nat.splits)
      then have "p_buf p @ drain_in cap (t # ts) p w = data_of [turn_frame res] @ p_buf p1"
        unfolding turn(2) using False by (auto simp: case_prod_beta split: option.split)
      ultimately show ?thesis using fails(2) by (intro exI [of _ "[]"] exI [of _ "data_of [turn_frame res]"]) simp
    qed
  qed
qed simp

text \<open>The same as a reader needs it: any number of messages from the front, and what they leave.\<close>

lemma drain_arrives:
  assumes "ws_drain cap ts p w = Some (e, p', w')" and "ws_sent w = []"
  shows "\<exists>fs lost. ws_sent w' = map msg_of fs \<and> list_all (body_frame cap) fs \<and> (\<forall>m \<in> set (ws_sent w'). length m \<le> Suc cap) \<and>
     (\<forall>k. p_buf p @ drain_in cap ts p w = data_of (take k fs) @ data_of (drop k fs) @ lost @ p_buf p') \<and>
     length lost \<le> cap \<and> (ws_room w = None \<longrightarrow> lost = [] \<and> p_buf p' = [])"
proof -
  obtain fs lost where fs: "ws_sent w' = map msg_of fs" "list_all (body_frame cap) fs" "p_buf p @ drain_in cap ts p w = data_of fs @ lost @ p_buf p'"
      "e = EOF \<and> lost = [] \<and> p_closed p' \<and> p_buf p' = [] \<or> e = ErrNet \<and> length lost \<le> cap \<and> ws_room w \<noteq> None"
    using drain_messages [OF assms(1)] assms(2) by auto
  have "data_of (take k fs) @ data_of (drop k fs) = data_of fs" for k by (metis append_take_drop_id data_of_simps(3))
  then have "\<forall>k. p_buf p @ drain_in cap ts p w = data_of (take k fs) @ data_of (drop k fs) @ lost @ p_buf p'" using fs(3) by (metis append_assoc)
  moreover have "\<forall>m \<in> set (ws_sent w'). length m \<le> Suc cap"
    using fs(1,2) by (auto simp: msg_of_simps(3) body_frame_def list_all_iff)
  ultimately show ?thesis using fs(1,2,4) by (intro exI [of _ fs] exI [of _ lost]) auto
qed

text \<open>The client's loop drains its pipe as the server's pump does.\<close>

definition as_pump :: "pipe_event list \<times> write_loop_turn \<Rightarrow> pump_turn" where
  "as_pump x = \<lparr>pu_before = fst x, pu_wait = wl_wait (snd x)\<rparr>"

lemma onTransportProblem_simps [simp]:
  "wc_writePipe (wsConn_onTransportProblem k c) = wc_writePipe c"
  "p_buf (wc_readPipe (wsConn_onTransportProblem k c)) = p_buf (wc_readPipe c)"
  by (simp_all add: wsConn_onTransportProblem_def wsConn_fail_def split: prod.split bool.split)

lemma writeLoop_drain:
  assumes "wsConn_writeLoop (map snd xs) c w = Returns (c', w')" and "\<forall>(evs, t) \<in> set xs. pipe_turn evs t"
  shows "\<exists>e. ws_drain (nat (wc_maxFrame c)) (map as_pump xs) (wc_writePipe c) w = Some (e, wc_writePipe c', w')"
  using assms
proof (induction xs arbitrary: c w)
  case (Cons x xs)
  obtain evs t where x: "x = (evs, t)" by (cases x)
  have t: "wc_writePipe (wl_before t c) = after evs (wc_writePipe c)" "wc_maxFrame (wl_before t c) = wc_maxFrame c"
      "\<And>c. wc_writePipe (wl_during t c) = wc_writePipe c" "\<And>c. wc_maxFrame (wl_during t c) = wc_maxFrame c"
    using Cons.prems(2) by (auto simp: pipe_turn_def x)
  obtain res p1 sch where ra: "ReadAvailable (nat (wc_maxFrame c)) (after evs (wc_writePipe c)) (wl_wait t) = Some (res, p1, sch)"
    using Cons.prems(1) t by (auto simp: x Let_def split: option.splits)
  let ?c1 = "wl_during t ((wl_before t c)\<lparr>wc_writePipe := p1\<rparr>)"
  have p: "ReadAvailable (nat (wc_maxFrame c)) (after (pu_before (as_pump x)) (wc_writePipe c)) (pu_wait (as_pump x)) = Some (res, p1, sch)"
    using ra by (simp add: as_pump_def x)
  note turn = drain_turn(1) [OF p, of "map as_pump xs" w]
  have msg: "(case res of Inr d \<Rightarrow> if d \<noteq> [] then wsEncode frameData d else wsEncode frameHeartbeat [] | Inl _ \<Rightarrow> wsEncode frameHeartbeat []) =
      msg_of (turn_frame res)"
    by (simp add: turn_frame_def msg_of_simps split: sum.split)
  have run: "wsConn_writeLoop (map snd (x # xs)) c w =
      (if res = Inl EOF then Returns (?c1, w)
       else case ws_Write w (msg_of (turn_frame res)) of
              (Some e, w1) \<Rightarrow> Returns (if ws_done ?c1 then ?c1 else wsConn_onTransportProblem (wl_connector t) ?c1, w1)
            | (None, w1) \<Rightarrow> wsConn_writeLoop (map snd xs) ?c1 w1)"
    using ra t(1,2) msg by (simp add: x Let_def)
  show ?case
  proof (cases "res = Inl EOF")
    case True
    then show ?thesis using run turn t(3) Cons.prems(1) by auto
  next
    case False
    show ?thesis
    proof (cases rule: ws_Write_result [of w "msg_of (turn_frame res)"])
      case (sent w1)
      then have go: "wsConn_writeLoop (map snd xs) ?c1 w1 = Returns (c', w')" using run False Cons.prems(1) by simp
      have "\<exists>e. ws_drain (nat (wc_maxFrame ?c1)) (map as_pump xs) (wc_writePipe ?c1) w1 = Some (e, wc_writePipe c', w')"
        by (rule Cons.IH [OF go]) (use Cons.prems(2) in simp)
      then show ?thesis using turn sent(1) False t by simp
    next
      case fails
      then show ?thesis using run turn False t(3) Cons.prems(1) by (auto split: if_splits)
    qed
  qed
qed simp

text \<open>The readers on the messages of a drained pipe.\<close>

lemma ws_frame_plain:
  assumes "body_frame cap f" and "s_rs s = None" and "\<not> p_closed (toServer s)"
  shows "\<exists>s'. ws_frame (fst f) (snd f) s = Some (None, s') \<and> s_rs s' = None \<and> \<not> p_closed (toServer s') \<and>
     p_buf (toServer s') = p_buf (toServer s) @ data_of [f]"
proof (cases "f = (frameHeartbeat, [])")
  case True
  then show ?thesis using assms(2,3) by (simp add: ws_frame_def frame_type_defs)
next
  case False
  then have f: "fst f = frameData" "snd f \<noteq> []" using assms(1) by (auto simp: body_frame_def)
  obtain n l p where w: "Write (toServer s) (snd f) = (Inr n, l, p)"
    using assms(3) Write_result [of "toServer s" "snd f"] by (cases "Write (toServer s) (snd f)") auto
  have "p_buf p = p_buf (toServer s) @ snd f" "\<not> p_closed p"
    using Write_buf [of "toServer s" "snd f"] Write_frame(1) [of "toServer s" "snd f"] assms(3) w by simp_all
  then show ?thesis using f assms(2) w by (simp add: ws_frame_def writeUpstream_def)
qed

lemma read_pump_plain:
  assumes "map rd_msg ts = map (\<lambda>m. Inr (True, m)) (map msg_of fs) @ [Inl e]" and "list_all (body_frame cap) fs"
    and "\<forall>t \<in> set ts. \<forall>x. toServer (rd_others t x) = toServer x \<and> s_rs (rd_others t x) = s_rs x"
    and "s_rs s = None" and "\<not> p_closed (toServer s)"
  shows "\<exists>s'. wsReadPump ts s = Returns (e, s') \<and> p_buf (toServer s') = p_buf (toServer s) @ data_of fs"
  using assms
proof (induction fs arbitrary: ts s)
  case Nil
  then show ?case by (auto simp: wsReadPump_def)
next
  case (Cons f fs)
  obtain t ts' where ts: "ts = t # ts'" "rd_msg t = Inr (True, msg_of f)" "map rd_msg ts' = map (\<lambda>m. Inr (True, m)) (map msg_of fs) @ [Inl e]"
    using Cons.prems(1) by (cases ts) auto
  have o: "toServer (rd_others t s) = toServer s" "s_rs (rd_others t s) = None" using Cons.prems(3,4) ts(1) by simp_all
  obtain s1 where s1: "ws_frame (fst f) (snd f) (rd_others t s) = Some (None, s1)" "s_rs s1 = None" "\<not> p_closed (toServer s1)"
      "p_buf (toServer s1) = p_buf (toServer s) @ data_of [f]"
    using ws_frame_plain [of cap f "rd_others t s"] Cons.prems(2,5) o by auto
  have "\<exists>s'. wsReadPump ts' s1 = Returns (e, s') \<and> p_buf (toServer s') = p_buf (toServer s1) @ data_of fs"
    by (rule Cons.IH) (use ts(1,3) Cons.prems(2,3) s1(2,3) in simp_all)
  moreover have "wsReadPump ts s = wsReadPump ts' s1"
    using ts(1,2) s1(1) by (simp add: wsReadPump_def Let_def case_prod_beta)
  ultimately show ?case using s1(4) by auto
qed

lemma read_loop_plain:
  assumes "map (\<lambda>x. rd_msg (fst x)) ts = map (\<lambda>m. Inr (True, m)) (map msg_of fs) @ [Inl e]" and "list_all (body_frame cap) fs"
    and "\<forall>t \<in> set ts. \<forall>x. wc_readPipe (rd_others (fst t) x) = wc_readPipe x" and "\<not> p_closed (wc_readPipe c)"
  shows "\<exists>c'. wsConn_readLoop ts c = Returns c' \<and> p_buf (wc_readPipe c') = p_buf (wc_readPipe c) @ data_of fs"
  using assms
proof (induction fs arbitrary: ts c)
  case Nil
  then show ?case by (auto simp: Let_def)
next
  case (Cons f fs)
  obtain t k ts' where ts: "ts = (t, k) # ts'" "rd_msg t = Inr (True, msg_of f)" "map (\<lambda>x. rd_msg (fst x)) ts' = map (\<lambda>m. Inr (True, m)) (map msg_of fs) @ [Inl e]"
    using Cons.prems(1) by (cases ts) (auto simp: comp_def)
  let ?c0 = "rd_others t c"
  have o: "wc_readPipe ?c0 = wc_readPipe c" using Cons.prems(3) ts(1) by simp
  obtain c1 where c1: "wsConn_readLoop ts c = wsConn_readLoop ts' c1" "\<not> p_closed (wc_readPipe c1)"
      "p_buf (wc_readPipe c1) = p_buf (wc_readPipe c) @ data_of [f]"
  proof (cases "f = (frameHeartbeat, [])")
    case True
    then show ?thesis using ts(1,2) o Cons.prems(4) by (intro that [of ?c0]) (simp_all add: Let_def frame_type_defs)
  next
    case False
    then have f: "fst f = frameData" "snd f \<noteq> []" using Cons.prems(2) by (auto simp: body_frame_def)
    obtain n l p where w: "Write (wc_readPipe c) (snd f) = (Inr n, l, p)"
      using Cons.prems(4) Write_result [of "wc_readPipe c" "snd f"] by (cases "Write (wc_readPipe c) (snd f)") auto
    have "p_buf p = p_buf (wc_readPipe c) @ snd f" "\<not> p_closed p"
      using Write_buf [of "wc_readPipe c" "snd f"] Write_frame(1) [of "wc_readPipe c" "snd f"] Cons.prems(4) w by simp_all
    then show ?thesis using f ts(1,2) o w by (intro that [of "?c0\<lparr>wc_readPipe := p\<rparr>"]) (simp_all add: Let_def case_prod_beta)
  qed
  have "\<exists>c'. wsConn_readLoop ts' c1 = Returns c' \<and> p_buf (wc_readPipe c') = p_buf (wc_readPipe c1) @ data_of fs"
    by (rule Cons.IH) (use ts(1,3) Cons.prems(2,3) c1(2) in simp_all)
  then show ?case using c1(1,3) by auto
qed

section \<open>Lemmas on the numbered pump\<close>

text \<open>What a turn writes is a part, from the front, of the frames the turn of a streamed response writes.\<close>

text \<open>The part of a turn after the acknowledgement: what it writes, and the message it is.\<close>

definition emit :: "error + u64 \<times> bytes \<Rightarrow> wsock \<Rightarrow> error option \<times> wsock" where
  "emit res v =
     (case res of
        Inr (off, d) \<Rightarrow> if d \<noteq> [] then ws_Write v (wsEncodeSeq off d) else ws_Write v (wsEncode frameHeartbeat [])
      | Inl e \<Rightarrow> if e = ErrPipeInterrupted then (None, v) else ws_Write v (wsEncode frameHeartbeat []))"

lemma emit_frames:
  obtains k e w1 where "emit res v = (e, w1)" "ws_sent w1 = ws_sent v @ map msg_of (take k (turn_frames None res))"
    "ws_room w1 = None \<longleftrightarrow> ws_room v = None" "e = None \<longrightarrow> take k (turn_frames None res) = turn_frames None res"
    "ws_room v = None \<longrightarrow> take k (turn_frames None res) = turn_frames None res"
proof (cases "turn_frames None res = []")
  case True
  then have "emit res v = (None, v)" by (auto simp: emit_def turn_frames_def split: sum.splits prod.splits if_splits)
  then show ?thesis using True by (intro that [of None v 0]) simp_all
next
  case False
  then obtain f where f: "turn_frames None res = [f]" by (auto simp: turn_frames_def split: sum.splits prod.splits if_splits)
  then have eq: "emit res v = ws_Write v (msg_of f)"
    by (auto simp: emit_def turn_frames_def msg_of_simps split: sum.splits prod.splits if_splits)
  show ?thesis
  proof (cases rule: ws_Write_result [of v "msg_of f"])
    case (sent w1)
    then show ?thesis using eq by (intro that [of None w1 1]) (simp_all add: f)
  next
    case fails
    then show ?thesis using eq by (intro that [of "Some ErrNet" v 0]) auto
  qed
qed

lemma ws_write_turn_frames:
  obtains k e w1 where "ws_write_turn w due res = (e, w1)" "ws_sent w1 = ws_sent w @ map msg_of (take k (turn_frames due res))"
    "ws_room w1 = None \<longleftrightarrow> ws_room w = None" "e = None \<longrightarrow> take k (turn_frames due res) = turn_frames due res"
    "ws_room w = None \<longrightarrow> seqs_of (take k (turn_frames due res)) = turn_chunk res"
proof (cases due)
  case None
  show ?thesis
  proof (cases "\<exists>x. res = Inl x \<and> x \<noteq> ErrPipeInterrupted")
    case True
    then obtain x where x: "res = Inl x" "x \<noteq> ErrPipeInterrupted" by blast
    then have "ws_write_turn w due res = (Some x, w)" using None by (simp add: ws_write_turn_def)
    moreover have "turn_chunk res = []" using x by (simp add: turn_chunk_def)
    ultimately show ?thesis by (intro that [of "Some x" w 0]) simp_all
  next
    case False
    show ?thesis
    proof (rule emit_frames [of res w])
      fix k e w1 assume k: "emit res w = (e, w1)" "ws_sent w1 = ws_sent w @ map msg_of (take k (turn_frames None res))"
        "ws_room w1 = None \<longleftrightarrow> ws_room w = None" "e = None \<longrightarrow> take k (turn_frames None res) = turn_frames None res"
        "ws_room w = None \<longrightarrow> take k (turn_frames None res) = turn_frames None res"
      have "ws_write_turn w due res = (e, w1)" using k(1) None False by (auto simp: ws_write_turn_def emit_def split: sum.splits)
      then show ?thesis using k seqs_of_turn_frames [of due res] by (intro that [of e w1 k]) (simp_all add: None)
    qed
  qed
next
  case (Some n)
  let ?a = "(frameAck, encodeOffset n)"
  have tf: "turn_frames due res = ?a # turn_frames None res" by (simp add: turn_frames_def Some)
  show ?thesis
  proof (cases rule: ws_Write_result [of w "msg_of ?a"])
    case (sent v)
    show ?thesis
    proof (rule emit_frames [of res v])
      fix k e w1 assume k: "emit res v = (e, w1)" "ws_sent w1 = ws_sent v @ map msg_of (take k (turn_frames None res))"
        "ws_room w1 = None \<longleftrightarrow> ws_room v = None" "e = None \<longrightarrow> take k (turn_frames None res) = turn_frames None res"
        "ws_room v = None \<longrightarrow> take k (turn_frames None res) = turn_frames None res"
      have "ws_write_turn w due res = (e, w1)" using k(1) sent(1) Some by (simp add: ws_write_turn_def emit_def msg_of_simps(1))
      then show ?thesis using k sent(2,3) seqs_of_turn_frames [of due res] by (intro that [of e w1 "Suc k"]) (simp_all add: tf)
    qed
  next
    case fails
    then have "ws_write_turn w due res = (Some ErrNet, w)" using Some by (simp add: ws_write_turn_def msg_of_simps(1))
    then show ?thesis using fails(2) by (intro that [of "Some ErrNet" w 0]) auto
  qed
qed

lemma ws_out_turn:
  assumes "rt_before t st = (r0, out0)"
  shows "nextOut cap r0 (rt_meanwhile t) out0 (rt_wait t) = Sleeps \<Longrightarrow> ws_out_loop stop cap (t # ts) st w = Sleeps"
    and "nextOut cap r0 (rt_meanwhile t) out0 (rt_wait t) = Panics \<Longrightarrow> ws_out_loop stop cap (t # ts) st w = Panics"
    and "nextOut cap r0 (rt_meanwhile t) out0 (rt_wait t) = Returns (res, r1, out1) \<Longrightarrow>
       ws_out_loop stop cap (t # ts) st w =
       (if res = Inl EOF then Returns (EOF, (r1, out1), w)
        else if res = Inl ErrPipeInterrupted \<and> stop t \<noteq> None then Returns (the (stop t), (r1, out1), w)
        else case ws_write_turn w (fst (takeAck (rt_then t r1))) res of
               (Some e, w1) \<Rightarrow> Returns (e, (snd (takeAck (rt_then t r1)), out1), w1)
             | (None, w1) \<Rightarrow> ws_out_loop stop cap ts (snd (takeAck (rt_then t r1)), out1) w1)"
  using assms by (auto simp: case_prod_beta)

declare ws_out_loop.simps(2) [simp del]

text \<open>
  The pump never panics, and whatever it has written when it ends, cut off or not, continues the
  numbering of the layer.
\<close>

lemma ws_out_numbered:
  assumes "rel_inv r" and "\<forall>t \<in> set ts. calm_turn R t" and "cap > 0" and "unat (sendOffset r) + length ts * cap < 2 ^ 64"
    and "reflp R" and "transp R"
  shows "safely (\<lambda>(e, (r', p), w'). rel_inv r' \<and> unat (sendOffset r') \<le> unat (sendOffset r) + length ts * cap \<and>
     (\<exists>fs. ws_sent w' = ws_sent w @ map msg_of fs \<and> chain R (unat (sentCursor r)) (seqs_of fs) \<and>
        (ws_room w = None \<longrightarrow> R (chain_end (unat (sentCursor r)) (seqs_of fs)) (unat (sentCursor r')))))
     (ws_out_loop stop cap ts (r, out) w)"
  using assms(1,2,4)
proof (induction ts arbitrary: r out w)
  case (Cons t ts)
  obtain r0 out0 where before: "rt_before t (r, out) = (r0, out0)" by fastforce
  have calm: "calm_turn R t" and small: "unat (sendOffset r) + cap < 2 ^ 64" using Cons.prems by simp_all
  note turn = ws_out_turn [OF before, where stop = stop and cap = cap and ts = ts and w = w]
  from Cons.prems(1) calm assms(3) small assms(5,6) before show ?case
  proof (cases rule: numbered_turn)
    case sleeps
    then show ?thesis using turn(1) by simp
  next
    case (got res r1 out1)
    define r2 where "r2 = snd (takeAck (rt_then t r1))"
    define due where "due = fst (takeAck (rt_then t r1))"
    note r2 = got(5-8) [folded r2_def] and run = turn(3) [OF got(1), folded r2_def due_def]
    show ?thesis
    proof (cases "res = Inl EOF \<or> res = Inl ErrPipeInterrupted \<and> stop t \<noteq> None")
      case True
      then obtain e where "ws_out_loop stop cap (t # ts) (r, out) w = Returns (e, (r1, out1), w)" using run by auto
      moreover have "turn_chunk res = []" using True by (auto simp: turn_chunk_def)
      ultimately show ?thesis using got(2-4) by (auto intro!: exI [of _ "[]"])
    next
      case False
      obtain e w1 k where wt: "ws_write_turn w due res = (e, w1)" "ws_sent w1 = ws_sent w @ map msg_of (take k (turn_frames due res))"
          "ws_room w1 = None \<longleftrightarrow> ws_room w = None" "e = None \<longrightarrow> take k (turn_frames due res) = turn_frames due res"
          "ws_room w = None \<longrightarrow> seqs_of (take k (turn_frames due res)) = turn_chunk res"
        by (rule ws_write_turn_frames [of w due res])
      define fs where "fs = take k (turn_frames due res)"
      have run2: "ws_out_loop stop cap (t # ts) (r, out) w =
          (case e of Some e \<Rightarrow> Returns (e, (r2, out1), w1) | None \<Rightarrow> ws_out_loop stop cap ts (r2, out1) w1)"
        unfolding run wt(1) using False by (auto split: option.split)
      have part: "chain R (unat (sentCursor r)) (seqs_of fs)"
        using r2(3) chain_append [of R "unat (sentCursor r)" "seqs_of fs" "seqs_of (drop k (turn_frames due res))"]
          seqs_of_turn_frames [of due res] unfolding fs_def by (metis append_take_drop_id seqs_of_simps(3))
      have small2: "unat (sendOffset r2) + length ts * cap < 2 ^ 64" using r2(2) got(3) Cons.prems(3) by simp
      have ih: "safely (\<lambda>(e, (r', p), w'). rel_inv r' \<and> unat (sendOffset r') \<le> unat (sendOffset r2) + length ts * cap \<and>
           (\<exists>gs. ws_sent w' = ws_sent w1 @ map msg_of gs \<and> chain R (unat (sentCursor r2)) (seqs_of gs) \<and>
              (ws_room w1 = None \<longrightarrow> R (chain_end (unat (sentCursor r2)) (seqs_of gs)) (unat (sentCursor r')))))
           (ws_out_loop stop cap ts (r2, out1) w1)"
        by (rule Cons.IH [OF r2(1) _ small2]) (use Cons.prems(2) in simp)
      consider x where "e = Some x" | "e = None" "ws_out_loop stop cap ts (r2, out1) w1 = Sleeps"
        | y where "e = None" "ws_out_loop stop cap ts (r2, out1) w1 = Returns y"
        using ih by (cases e; cases "ws_out_loop stop cap ts (r2, out1) w1") auto
      then show ?thesis
      proof cases
        case 1
        then show ?thesis using run2 r2(1,2,4) got(3) wt(2,5) part by (auto intro!: exI [of _ fs] simp: fs_def)
      next
        case (3 y)
        obtain e' r' p w' where y: "y = (e', (r', p), w')" by (cases y) auto
        obtain gs where gs: "rel_inv r'" "unat (sendOffset r') \<le> unat (sendOffset r2) + length ts * cap" "ws_sent w' = ws_sent w1 @ map msg_of gs"
            "chain R (unat (sentCursor r2)) (seqs_of gs)"
            "ws_room w1 = None \<longrightarrow> R (chain_end (unat (sentCursor r2)) (seqs_of gs)) (unat (sentCursor r'))"
          using ih unfolding 3(2) y by auto
        have fs: "seqs_of fs = turn_chunk res" using wt(4) 3(1) by (simp add: fs_def seqs_of_turn_frames)
        note weak = chain_weaken [OF gs(4) r2(4) assms(6)] chain_end_weaken [OF _ r2(4) assms(6), of "seqs_of gs"]
        have "ws_sent w' = ws_sent w @ map msg_of (fs @ gs)" using gs(3) wt(2) by (simp add: fs_def)
        moreover have "chain R (unat (sentCursor r)) (seqs_of (fs @ gs))" using weak(1) part fs by (simp add: chain_append)
        moreover have "ws_room w = None \<longrightarrow> R (chain_end (unat (sentCursor r)) (seqs_of (fs @ gs))) (unat (sentCursor r'))"
          using weak(2) gs(5) wt(3) fs by simp
        moreover have "unat (sendOffset r') \<le> unat (sendOffset r) + length (t # ts) * cap" using gs(2) r2(2) got(3) by simp
        ultimately show ?thesis using run2 3 y gs(1) by (auto intro!: exI [of _ "fs @ gs"])
      qed (use run2 in simp)
    qed
  qed
qed simp

section \<open>Lemmas on the handler\<close>

text \<open>What other goroutines may do while a WebSocket is attached, and how much its writer may send.\<close>

definition ws_env_ok :: "nat \<Rightarrow> nat \<Rightarrow> nat \<Rightarrow> ws_env \<Rightarrow> bool" where
  "ws_env_ok B C cap env \<longleftrightarrow>
     session_ok B (we_between env) \<and> session_ok B (we_upgraded env) \<and> session_ok C (we_end env) \<and>
     (\<forall>t \<in> set (we_reads env). session_ok C (rd_others t) \<and> (\<forall>b m. rd_msg t = Inr (b, m) \<longrightarrow> length m < 2 ^ 64)) \<and>
     (\<forall>t \<in> set (ww_rturns (we_write env)). calm_turn (\<lambda>_ _. True) t) \<and> session_ok C (ww_finish (we_write env)) \<and>
     B + length (ww_rturns (we_write env)) * cap \<le> C \<and> C < 2 ^ 64"

lemma ws_frame_goes:
  assumes "goes B s t" and "length p < 2 ^ 64"
  shows "\<exists>e t'. ws_frame ft p t = Some (e, t') \<and> goes B s t'"
proof (cases "ft = frameSeqData \<and> s_rs t \<noteq> None \<or> ft = frameAck \<and> s_rs t \<noteq> None")
  case True
  then have rs: "s_rs s \<noteq> None" using assms(1) by (auto simp: goes_def)
  show ?thesis
  proof (cases "ft = frameSeqData")
    case True
    show ?thesis
    proof (cases "splitSeq p")
      case (Inr x)
      obtain off d where x: "x = (off, d)" by (cases x)
      then have "length d < 2 ^ 64" using splitSeq_length Inr assms(2) by (metis order.strict_trans1)
      then show ?thesis using goes_recvIn [OF assms(1) rs] True Inr x \<open>_ \<or> _\<close> by (auto simp: ws_frame_def frame_type_defs)
    qed (use True assms(1) in \<open>auto simp: ws_frame_def frame_type_defs\<close>)
  next
    case False
    then have "ft = frameAck" "s_rs t \<noteq> None" using True by auto
    then show ?thesis using goes_ack [OF assms(1) rs] assms(1)
      by (cases "decodeAck p") (auto simp: ws_frame_def frame_type_defs)
  qed
next
  case False
  then show ?thesis using assms(1) goes_writeUpstream [OF assms(1), of p] goes_markBroken [OF assms(1)]
    by (auto simp: ws_frame_def split: prod.split sum.split)
qed

text \<open>
  What a reader of frames needs of its switch: on a frame that fits, it does not panic and keeps
  what is good. Both kinds of reading loop then keep it, whatever good others do between frames.
\<close>

locale frame_steps =
  fixes step :: "frameType \<Rightarrow> bytes \<Rightarrow> 'c \<Rightarrow> (error option \<times> 'c) option" and fits :: "frameType \<Rightarrow> bytes \<Rightarrow> bool" and good :: "'c \<Rightarrow> bool"
  assumes step_good: "good c \<Longrightarrow> fits ty p \<Longrightarrow> \<exists>e c'. step ty p c = Some (e, c') \<and> good c'"
begin

lemma read_loop_good:
  assumes "\<And>k c. good c \<Longrightarrow> good (others k c)" and "good c" and "\<forall>n. \<forall>x \<in> set (fst (read_frames n f)). fits (fst x) (snd x)"
  shows "safely (\<lambda>(e, c'). good c') (read_loop others step report k f c)"
  using assms(2,3)
proof (induction "length (r_bytes (fr_r f))" arbitrary: k f c rule: less_induct)
  case less
  have here: "good (others k c)" using assms(1) less.prems(1) by blast
  obtain res f' where fr: "frameReader_next f = (res, f')" by (cases "frameReader_next f")
  show ?case
  proof (cases res)
    case (Inl e)
    then show ?thesis using fr here by (subst read_loop.simps) simp
  next
    case (Inr x)
    note read = fr [unfolded Inr]
    have "fst (read_frames (Suc n) f) = x # fst (read_frames n f')" for n using read by (simp add: case_prod_beta)
    then have fit: "fits (fst x) (snd x)" and rest: "\<forall>n. \<forall>y \<in> set (fst (read_frames n f')). fits (fst y) (snd y)"
      using less.prems(2) by (metis list.set_intros)+
    obtain e c1 where st: "step (fst x) (snd x) (others k c) = Some (e, c1)" "good c1" using step_good [OF here fit] by blast
    then show ?thesis using read less.hyps [OF next_consumes [OF read] st(2) rest, of "Suc k"]
      by (cases e) (subst read_loop.simps, simp add: case_prod_beta)+
  qed
qed

lemma ws_read_loop_good:
  assumes "good c" and "\<forall>x \<in> set ts. (\<forall>c. good c \<longrightarrow> good (rd_others x c)) \<and> (\<forall>ty p. rd_msg x = Inr (True, ty # p) \<longrightarrow> fits ty p)"
  shows "safely (\<lambda>(e, c'). good c') (ws_read_loop step ts c)"
  using assms
proof (induction ts arbitrary: c)
  case (Cons x ts)
  have here: "good (rd_others x c)" using Cons.prems by simp
  note ih = Cons.IH
  show ?case
  proof (cases "rd_msg x")
    case (Inl e)
    then show ?thesis using here by simp
  next
    case (Inr y)
    obtain b m where y: "y = (b, m)" by (cases y)
    show ?thesis
    proof (cases "b \<and> m \<noteq> []")
      case True
      then obtain ft p where m: "m = ft # p" by (cases m) auto
      then have "fits ft p" using Cons.prems(2) Inr y True by simp
      then obtain e c' where e: "step ft p (rd_others x c) = Some (e, c')" "good c'" using step_good [OF here] by blast
      then show ?thesis using Inr y True m ih [OF e(2)] Cons.prems(2) by (cases e) (simp_all add: wsDecode_def)
    qed (use Inr y here ih [OF here] Cons.prems(2) in \<open>auto simp: wsDecode_def Let_def\<close>)
  qed
qed simp

end

text \<open>A switch that takes every frame there can be.\<close>

lemma frames_small: "x \<in> set (fst (read_frames n f)) \<Longrightarrow> length (snd x) < (2 :: nat) ^ 64"
proof (induction n arbitrary: f)
  case (Suc n)
  show ?case
  proof (cases "frameReader_next f")
    case (Pair res f')
    show ?thesis
    proof (cases res)
      case (Inr y)
      have "length (snd y) < 2 ^ 64" using payload_small [of f "fst y" "snd y" f'] Pair Inr by simp
      then show ?thesis using Suc Pair Inr by (auto simp: case_prod_beta)
    qed (use Suc.prems Pair in simp)
  qed
qed simp

locale any_frame = frame_steps step "\<lambda>_ p. length p < 2 ^ 64" good
  for step :: "frameType \<Rightarrow> bytes \<Rightarrow> 'c \<Rightarrow> (error option \<times> 'c) option" and good :: "'c \<Rightarrow> bool"
begin

lemma read_loop_safe:
  assumes "\<And>k c. good c \<Longrightarrow> good (others k c)" and "good c"
  shows "safely (\<lambda>(e, c'). good c') (read_loop others step report k f c)"
  by (rule read_loop_good [OF assms]) (assumption, intro allI ballI, rule frames_small)

lemma ws_read_loop_safe:
  assumes "good c" and "\<forall>x \<in> set ts. (\<forall>c. good c \<longrightarrow> good (rd_others x c)) \<and> (\<forall>b m. rd_msg x = Inr (b, m) \<longrightarrow> length m < 2 ^ 64)"
  shows "safely (\<lambda>(e, c'). good c') (ws_read_loop step ts c)"
  by (rule ws_read_loop_good [OF assms(1)]) (use assms(2) in fastforce)

end

interpretation session_frames: any_frame ws_frame "goes B s" for B s
  by unfold_locales (rule ws_frame_goes)

lemma wsReadPump_safe:
  assumes "goes C s t" and "\<forall>x \<in> set ts. session_ok C (rd_others x) \<and> (\<forall>b m. rd_msg x = Inr (b, m) \<longrightarrow> length m < 2 ^ 64)"
  shows "safely (\<lambda>(e, t'). goes C s t') (wsReadPump ts t)"
  unfolding wsReadPump_def
  by (rule session_frames.ws_read_loop_safe [OF assms(1)]) (use assms(2) session_okD in blast)

lemma any_order: "reflp (\<lambda>(_ :: nat) (_ :: nat). True)" "transp (\<lambda>(_ :: nat) (_ :: nat). True)"
  by (simp_all add: reflp_def transp_def)

lemma wsWritePump_safe:
  assumes "goes B s t" and "\<forall>x \<in> set (ww_rturns env). calm_turn (\<lambda>_ _. True) x" and "session_ok C (ww_finish env)"
    and "B + length (ww_rturns env) * cap \<le> C" and "C < 2 ^ 64" and "cap > 0"
  shows "safely (\<lambda>(e, t', w). goes C s t') (wsWritePump cap att env t)"
proof (cases "s_rs t")
  case None
  have "goes C s (ww_finish env (t\<lparr>toClient := p\<rparr>))" for p
    using session_okD [OF assms(3) goes_mono [OF goes_plain [OF assms(1)]], of "t\<lparr>toClient := p\<rparr>"] assms(4) by simp
  then show ?thesis using None by (auto simp: wsWritePump_def split: option.split)
next
  case (Some r)
  then have rs: "s_rs s \<noteq> None" and wf: "wf_session B t" using assms(1) by (auto simp: goes_def)
  then have r: "rel_inv r" "unat (sendOffset r) \<le> B" using wf_layer [OF wf] Some by auto
  have small: "unat (sendOffset r) + length (ww_rturns env) * cap < 2 ^ 64" using r(2) assms(4,5) by linarith
  have fin: "goes C s (ww_finish env (t\<lparr>s_rs := Some r', toClient := p\<rparr>))" if "rel_inv r'" "unat (sendOffset r') \<le> C" for r' p
  proof -
    have "goes C s t" by (rule goes_mono [OF assms(1)]) (use assms(4) in simp)
    then have "goes C s (t\<lparr>s_rs := Some r', toClient := p\<rparr>)" by (intro goes_plain [OF goes_layer [OF _ rs that]]) simp_all
    then show ?thesis by (rule session_okD [OF assms(3)])
  qed
  have "safely (\<lambda>(e, (r', p), w'). rel_inv r' \<and> unat (sendOffset r') \<le> C) (wsWritePumpResumable cap att (ww_rturns env) (r, toClient t) (ww_sock env))"
    unfolding wsWritePumpResumable_def
    by (rule safely_mono [OF ws_out_numbered [OF r(1) assms(2,6) small any_order, where w = "ww_sock env"]]) (use r(2) assms(4) in auto)
  then show ?thesis using Some fin by (auto simp: wsWritePump_def split: outcome.split)
qed

lemma ws_pumps_safe:
  assumes "goes B s t" and "ws_env_ok B C cap env" and "cap > 0"
  shows "safely (\<lambda>(e, t'). goes C s t') (ws_pumps cap att env t)"
proof -
  have bc: "B \<le> C" using assms(2) by (simp add: ws_env_ok_def)
  have rd: "safely (\<lambda>(e, t'). goes C s t') (wsReadPump (we_reads env) t)"
    by (rule wsReadPump_safe [OF goes_mono [OF assms(1) bc]]) (use assms(2) in \<open>auto simp: ws_env_ok_def\<close>)
  have wr: "safely (\<lambda>(e, t', w). goes C s t') (wsWritePump cap att (we_write env) t)"
    by (rule wsWritePump_safe [OF assms(1) _ _ _ _ assms(3)]) (use assms(2) in \<open>simp_all add: ws_env_ok_def\<close>)
  show ?thesis using rd wr
    by (cases "wsReadPump (we_reads env) t"; cases "wsWritePump cap att (we_write env) t") (auto simp: ws_pumps_def)
qed

lemma ws_attached_safe:
  assumes "goes B s t" and "ws_env_ok B C cap env" and "cap > 0"
  shows "safely (\<lambda>(ans, t'). goes C s t') (ws_attached cap att env t)"
proof (cases "beginWebSocket (we_now env) t")
  case (Pair ok t1)
  have bc: "B \<le> C" and up: "session_ok B (we_upgraded env)" and en: "session_ok C (we_end env)" using assms(2) by (simp_all add: ws_env_ok_def)
  have "goes B s (touch (we_now env) t1)"
    using Pair by (intro goes_plain [OF assms(1)]) (auto simp: beginWebSocket_def touch_def split: if_splits)
  then have t2: "goes B s (we_upgraded env (touch (we_now env) t1))" by (rule session_okD [OF up])
  define t2 where "t2 = we_upgraded env (touch (we_now env) t1)"
  have fin: "goes C s (endWebSocket (we_endTime env) (we_end env x))" if "goes C s x" for x
    by (rule goes_plain [OF session_okD [OF en that]]) (simp_all add: endWebSocket_def noteDetachedLocked_def)
  have fin2: "goes C s (endWebSocket (we_endTime env) (we_end env t2))" by (rule fin) (use goes_mono [OF t2 bc] in \<open>simp add: t2_def\<close>)
  show ?thesis
  proof (cases "ok \<and> we_accepted env")
    case False
    then show ?thesis using Pair goes_mono [OF assms(1) bc] fin2 by (auto simp: ws_attached_def Let_def t2_def split: bool.split)
  next
    case True
    show ?thesis
    proof (cases "s_rs t2")
      case None
      have "safely (\<lambda>(e, t'). goes C s t') (ws_pumps cap att env t2)"
        by (rule ws_pumps_safe [OF _ assms(2,3)]) (use t2 in \<open>simp add: t2_def\<close>)
      then show ?thesis using True None Pair fin by (auto simp: ws_attached_def Let_def t2_def split: outcome.split)
    next
      case (Some r)
      have rs: "s_rs s \<noteq> None" and wf: "wf_session B t2" using t2 Some by (auto simp: goes_def t2_def)
      obtain a where r: "rel_inv r" "unat (sendOffset r) \<le> B" "s_att t2 = Some a" using wf_layer [OF wf] Some by auto
      have "rel_inv (resetAck r)" "unat (sendOffset (resetAck r)) \<le> B" using r by (simp_all add: resetAck_def rel_inv_def)
      then have "goes B s (t2\<lparr>s_rs := Some (resetAck r)\<rparr>)" using goes_layer [OF t2 rs] by (simp add: t2_def)
      then have "safely (\<lambda>(e, t'). goes C s t') (ws_pumps cap att env (t2\<lparr>s_rs := Some (resetAck r)\<rparr>))"
        by (rule ws_pumps_safe [OF _ assms(2,3)])
      then show ?thesis using True Some Pair fin fin2 r(3) by (auto simp: ws_attached_def Let_def t2_def split: outcome.split)
    qed
  qed
qed

lemma WebSocketHandler_safe:
  assumes "wf_server B sv" and "check cfg = None" and "ws_env_ok B C (nat (cfg_PollBufferSize (withDefaults cfg))) env"
  shows "safely (\<lambda>(ans, sv'). server_goes C sv sv') (WebSocketHandler cfg ident att env sv)"
proof (cases "Get ident sv")
  case None
  have "server_goes C sv sv" by (rule server_goes_refl [OF wf_server_mono [OF assms(1)]]) (use assms(3) in \<open>simp add: ws_env_ok_def\<close>)
  then show ?thesis using None assms(2) by (simp add: WebSocketHandler_def)
next
  case (Some ref)
  let ?cap = "nat (cfg_PollBufferSize (withDefaults cfg))"
  have bc: "B \<le> C" and bt: "session_ok B (we_between env)" using assms(3) by (simp_all add: ws_env_ok_def)
  have same: "server_goes C sv sv" by (rule server_goes_refl [OF wf_server_mono [OF assms(1) bc]])
  have ref: "ref < length (heap sv)" by (rule Get_ref [OF assms(1) Some])
  define s where "s = sess sv ref"
  have wf: "wf_session B s" using wf_sess [OF assms(1) ref] by (simp add: s_def)
  have put: "server_goes C sv (upd ref (\<lambda>_. t) sv)" if "goes C s t" for t
    by (rule server_goes_upd [OF same ref]) (use that in \<open>simp_all add: s_def\<close>)
  show ?thesis
  proof (cases "s_rs s = None")
    case True
    have "safely (\<lambda>(ans, t'). goes C s t') (ws_attached ?cap att env (we_between env s))"
      by (rule ws_attached_safe [OF session_okD [OF bt goes_refl [OF wf]] assms(3) buffer_positive])
    then show ?thesis using Some True same put assms(2) by (auto simp: WebSocketHandler_def Let_def s_def split: outcome.split)
  next
    case False
    obtain a where a: "s_att s = Some a" using wf_layer [OF wf False] by blast
    have go: "goes B s (s\<lparr>s_att := Some a'\<rparr>)" for a' by (rule goes_att [OF goes_refl [OF wf] False])
    have "safely (\<lambda>(ans, t'). goes C s t') (ws_attached ?cap att env (we_between env (s\<lparr>s_att := Some a'\<rparr>)))" for a'
      by (rule ws_attached_safe [OF session_okD [OF bt go] assms(3) buffer_positive])
    note run = this
    have no: "server_goes C sv (upd ref (\<lambda>s. s\<lparr>s_att := Some a'\<rparr>) sv)" for a'
      by (rule server_goes_upd [OF same ref]) (use goes_mono [OF go bc] in \<open>simp_all add: s_def\<close>)
    show ?thesis
    proof (cases "attach attachBoth att a (we_attach env)")
      case None
      then show ?thesis using Some False a same assms(2) by (auto simp: WebSocketHandler_def Let_def s_def)
    next
      case (Some x)
      obtain e a' where x: "x = (e, a')" by (cases x)
      show ?thesis
      proof (cases e)
        case None
        show ?thesis using run [of a'] put goes_detach Some x None \<open>Get ident sv = Some ref\<close> False a same assms(2)
          by (auto simp: WebSocketHandler_def Let_def s_def split: outcome.split)
      next
        case (Some y)
        then show ?thesis using \<open>attach attachBoth att a (we_attach env) = Some x\<close> x \<open>Get ident sv = Some ref\<close> False a same no assms(2)
          by (auto simp: WebSocketHandler_def Let_def s_def)
      qed
    qed
  qed
qed

text \<open>The attachment count: nobody else touches it while the handler has the session.\<close>

definition leaves_count :: "(session \<Rightarrow> session) \<Rightarrow> bool" where
  "leaves_count f \<longleftrightarrow> (\<forall>s. wsAttached (f s) = wsAttached s \<and> pollInFlight (f s) = pollInFlight s)"

definition counts_alone :: "ws_env \<Rightarrow> bool" where
  "counts_alone env \<longleftrightarrow>
     leaves_count (we_between env) \<and> leaves_count (we_upgraded env) \<and> leaves_count (we_end env) \<and>
     leaves_count (ww_finish (we_write env)) \<and> (\<forall>t \<in> set (we_reads env). leaves_count (rd_others t))"

lemma ws_frame_count: "ws_frame ft p s = Some (e, s') \<Longrightarrow> wsAttached s' = wsAttached s \<and> pollInFlight s' = pollInFlight s"
  by (auto simp: ws_frame_def rs_markBroken_def writeUpstream_def rs_recvIn_def rs_ack_def split: if_splits sum.splits prod.splits option.splits)

lemma wsReadPump_count:
  assumes "wsReadPump ts s = Returns (e, s')" and "\<forall>t \<in> set ts. leaves_count (rd_others t)"
  shows "wsAttached s' = wsAttached s \<and> pollInFlight s' = pollInFlight s"
  using assms
proof (induction ts arbitrary: s)
  case (Cons t ts)
  have t: "wsAttached (rd_others t s) = wsAttached s" "pollInFlight (rd_others t s) = pollInFlight s"
    using Cons.prems(2) by (simp_all add: leaves_count_def)
  have ih: "wsReadPump ts x = Returns (e, s') \<Longrightarrow> wsAttached s' = wsAttached x \<and> pollInFlight s' = pollInFlight x" for x
    using Cons.IH Cons.prems(2) by simp
  note ih = ih [unfolded wsReadPump_def] and run = Cons.prems(1) [unfolded wsReadPump_def ws_read_loop.simps Let_def]
  show ?case
  proof (cases "rd_msg t")
    case (Inl x)
    then show ?thesis using run t by simp
  next
    case (Inr y)
    obtain b m where y: "y = (b, m)" by (cases y)
    show ?thesis
    proof (cases "b \<and> m \<noteq> []")
      case True
      then obtain ft p where m: "m = ft # p" by (cases m) auto
      obtain e1 s1 where f: "ws_frame ft p (rd_others t s) = Some (e1, s1)"
        using run Inr y True m by (cases "ws_frame ft p (rd_others t s)") (auto simp: wsDecode_def)
      then show ?thesis using run Inr y True m t ws_frame_count [OF f] ih [of s1] by (cases e1) (simp_all add: wsDecode_def)
    next
      case False
      then show ?thesis using run Inr y t ih [of "rd_others t s"] by (cases b) (simp_all add: wsDecode_def)
    qed
  qed
qed (simp add: wsReadPump_def)

lemma wsWritePump_count:
  assumes "wsWritePump cap att env s = Returns (e, s', w)" and "leaves_count (ww_finish env)"
  shows "wsAttached s' = wsAttached s \<and> pollInFlight s' = pollInFlight s"
proof -
  have fin: "wsAttached (ww_finish env x) = wsAttached x" "pollInFlight (ww_finish env x) = pollInFlight x" for x
    using assms(2) by (simp_all add: leaves_count_def)
  show ?thesis
  proof (cases "s_rs s")
    case None
    obtain e1 p w1 where "ws_drain cap (ww_turns env) (toClient s) (ww_sock env) = Some (e1, p, w1)"
      using assms(1) None by (cases "ws_drain cap (ww_turns env) (toClient s) (ww_sock env)") (simp_all add: wsWritePump_def split_paired_all)
    then have "s' = ww_finish env (s\<lparr>toClient := p\<rparr>)" using assms(1) None by (simp add: wsWritePump_def)
    then show ?thesis by (simp add: fin)
  next
    case (Some r)
    obtain e1 r1 p w1 where "wsWritePumpResumable cap att (ww_rturns env) (r, toClient s) (ww_sock env) = Returns (e1, (r1, p), w1)"
      using assms(1) Some by (cases "wsWritePumpResumable cap att (ww_rturns env) (r, toClient s) (ww_sock env)") (simp_all add: wsWritePump_def split_paired_all)
    then have "s' = ww_finish env (s\<lparr>s_rs := Some r1, toClient := p\<rparr>)" using assms(1) Some by (simp add: wsWritePump_def)
    then show ?thesis by (simp add: fin)
  qed
qed

lemma ws_pumps_count:
  assumes "ws_pumps cap att env s = Returns (e, s')" and "counts_alone env"
  shows "wsAttached s' = wsAttached s \<and> pollInFlight s' = pollInFlight s"
proof (cases "wsReadPump (we_reads env) s")
  case (Returns x)
  obtain e1 s1 where x: "x = (e1, s1)" by (cases x)
  note rd = wsReadPump_count [OF Returns [unfolded x]]
  show ?thesis
  proof (cases "wsWritePump cap att (we_write env) s")
    case (Returns y)
    obtain e2 s2 w where y: "y = (e2, s2, w)" by (cases y)
    note wr = wsWritePump_count [OF Returns [unfolded y]]
    show ?thesis using assms rd wr \<open>wsReadPump _ s = _\<close> Returns x y by (auto simp: ws_pumps_def counts_alone_def split: if_splits)
  qed (use assms(1) Returns x in \<open>simp_all add: ws_pumps_def\<close>)
qed (use assms(1) in \<open>simp_all add: ws_pumps_def\<close>)

lemma ws_attached_count:
  assumes "ws_attached cap att env s = Returns (ans, s')" and "counts_alone env"
  shows "pollInFlight s' = pollInFlight s \<and>
    (case ans of
       Refused resp \<Rightarrow> s' = s \<and> (s_closed s \<or> wsAttached s \<or> resumeExpiredLocked (we_now env) s) \<and>
         resp = writeError (if refusesAttach (we_later env) s then 410 else 409)
     | _ \<Rightarrow> \<not> s_closed s \<and> \<not> wsAttached s \<and> \<not> resumeExpiredLocked (we_now env) s \<and> \<not> wsAttached s')"
proof (cases "s_closed s \<or> wsAttached s \<or> resumeExpiredLocked (we_now env) s")
  case True
  then show ?thesis using assms(1) by (auto simp: ws_attached_def beginWebSocket_def)
next
  case False
  define t where "t = we_upgraded env (touch (we_now env) (s\<lparr>wsAttached := True, pollInFlight := pollInFlight s + 1\<rparr>))"
  have t: "pollInFlight t = pollInFlight s + 1" using assms(2) by (simp add: t_def counts_alone_def leaves_count_def touch_def)
  have b: "beginWebSocket (we_now env) s = (True, s\<lparr>wsAttached := True, pollInFlight := pollInFlight s + 1\<rparr>)"
    using False by (simp add: beginWebSocket_def)
  have fin: "pollInFlight (endWebSocket (we_endTime env) (we_end env x)) = pollInFlight s \<and> \<not> wsAttached (endWebSocket (we_endTime env) (we_end env x))"
    if "pollInFlight x = pollInFlight s + 1" for x
    using assms(2) that by (simp add: counts_alone_def leaves_count_def endWebSocket_def noteDetachedLocked_def)
  have "\<exists>x. s' = endWebSocket (we_endTime env) (we_end env x) \<and> pollInFlight x = pollInFlight s + 1 \<and> (\<forall>resp. ans \<noteq> Refused resp)"
  proof (cases "we_accepted env")
    case True
    have pumps: "\<exists>x. s' = endWebSocket (we_endTime env) (we_end env x) \<and> pollInFlight x = pollInFlight s + 1 \<and> (\<forall>resp. ans \<noteq> Refused resp)"
      if run: "(case ws_pumps cap att env u of Panics \<Rightarrow> Panics | Sleeps \<Rightarrow> Sleeps
            | Returns (e, s3) \<Rightarrow> Returns (Attached e, endWebSocket (we_endTime env) (we_end env s3))) = Returns (ans, s')"
        and u: "pollInFlight u = pollInFlight s + 1" for u
    proof (cases "ws_pumps cap att env u")
      case (Returns y)
      obtain e s3 where y: "y = (e, s3)" by (cases y)
      then show ?thesis using run u Returns ws_pumps_count [OF Returns [unfolded y] assms(2)] by auto
    qed (use run in simp_all)
    note run = assms(1) [unfolded ws_attached_def b prod.case bool.case Let_def t_def [symmetric]]
    show ?thesis
    proof (cases "s_rs t")
      case None
      then show ?thesis using pumps [OF _ t] run True by simp
    next
      case (Some r)
      then obtain a where a: "s_att t = Some a" using run True by (cases "s_att t") simp_all
      show ?thesis
      proof (cases "isCurrent att a")
        case True
        have "pollInFlight (t\<lparr>s_rs := Some (resetAck r)\<rparr>) = pollInFlight s + 1" using t by simp
        then show ?thesis by (rule pumps [rotated]) (use run \<open>we_accepted env\<close> Some a True in simp)
      qed (use run \<open>we_accepted env\<close> Some a t in auto)
    qed
  qed (use assms(1) [unfolded ws_attached_def b prod.case bool.case Let_def t_def [symmetric]] t in auto)
  then show ?thesis using fin False by (auto split: ws_answer.split)
qed

text \<open>What the whole handler answers, and what it leaves of the attachment of the session it found.\<close>

definition ws_result :: "string \<Rightarrow> server \<Rightarrow> ws_answer \<Rightarrow> server \<Rightarrow> bool" where
  "ws_result ident sv ans sv' \<longleftrightarrow>
     (case Get ident sv of
        None \<Rightarrow> ans = Refused (writeError 404) \<and> sv' = sv
      | Some ref \<Rightarrow>
          if s_transport (sess sv ref) \<noteq> TransportWebSocket then ans = Refused (writeError 400) \<and> sv' = sv
          else pollInFlight (sess sv' ref) = pollInFlight (sess sv ref) \<and>
            (case ans of
               Refused resp \<Rightarrow> wsAttached (sess sv' ref) = wsAttached (sess sv ref) \<and>
                 (resp = writeError 503 \<and> s_rs (sess sv ref) \<noteq> None \<or> resp = writeError 410 \<or> resp = writeError 409)
             | _ \<Rightarrow> \<not> wsAttached (sess sv ref) \<and> \<not> wsAttached (sess sv' ref)))"

lemma counts_alone_between: "counts_alone env \<Longrightarrow> wsAttached (we_between env s) = wsAttached s \<and> pollInFlight (we_between env s) = pollInFlight s"
  by (simp add: counts_alone_def leaves_count_def)

lemma ws_attached_result:
  assumes "ws_attached cap att env s = Returns (ans, s')" and "counts_alone env"
  shows "pollInFlight s' = pollInFlight s"
    and "(\<exists>resp. ans = Refused resp \<and> wsAttached s' = wsAttached s \<and> (resp = writeError 410 \<or> resp = writeError 409)) \<or>
       (\<forall>resp. ans \<noteq> Refused resp) \<and> \<not> wsAttached s \<and> \<not> wsAttached s'"
  using ws_attached_count [OF assms] by (auto split: ws_answer.splits)

lemma ws_result_attached:
  assumes "ws_attached cap att env (we_between env s) = Returns (ans, s')" and "counts_alone env" and "Get ident sv = Some ref"
    and "ref < length (heap sv)" and "s_transport (sess sv ref) = TransportWebSocket"
    and "wsAttached s = wsAttached (sess sv ref)" and "pollInFlight s = pollInFlight (sess sv ref)"
    and "wsAttached s'' = wsAttached s'" and "pollInFlight s'' = pollInFlight s'"
  shows "ws_result ident sv ans (upd ref (\<lambda>_. s'') sv)"
proof -
  note r = ws_attached_result [OF assms(1,2)] counts_alone_between [OF assms(2), of s]
  have here: "sess (upd ref (\<lambda>_. s'') sv) ref = s''" using assms(4) by (simp add: sess_upd)
  from r(2) show ?thesis
  proof (elim disjE exE conjE)
    fix resp assume "ans = Refused resp" "wsAttached s' = wsAttached (we_between env s)" "resp = writeError 410"
    then show ?thesis using r assms here by (simp add: ws_result_def)
  next
    fix resp assume "ans = Refused resp" "wsAttached s' = wsAttached (we_between env s)" "resp = writeError 409"
    then show ?thesis using r assms here by (simp add: ws_result_def)
  next
    assume "\<forall>resp. ans \<noteq> Refused resp" "\<not> wsAttached (we_between env s)" "\<not> wsAttached s'"
    then show ?thesis using r assms here by (cases ans) (simp_all add: ws_result_def)
  qed
qed

lemma WebSocketHandler_result:
  assumes "WebSocketHandler cfg ident att env sv = Returns (ans, sv')" and "wf_server B sv" and "check cfg = None" and "counts_alone env"
  shows "ws_result ident sv ans sv'"
proof (cases "Get ident sv")
  case None
  then show ?thesis using assms(1,3) by (simp add: WebSocketHandler_def ws_result_def)
next
  case (Some ref)
  note get = this
  have ref: "ref < length (heap sv)" by (rule Get_ref [OF assms(2) Some])
  define s where "s = sess sv ref"
  show ?thesis
  proof (cases "s_transport s = TransportWebSocket")
    case False
    then show ?thesis using assms(1,3) Some by (simp add: WebSocketHandler_def ws_result_def Let_def s_def)
  next
    case True
    note run = assms(1) [unfolded WebSocketHandler_def Let_def Some option.case s_def [symmetric]]
    show ?thesis
    proof (cases "s_rs s")
      case None
      obtain s' where a: "ws_attached (nat (cfg_PollBufferSize (withDefaults cfg))) att env (we_between env s) = Returns (ans, s')"
          "sv' = upd ref (\<lambda>_. s') sv"
        using run assms(3) True None by (auto split: outcome.splits)
      show ?thesis unfolding a(2) by (rule ws_result_attached [OF a(1) assms(4) get ref]) (use True in \<open>simp_all add: s_def\<close>)
    next
      case (Some r)
      obtain a where att: "s_att s = Some a" using run assms(3) True Some by (cases "s_att s") simp_all
      obtain e a' where at: "attach attachBoth att a (we_attach env) = Some (e, a')"
        using run assms(3) True Some att by (cases "attach attachBoth att a (we_attach env)") auto
      show ?thesis
      proof (cases e)
        case None
        obtain s' where x: "ws_attached (nat (cfg_PollBufferSize (withDefaults cfg))) att env (we_between env (s\<lparr>s_att := Some a'\<rparr>)) = Returns (ans, s')"
            "sv' = upd ref (\<lambda>_. detach_session att s') sv"
          using run assms(3) True Some att at None by (auto split: outcome.splits)
        show ?thesis unfolding x(2)
          by (rule ws_result_attached [OF x(1) assms(4) get ref]) (use True in \<open>simp_all add: s_def detach_session_def split: option.split\<close>)
      next
        case (Some y)
        then show ?thesis using run assms(3) True \<open>s_rs s = Some r\<close> att at get ref by (auto simp: ws_result_def sess_upd s_def)
      qed
    qed
  qed
qed

section \<open>Properties\<close>

text \<open>
  Messages survive the encoding. A message decodes to a type and a payload exactly if it is
  their encoding, only the empty one does not decode, and a numbered message decodes to its
  offset and its data. So do the offsets that acknowledgements carry.
\<close>

lemma ws_roundtrip:
  "(wsDecode m = Inr (ty, q) \<longleftrightarrow> m = wsEncode ty q) \<and> (wsDecode m = Inl ErrEmptyMessage \<longleftrightarrow> m = []) \<and>
   (\<exists>body. wsDecode (wsEncodeSeq off d) = Inr (frameSeqData, body) \<and> splitSeq body = Inr (off, d)) \<and>
   (\<exists>body. wsDecode (wsEncode frameAck (encodeOffset n)) = Inr (frameAck, body) \<and> decodeAck body = Inr n)"
  by (auto simp: wsDecode_def wsEncode_def wsEncodeSeq_def splitSeq_def decodeAck_def encodeOffset_def be64.enc_length be64.dec_enc be64.dec_enc_exact split: list.split)

text \<open>
  C26: What the client writes arrives. Let the client's write loop have ended, and let the server
  read the first \<open>n\<close> of its messages before its connection fails. Then the server's side of the
  session gets the bytes the client wrote, in order and each once, up to some point: if it read
  every message, all but those of a write that failed and those left in the pipe, and nothing is
  missing when no write failed. If the client's frames are at most \<open>MaxSendBytes\<close> long, no
  message exceeds the server's read limit.
\<close>

theorem ws_upload_arrives:
  assumes "wsConn_writeLoop (map snd xs) c w = Returns (c', w')" and "\<forall>(evs, t) \<in> set xs. pipe_turn evs t" and "ws_sent w = []"
    and "wc_maxFrame c \<le> cfg_MaxSendBytes cfg" and "0 < wc_maxFrame c"
    and "map rd_msg ts = map (\<lambda>m. Inr (True, m)) (take n (ws_sent w')) @ [Inl e]"
    and "\<forall>t \<in> set ts. \<forall>x. toServer (rd_others t x) = toServer x \<and> s_rs (rd_others t x) = s_rs x"
    and "s_rs s = None" and "\<not> p_closed (toServer s)"
  shows "(\<forall>m \<in> set (ws_sent w'). int (length m) \<le> server_read_limit cfg) \<and>
    (\<exists>s' got rest. wsReadPump ts s = Returns (e, s') \<and> p_buf (toServer s') = p_buf (toServer s) @ got \<and>
       p_buf (wc_writePipe c) @ drain_in (nat (wc_maxFrame c)) (map as_pump xs) (wc_writePipe c) w = got @ rest \<and>
       (length (ws_sent w') \<le> n \<longrightarrow>
          (\<exists>lost. rest = lost @ p_buf (wc_writePipe c') \<and> length lost \<le> nat (wc_maxFrame c) \<and> (ws_room w = None \<longrightarrow> rest = []))))"
proof -
  obtain e0 where "ws_drain (nat (wc_maxFrame c)) (map as_pump xs) (wc_writePipe c) w = Some (e0, wc_writePipe c', w')"
    using writeLoop_drain [OF assms(1,2)] by blast
  from drain_arrives [OF this assms(3)] obtain fs lost where fs: "ws_sent w' = map msg_of fs" "list_all (body_frame (nat (wc_maxFrame c))) fs"
      "\<forall>m \<in> set (ws_sent w'). length m \<le> Suc (nat (wc_maxFrame c))"
      "\<forall>k. p_buf (wc_writePipe c) @ drain_in (nat (wc_maxFrame c)) (map as_pump xs) (wc_writePipe c) w =
         data_of (take k fs) @ data_of (drop k fs) @ lost @ p_buf (wc_writePipe c')"
      "length lost \<le> nat (wc_maxFrame c)" "ws_room w = None \<longrightarrow> lost = [] \<and> p_buf (wc_writePipe c') = []" by (elim exE conjE) (rule that)
  have "list_all (body_frame (nat (wc_maxFrame c))) (take n fs)" using fs(2) by (metis append_take_drop_id list_all_append)
  then obtain s' where s': "wsReadPump ts s = Returns (e, s')" "p_buf (toServer s') = p_buf (toServer s) @ data_of (take n fs)"
    using read_pump_plain [of ts "take n fs" e "nat (wc_maxFrame c)" s] assms(6-9) fs(1) by (auto simp: take_map)
  have "\<forall>m \<in> set (ws_sent w'). int (length m) \<le> server_read_limit cfg"
    using fs(3) assms(4,5) by (fastforce simp: server_read_limit_def)
  moreover have "length (ws_sent w') \<le> n \<longrightarrow> data_of (drop n fs) = []" using fs(1) by simp
  ultimately show ?thesis using s' spec [OF fs(4), of n] fs(5,6)
    by (intro conjI exI [of _ s'] exI [of _ "data_of (take n fs)"] exI [of _ "data_of (drop n fs) @ lost @ p_buf (wc_writePipe c')"]) simp_all
qed

text \<open>
  C27: What the server writes arrives. Let the write pump of a plain session have ended, and let
  the client read the first \<open>n\<close> of its messages before its connection fails. Then the client's
  pipe gets the bytes the session was given, in order and each once, up to some point: if it read
  every message, all but those of a write that failed and those left in the session. No message
  exceeds the client's read limit.
\<close>

theorem ws_download_arrives:
  assumes "wsWritePump (nat (wc_maxFrame c)) att env s = Returns (e0, s', w')" and "s_rs s = None" and "ws_sent (ww_sock env) = []"
    and "\<forall>x. toClient (ww_finish env x) = toClient x" and "0 < wc_maxFrame c"
    and "map (\<lambda>x. rd_msg (fst x)) ts = map (\<lambda>m. Inr (True, m)) (take n (ws_sent w')) @ [Inl e]"
    and "\<forall>t \<in> set ts. \<forall>x. wc_readPipe (rd_others (fst t) x) = wc_readPipe x" and "\<not> p_closed (wc_readPipe c)"
  shows "(\<forall>m \<in> set (ws_sent w'). int (length m) \<le> client_read_limit c) \<and>
    (\<exists>c' got rest. wsConn_readLoop ts c = Returns c' \<and> p_buf (wc_readPipe c') = p_buf (wc_readPipe c) @ got \<and>
       p_buf (toClient s) @ drain_in (nat (wc_maxFrame c)) (ww_turns env) (toClient s) (ww_sock env) = got @ rest \<and>
       (length (ws_sent w') \<le> n \<longrightarrow>
          (\<exists>lost. rest = lost @ p_buf (toClient s') \<and> length lost \<le> nat (wc_maxFrame c) \<and> (ws_room (ww_sock env) = None \<longrightarrow> rest = []))))"
proof -
  obtain e1 p w1 where d0: "ws_drain (nat (wc_maxFrame c)) (ww_turns env) (toClient s) (ww_sock env) = Some (e1, p, w1)"
    using assms(1,2)
    by (cases "ws_drain (nat (wc_maxFrame c)) (ww_turns env) (toClient s) (ww_sock env)") (simp_all add: wsWritePump_def split_paired_all)
  then have "e1 = e0" "w1 = w'" and s': "s' = ww_finish env (s\<lparr>toClient := p\<rparr>)" using assms(1,2) by (simp_all add: wsWritePump_def)
  then have d: "ws_drain (nat (wc_maxFrame c)) (ww_turns env) (toClient s) (ww_sock env) = Some (e0, p, w')" "toClient s' = p"
    using d0 assms(4) by simp_all
  from drain_arrives [OF d(1) assms(3)] obtain fs lost where fs: "ws_sent w' = map msg_of fs" "list_all (body_frame (nat (wc_maxFrame c))) fs"
      "\<forall>m \<in> set (ws_sent w'). length m \<le> Suc (nat (wc_maxFrame c))"
      "\<forall>k. p_buf (toClient s) @ drain_in (nat (wc_maxFrame c)) (ww_turns env) (toClient s) (ww_sock env) =
         data_of (take k fs) @ data_of (drop k fs) @ lost @ p_buf p"
      "length lost \<le> nat (wc_maxFrame c)" "ws_room (ww_sock env) = None \<longrightarrow> lost = [] \<and> p_buf p = []" by (elim exE conjE) (rule that)
  have "list_all (body_frame (nat (wc_maxFrame c))) (take n fs)" using fs(2) by (metis append_take_drop_id list_all_append)
  then obtain c' where c': "wsConn_readLoop ts c = Returns c'" "p_buf (wc_readPipe c') = p_buf (wc_readPipe c) @ data_of (take n fs)"
    using read_loop_plain [of ts "take n fs" e "nat (wc_maxFrame c)" c] assms(6-8) fs(1) by (auto simp: take_map)
  have "\<forall>m \<in> set (ws_sent w'). int (length m) \<le> client_read_limit c"
    using fs(3) assms(5) by (fastforce simp: client_read_limit_def)
  moreover have "length (ws_sent w') \<le> n \<longrightarrow> data_of (drop n fs) = []" using fs(1) by simp
  ultimately show ?thesis using c' spec [OF fs(4), of n] fs(5,6) d(2)
    by (intro conjI exI [of _ c'] exI [of _ "data_of (take n fs)"] exI [of _ "data_of (drop n fs) @ lost @ p_buf p"]) simp_all
qed



text \<open>
  The loops of a connection start before the connector adopts its session. A failure in between
  finds another session adopted, counts as superseded, and is never reported as a failure.
\<close>

lemma early_failure_superseded:
  assumes "k_activeSessionID k \<noteq> resp_SessionID cr" and "rd_msg t = Inl e" and "\<forall>c. rd_others t c = c"
  shows "\<exists>c. connectWebSocket k cr None (\<lambda>k c. case wsConn_readLoop [(t, k)] c of Returns c' \<Rightarrow> c' | _ \<Rightarrow> c) =
      (Inr c, adoptSession (resp_SessionID cr) k) \<and>
    g_superseded (wc_guard c) \<and> \<not> wc_failed c \<and> p_closed (wc_readPipe c) \<and> isActiveSession (g_sessionID (wc_guard c)) (adoptSession (resp_SessionID cr) k)"
  using assms by (simp add: connectWebSocket_def newWsConn_def newSessionGuard_def wsConn_onTransportProblem_def
      supersededByNewerConnect_def isActiveSession_def supersede_def adoptSession_def)

section \<open>Witnesses\<close>

definition sample_ws :: wsConn where
  "sample_ws = newWsConn (connect_response (withDefaults sample_config) sample_req ''p'' Map.empty)"

lemma sample_ws_simps:
  "wc_maxFrame sample_ws = 262144" "wc_writePipe sample_ws = NewBufferedPipe" "wc_readPipe sample_ws = NewBufferedPipe"
  by (simp_all add: sample_ws_def newWsConn_def connect_response_def Let_def orInt_def withDefaults_def sample_config_def DefaultPollBufferSize_def)

lemma sample_drain:
  "ReadAvailable 262144 (after [EvWrite [5]] NewBufferedPipe) [[EvTimer]] = Some (Inr [5], NewBufferedPipe\<lparr>p_hiWater := 1\<rparr>, [])"
  "ReadAvailable 262144 (after [EvClose] (NewBufferedPipe\<lparr>p_hiWater := 1\<rparr>)) [] = Some (Inl EOF, NewBufferedPipe\<lparr>p_hiWater := 1, p_closed := True\<rparr>, [])"
  by (simp_all add: ReadAvailable_def coalesce_def NewBufferedPipe_def phase2_waits_def take_out_def after_def Write_def Close_def)

text \<open>A byte is written and sent, then the connection is closed.\<close>

definition sample_wl :: "pipe_event list \<Rightarrow> schedule \<Rightarrow> write_loop_turn" where
  "sample_wl evs sch = \<lparr>wl_before = (\<lambda>c. c\<lparr>wc_writePipe := after evs (wc_writePipe c)\<rparr>), wl_wait = sch, wl_during = id, wl_connector = sample_connector\<rparr>"

abbreviation (input) sample_turns :: "(pipe_event list \<times> write_loop_turn) list" where
  "sample_turns \<equiv> [([EvWrite [5]], sample_wl [EvWrite [5]] [[EvTimer]]), ([EvClose], sample_wl [EvClose] [])]"

abbreviation (input) sample_reads :: "'c ws_read list" where
  "sample_reads \<equiv> [\<lparr>rd_others = id, rd_msg = Inr (True, [frameData, 5])\<rparr>, \<lparr>rd_others = id, rd_msg = Inl ErrNet\<rparr>]"

theorem ws_upload_arrives_witness:
  "\<exists>c' w' s'. wsConn_writeLoop (map snd sample_turns) sample_ws \<lparr>ws_sent = [], ws_room = None\<rparr> = Returns (c', w') \<and>
     ws_sent w' = [[frameData, 5]] \<and> wsReadPump sample_reads (newSession ''p'' Map.empty 0) = Returns (ErrNet, s') \<and> p_buf (toServer s') = [5]"
proof -
  let ?w = "\<lparr>ws_sent = [], ws_room = None\<rparr>" and ?s = "newSession ''p'' Map.empty 0"
  obtain c' w' where run: "wsConn_writeLoop (map snd sample_turns) sample_ws ?w = Returns (c', w')" "ws_sent w' = [[frameData, 5]]"
    using sample_drain by (simp add: sample_wl_def sample_ws_simps Let_def ws_Write_def wsEncode_def)
  have fits: "\<forall>(evs, t) \<in> set sample_turns. pipe_turn evs t" "ws_sent ?w = []"
      "wc_maxFrame sample_ws \<le> cfg_MaxSendBytes (withDefaults sample_config)" "0 < wc_maxFrame sample_ws"
    by (simp_all add: pipe_turn_def sample_wl_def sample_ws_simps withDefaults_def sample_config_def DefaultMaxSendBytes_def)
  have reads: "map rd_msg sample_reads = map (\<lambda>m. Inr (True, m)) (take 1 (ws_sent w')) @ [Inl ErrNet]"
      "\<forall>t \<in> set sample_reads. \<forall>x. toServer (rd_others t x) = toServer x \<and> s_rs (rd_others t x) = s_rs x" using run(2) by simp_all
  have s: "s_rs ?s = None" "\<not> p_closed (toServer ?s)" "p_buf (toServer ?s) = []" by (simp_all add: newSession_def NewBufferedPipe_def)
  note turn = drain_turn(2) [of 262144 "as_pump ([EvWrite [5]], sample_wl [EvWrite [5]] [[EvTimer]])" NewBufferedPipe "Inr [5]" _ "[]"]
    drain_turn(2) [of 262144 "as_pump ([EvClose], sample_wl [EvClose] [])" "NewBufferedPipe\<lparr>p_hiWater := 1\<rparr>" "Inl EOF" _ "[]"]
  have "drain_in 262144 (map as_pump sample_turns) NewBufferedPipe ?w = [5]"
    using turn sample_drain by (simp add: as_pump_def sample_wl_def ws_Write_def turn_frame_def NewBufferedPipe_def)
  with ws_upload_arrives [OF run(1) fits reads s(1,2)] run s(3) show ?thesis by (auto simp: sample_ws_simps NewBufferedPipe_def)
qed

text \<open>A plain session with two bytes for its client, which is then closed.\<close>

definition sample_pump :: ws_write where
  "sample_pump = \<lparr>ww_turns = [\<lparr>pu_before = [EvWrite [5]], pu_wait = [[EvTimer]]\<rparr>, \<lparr>pu_before = [EvClose], pu_wait = []\<rparr>], ww_rturns = [],
     ww_finish = id, ww_sock = \<lparr>ws_sent = [], ws_room = None\<rparr>\<rparr>"

theorem ws_download_arrives_witness:
  "\<exists>s' w' c'. wsWritePump 262144 0 sample_pump (newSession ''p'' Map.empty 0) = Returns (EOF, s', w') \<and> ws_sent w' = [[frameData, 5]] \<and>
     wsConn_readLoop (map (\<lambda>t. (t, sample_connector)) sample_reads) sample_ws = Returns c' \<and> p_buf (wc_readPipe c') = [5]"
proof -
  let ?s = "newSession ''p'' Map.empty 0" and ?ts = "map (\<lambda>t. (t, sample_connector)) sample_reads"
  obtain s' w' where run: "wsWritePump (nat (wc_maxFrame sample_ws)) 0 sample_pump ?s = Returns (EOF, s', w')" "ws_sent w' = [[frameData, 5]]"
    using sample_drain
    by (simp add: wsWritePump_def sample_pump_def newSession_def ws_drain.simps(2) ws_Write_def wsEncode_def sample_ws_simps)
  have s: "s_rs ?s = None" "ws_sent (ww_sock sample_pump) = []" "\<forall>x. toClient (ww_finish sample_pump x) = toClient x" "0 < wc_maxFrame sample_ws"
      "p_buf (toClient ?s) = []" "toClient ?s = NewBufferedPipe"
    by (simp_all add: newSession_def sample_pump_def sample_ws_simps NewBufferedPipe_def)
  have reads: "map (\<lambda>x. rd_msg (fst x)) ?ts = map (\<lambda>m. Inr (True, m)) (take 1 (ws_sent w')) @ [Inl ErrNet]"
      "\<forall>t \<in> set ?ts. \<forall>x. wc_readPipe (rd_others (fst t) x) = wc_readPipe x" "\<not> p_closed (wc_readPipe sample_ws)"
    using run(2) by (simp_all add: sample_ws_simps NewBufferedPipe_def)
  note turn = drain_turn(2) [of 262144 "\<lparr>pu_before = [EvWrite [5]], pu_wait = [[EvTimer]]\<rparr>" NewBufferedPipe "Inr [5]" _ "[]"]
    drain_turn(2) [of 262144 "\<lparr>pu_before = [EvClose], pu_wait = []\<rparr>" "NewBufferedPipe\<lparr>p_hiWater := 1\<rparr>" "Inl EOF" _ "[]"]
  have "drain_in 262144 (ww_turns sample_pump) NewBufferedPipe (ww_sock sample_pump) = [5]" "ws_room (ww_sock sample_pump) = None"
    using turn sample_drain by (simp_all add: sample_pump_def ws_Write_def turn_frame_def NewBufferedPipe_def)
  with ws_download_arrives [OF run(1) s(1-4) reads] s(5,6) obtain c' got where c': "wsConn_readLoop ?ts sample_ws = Returns c'"
      "p_buf (wc_readPipe c') = got" "[5] = got" unfolding run(2) by (auto simp: sample_ws_simps NewBufferedPipe_def simp del: wsConn_readLoop.simps)
  then show ?thesis using run by (auto simp: sample_ws_simps)
qed


definition sample_attached :: ws_env where
  "sample_attached = \<lparr>we_attach = [], we_between = id, we_now = 10, we_later = 10, we_upgraded = id, we_accepted = True, we_reads = sample_reads,
     we_write = sample_pump, we_readFirst = False, we_end = id, we_endTime = 11\<rparr>"

definition ws_server :: server where
  "ws_server = \<lparr>heap = [(newSession ''p'' Map.empty 0)\<lparr>s_transport := TransportWebSocket\<rparr>], sessions = [''p'' \<mapsto> 0], maxDetachedResumable = 0, disconnects = []\<rparr>"


end
