(* ===== verification/ResumableClient.thy ===== *)
theory ResumableClient
  imports WebSocket
begin

text \<open>
  \<^verbatim>\<open>resumable_client.go\<close>: the connection that keeps its session across failures of the transport.
  Its legs share one reliable layer and two pipes, \<^typ>\<open>batch_conn\<close>, whatever transport they use. A
  leg is a function of what it meets, turn by turn; the two legs of a transport run at the same
  time, each with its own view of what the other one does, and the state that remains is the one
  the leg that ends last sees. The supervisor runs one set of legs after another and decides
  between them whether the session goes on.

  The lemmas show that no leg panics or breaks the layer, that both directions continue the
  numbering and hand on exactly the next bytes, that resuming agrees with the server's handler
  and comes to an end, and exactly when the supervisor gives up.
\<close>

section \<open>The connection\<close>

record resumableConn =
  rc_guard :: sessionGuard
  rc_limits :: Limits
  rc_legs :: batch_conn
  rc_transport :: string
  rc_uploadStream :: bool
  rc_resumeGrace :: duration
  rc_ws :: bool
  rc_failed :: bool
  rc_closed :: bool

abbreviation rc_done :: "resumableConn \<Rightarrow> bool" where
  "rc_done c \<equiv> g_cancelled (rc_guard c) \<or> rc_closed c"

definition resumable_Read :: "nat \<Rightarrow> resumableConn \<Rightarrow> schedule \<Rightarrow> ((error + bytes) \<times> resumableConn \<times> schedule) option" where
  "resumable_Read cap c sch =
     map_option (\<lambda>(res, p, sch'). (res, c\<lparr>rc_legs := (rc_legs c)\<lparr>bc_in := p\<rparr>\<rparr>, sch')) (Read cap (bc_in (rc_legs c)) sch)"

definition resumable_Write :: "bytes \<Rightarrow> resumableConn \<Rightarrow> (error + nat) \<times> resumableConn" where
  "resumable_Write p c =
     (if rc_closed c then (Inl ErrClosedPipe, c)
      else if p = [] then (Inr 0, c)
      else (case Write (bc_out (rc_legs c)) p of (res, _, out) \<Rightarrow> (res, c\<lparr>rc_legs := (rc_legs c)\<lparr>bc_out := out\<rparr>\<rparr>)))"

text \<open>\<open>finish\<close> is what the supervisor does until it has ended; the first result says whether the DELETE is sent.\<close>

definition resumable_Close :: "(resumableConn \<Rightarrow> resumableConn) \<Rightarrow> resumableConn \<Rightarrow> bool \<times> resumableConn" where
  "resumable_Close finish c =
     (if rc_closed c then (False, c)
      else
        let c1 = finish (c\<lparr>rc_closed := True, rc_guard := (rc_guard c)\<lparr>g_cancelled := True\<rparr>,
                           rc_legs := (rc_legs c)\<lparr>bc_out := interruptOut (Close (bc_out (rc_legs c)))\<rparr>\<rparr>)
        in (True, c1\<lparr>rc_legs := (rc_legs c1)\<lparr>bc_in := Close (bc_in (rc_legs c1))\<rparr>\<rparr>))"

definition close_in :: "resumableConn \<Rightarrow> resumableConn" where
  "close_in c = c\<lparr>rc_legs := (rc_legs c)\<lparr>bc_in := Close (bc_in (rc_legs c))\<rparr>\<rparr>"

definition resumable_fail :: "resumableConn \<Rightarrow> resumableConn" where
  "resumable_fail c = (if rc_failed c then c else close_in (c\<lparr>rc_failed := True\<rparr>))"

definition resumable_onSessionClosed :: "Connector \<Rightarrow> resumableConn \<Rightarrow> resumableConn" where
  "resumable_onSessionClosed k c =
     (case supersededByNewerConnect k (rc_guard c) of
        (True, g) \<Rightarrow> close_in (c\<lparr>rc_guard := g\<rparr>)
      | (False, _) \<Rightarrow> resumable_fail c)"

section \<open>The guard against useless resumes\<close>

definition resumableLegsMinStable :: duration where
  "resumableLegsMinStable = 2 * Second"

definition maxConsecutiveFastResumes :: nat where
  "maxConsecutiveFastResumes = 5"

definition maxConsecutiveBatchBodyTimeouts :: nat where
  "maxConsecutiveBatchBodyTimeouts = 3"

record resumeStabilityGuard =
  consecutiveFast :: nat
  consecutiveBodyTimeouts :: nat

definition recordBodyTimeout :: "bool \<Rightarrow> bool \<Rightarrow> resumeStabilityGuard \<Rightarrow> bool \<times> resumeStabilityGuard" where
  "recordBodyTimeout bodyTimedOut recvd g =
     (if \<not> bodyTimedOut \<or> recvd then (False, g\<lparr>consecutiveBodyTimeouts := 0\<rparr>)
      else
        let g1 = g\<lparr>consecutiveBodyTimeouts := consecutiveBodyTimeouts g + 1\<rparr>
        in (consecutiveBodyTimeouts g1 \<ge> maxConsecutiveBatchBodyTimeouts, g1))"

definition guard_record :: "duration \<Rightarrow> bool \<Rightarrow> resumeStabilityGuard \<Rightarrow> bool \<times> resumeStabilityGuard" where
  "guard_record legsDuration progressed g =
     (if legsDuration \<ge> resumableLegsMinStable \<or> progressed then (False, g\<lparr>consecutiveFast := 0\<rparr>)
      else
        let g1 = g\<lparr>consecutiveFast := consecutiveFast g + 1\<rparr>
        in (consecutiveFast g1 \<ge> maxConsecutiveFastResumes, g1))"

section \<open>The legs of a stream\<close>

text \<open>Numbered data and acknowledgements, as every leg that receives handles them.\<close>

definition leg_seq :: "bytes \<Rightarrow> batch_conn \<Rightarrow> (error option \<times> batch_conn) option" where
  "leg_seq payload c = (case splitSeq payload of Inl e \<Rightarrow> Some (Some e, c) | Inr (off, d) \<Rightarrow> bc_recvIn off d c)"

definition leg_ack :: "bytes \<Rightarrow> batch_conn \<Rightarrow> (error option \<times> batch_conn) option" where
  "leg_ack payload c = (case decodeAck payload of Inl e \<Rightarrow> Some (Some e, c) | Inr n \<Rightarrow> bc_ack n c)"

definition down_frame :: "frameType \<Rightarrow> bytes \<Rightarrow> batch_conn \<Rightarrow> (error option \<times> batch_conn) option" where
  "down_frame ty payload c =
     (if ty = frameSeqData then leg_seq payload c
      else if ty = frameAck then leg_ack payload c
      else if ty = frameHeartbeat then Some (None, c)
      else if ty = frameEnd then Some (Some ErrStreamEnd, c)
      else if ty = frameGone then Some (Some ErrSessionGone, c)
      else if ty = frameData then Some (Some ErrUnnumbered, c)
      else Some (Some ErrUnknownFrame, c))"

definition resumable_doStreamPoll :: "(nat \<Rightarrow> batch_conn \<Rightarrow> batch_conn) \<Rightarrow> bool \<Rightarrow> error + wire \<Rightarrow> batch_conn \<Rightarrow> (error \<times> batch_conn) outcome" where
  "resumable_doStreamPoll others watchdog answer c =
     (case answer of
        Inl e \<Rightarrow> Returns (e, c)
      | Inr resp \<Rightarrow>
          if wr_status resp \<noteq> 200 then Returns (ErrStatus (wr_status resp), c)
          else read_loop others down_frame (stream_error watchdog) 0 (newFrameReader (wr_body resp) (bc_maxFrame c)) c)"

text \<open>One turn of \<open>downLoop\<close>: what the other leg does before the answer and between its frames, the answer, the context then.\<close>

record down_leg_turn =
  dl_before :: "batch_conn \<Rightarrow> batch_conn"
  dl_others :: "nat \<Rightarrow> batch_conn \<Rightarrow> batch_conn"
  dl_watchdog :: bool
  dl_answer :: "error + wire"
  dl_ctxDone :: bool

fun downLoop :: "down_leg_turn list \<Rightarrow> batch_conn \<Rightarrow> (error \<times> batch_conn) outcome" where
  "downLoop [] c = Sleeps"
| "downLoop (t # ts) c =
     (case resumable_doStreamPoll (dl_others t) (dl_watchdog t) (dl_answer t) (dl_before t c) of
        Panics \<Rightarrow> Panics
      | Sleeps \<Rightarrow> Sleeps
      | Returns (e, c1) \<Rightarrow>
          if e = ErrStreamEnd then if dl_ctxDone t then Returns (ErrCanceled, c1) else downLoop ts c1
          else Returns (e, c1))"

text \<open>
  The feeder of an upload, with the turns of a numbered stream: \<open>rt_ctxDone\<close> is the leg's context
  when an interrupted wait asks, \<open>rt_late\<close> whether the deadline has passed.
\<close>

fun feed_turns :: "nat \<Rightarrow> resume_turn list \<Rightarrow> reliable \<times> pipe \<Rightarrow> writer \<Rightarrow> (error option \<times> (reliable \<times> pipe) \<times> writer) outcome" where
  "feed_turns cap [] st w = Sleeps"
| "feed_turns cap (t # ts) st w =
     (case rt_before t st of (r0, out0) \<Rightarrow>
       (case nextOut cap r0 (rt_meanwhile t) out0 (rt_wait t) of
          Panics \<Rightarrow> Panics
        | Sleeps \<Rightarrow> Sleeps
        | Returns (res, r1, out1) \<Rightarrow>
            if res = Inl EOF then Returns (None, (r1, out1), snd (writeFrame w frameEnd []))
            else if res = Inl ErrPipeInterrupted \<and> rt_ctxDone t then Returns (Some ErrCanceled, (r1, out1), w)
            else
              (case takeAck (rt_then t r1) of (due, r2) \<Rightarrow>
                 (case write_turn w due res of
                    (Some e, w1) \<Rightarrow> Returns (Some e, (r2, out1), w1)
                  | (None, w1) \<Rightarrow>
                      if rt_late t then Returns (None, (r2, out1), snd (writeFrame w1 frameEnd []))
                      else feed_turns cap ts (r2, out1) w1))))"

definition resumable_feedSendStream :: "nat \<Rightarrow> resume_turn list \<Rightarrow> reliable \<times> pipe \<Rightarrow> writer
    \<Rightarrow> (error option \<times> (reliable \<times> pipe) \<times> writer) outcome" where
  "resumable_feedSendStream cap ts st w = feed_turns cap ts (resetAck (fst st), snd st) w"

text \<open>
  One upload request: what happens before it, the feeder's turns and the pipe to the request, what
  else happens to the connection meanwhile, the answer, and the context after it.
\<close>

record up_leg_turn =
  ul_before :: "batch_conn \<Rightarrow> batch_conn"
  ul_feed :: "resume_turn list"
  ul_writer :: writer
  ul_during :: "batch_conn \<Rightarrow> batch_conn"
  ul_answer :: "error + wire"
  ul_ctxDone :: bool

definition resumable_doSendStream :: "up_leg_turn \<Rightarrow> batch_conn \<Rightarrow> (error option \<times> batch_conn) outcome" where
  "resumable_doSendStream t c =
     (case resumable_feedSendStream (nat (bc_maxFrame c)) (ul_feed t) (bc_rl c, bc_out c) (ul_writer t) of
        Panics \<Rightarrow> Panics
      | Sleeps \<Rightarrow> Sleeps
      | Returns (feedErr, (r, out), w) \<Rightarrow>
          Returns (doSendStream feedErr (ul_answer t), ul_during t (c\<lparr>bc_rl := r, bc_out := out\<rparr>)))"

fun upLoop :: "up_leg_turn list \<Rightarrow> batch_conn \<Rightarrow> (error \<times> batch_conn) outcome" where
  "upLoop [] c = Sleeps"
| "upLoop (t # ts) c =
     (case resumable_doSendStream t (ul_before t c) of
        Panics \<Rightarrow> Panics
      | Sleeps \<Rightarrow> Sleeps
      | Returns (Some e, c1) \<Rightarrow> Returns (e, c1)
      | Returns (None, c1) \<Rightarrow> if ul_ctxDone t then Returns (ErrCanceled, c1) else upLoop ts c1)"

section \<open>The legs of a WebSocket\<close>

definition ws_down_frame :: "frameType \<Rightarrow> bytes \<Rightarrow> batch_conn \<Rightarrow> (error option \<times> batch_conn) option" where
  "ws_down_frame ft payload c =
     (if ft = frameSeqData then leg_seq payload c
      else if ft = frameAck then leg_ack payload c
      else if ft = frameHeartbeat then Some (None, c)
      else if ft = frameData then Some (Some ErrUnnumbered, c)
      else Some (Some ErrUnknownFrame, c))"

definition wsReadLoop :: "batch_conn ws_read list \<Rightarrow> batch_conn \<Rightarrow> (error \<times> batch_conn) outcome" where
  "wsReadLoop ts c = ws_read_loop ws_down_frame ts c"

text \<open>\<open>finish\<close>: what happens to the rest of the connection until the loop has ended.\<close>

definition wsWriteLoop :: "(batch_conn \<Rightarrow> batch_conn) \<Rightarrow> resume_turn list \<Rightarrow> wsock \<Rightarrow> batch_conn \<Rightarrow> (error \<times> batch_conn) outcome" where
  "wsWriteLoop finish ts w c =
     (case ws_out_loop (\<lambda>t. if rt_ctxDone t then Some ErrCanceled else None) (nat (bc_maxFrame c)) ts
             (resetAck (bc_rl c), bc_out c) w of
        Panics \<Rightarrow> Panics
      | Sleeps \<Rightarrow> Sleeps
      | Returns (e, (r, out), _) \<Rightarrow> Returns (e, finish (c\<lparr>bc_rl := r, bc_out := out\<rparr>)))"

text \<open>The longest message this end of a connection accepts.\<close>

definition dialWS_limit :: "batch_conn \<Rightarrow> int" where
  "dialWS_limit c = bc_maxFrame c + 1 + int seqHeaderLen"

section \<open>Running the legs\<close>

text \<open>What the legs of each kind meet, and which of the two ends first.\<close>

record legs_env =
  le_batchDown :: "down_turn list"
  le_batchUp :: "up_turn list"
  le_down :: "down_leg_turn list"
  le_up :: "up_leg_turn list"
  le_reads :: "batch_conn ws_read list"
  le_writes :: "resume_turn list"
  le_sock :: wsock
  le_finish :: "batch_conn \<Rightarrow> batch_conn"
  le_downFirst :: bool

definition down_leg :: "resumableConn \<Rightarrow> legs_env \<Rightarrow> (error \<times> batch_conn) outcome" where
  "down_leg c env =
     (if rc_transport c = TransportWebSocket then wsReadLoop (le_reads env) (rc_legs c)
      else if bc_pollStream (rc_legs c) then downLoop (le_down env) (rc_legs c)
      else batchDownLoop (le_batchDown env) (rc_legs c))"

definition up_leg :: "resumableConn \<Rightarrow> legs_env \<Rightarrow> (error \<times> batch_conn) outcome" where
  "up_leg c env =
     (if rc_transport c = TransportWebSocket then wsWriteLoop (le_finish env) (le_writes env) (le_sock env) (rc_legs c)
      else if rc_uploadStream c then upLoop (le_up env) (rc_legs c)
      else batchUpLoop (le_batchUp env) (rc_legs c))"

text \<open>
  The error is the one of the leg that ends first; cancelling the context, the interrupt and closing
  the WebSocket are what the other leg then meets.
\<close>

definition runLegs :: "legs_env \<Rightarrow> resumableConn \<Rightarrow> (error \<times> resumableConn) outcome" where
  "runLegs env c =
     (case down_leg c env of
        Panics \<Rightarrow> Panics
      | Sleeps \<Rightarrow> Sleeps
      | Returns (e1, l1) \<Rightarrow>
          (case up_leg c env of
             Panics \<Rightarrow> Panics
           | Sleeps \<Rightarrow> Sleeps
           | Returns (e2, l2) \<Rightarrow>
               Returns (if le_downFirst env then (e1, c\<lparr>rc_legs := l2\<rparr>) else (e2, c\<lparr>rc_legs := l1\<rparr>))))"

section \<open>Resuming\<close>

text \<open>
  \<open>k\<close> stands for \<^verbatim>\<open>rand.Float64\<close>, which is \<open>k / 2 ^ 53\<close> with \<open>k < 2 ^ 53\<close>; the product is
  taken without the rounding of floating-point numbers and then cut off to whole nanoseconds.
\<close>

definition jitter :: "nat \<Rightarrow> duration \<Rightarrow> duration" where
  "jitter k d = d * (8 * 2 ^ 53 + 4 * int k) div (10 * 2 ^ 53)"

definition doResume_request :: "resumableConn \<Rightarrow> ResumeRequest" where
  "doResume_request c = \<lparr>rr_ProtocolVersion = ProtocolVersion, rr_RecvOffset = recvOffsetNow (bc_rl (rc_legs c))\<rparr>"

text \<open>The answer to the request: an error of the exchange, or a status and a body.\<close>

definition doResume :: "error + nat \<times> ResumeResponse decoded \<Rightarrow> error + u64" where
  "doResume answer =
     (case answer of
        Inl e \<Rightarrow> Inl e
      | Inr (status, body) \<Rightarrow>
          if status \<noteq> 200 then Inl (ErrStatus status)
          else
            (case body of
               Decoded rr \<Rightarrow> if \<not> Resumed rr then Inl (ErrStatus 409) else Inr (RecvOffset rr)
             | _ \<Rightarrow> Inl ErrBadResponse))"

text \<open>
  One attempt: what the application does up to its end, the answer, the dial, the time afterwards,
  the random number of the pause, and whether the pause was slept out.
\<close>

record resume_attempt =
  ra_others :: "resumableConn \<Rightarrow> resumableConn"
  ra_answer :: "error + nat \<times> ResumeResponse decoded"
  ra_dial :: "error option"
  ra_now :: instant
  ra_rand :: nat
  ra_slept :: bool

text \<open>The handshake of an attempt; the error is final or not.\<close>

datatype attempt = Resumes | Final error | Again error

definition try_resume :: "resume_attempt \<Rightarrow> resumableConn \<Rightarrow> (attempt \<times> resumableConn) option" where
  "try_resume a c =
     (case doResume (ra_answer a) of
        Inr serverRecv \<Rightarrow>
          (case resumeOut serverRecv (bc_rl (rc_legs c)) of
             None \<Rightarrow> None
           | Some (False, r) \<Rightarrow> Some (Final ErrNotReplayable, c\<lparr>rc_legs := (rc_legs c)\<lparr>bc_rl := r\<rparr>\<rparr>)
           | Some (True, r) \<Rightarrow>
               let c1 = c\<lparr>rc_legs := (rc_legs c)\<lparr>bc_rl := r\<rparr>\<rparr> in
               if rc_transport c1 \<noteq> TransportWebSocket then Some (Resumes, c1)
               else (case ra_dial a of None \<Rightarrow> Some (Resumes, c1\<lparr>rc_ws := True\<rparr>) | Some e \<Rightarrow> Some (Again e, c1)))
      | Inl e \<Rightarrow>
          (case e of
             ErrStatus status \<Rightarrow> Some (if status < 500 then Final e else Again e, c)
           | _ \<Rightarrow> Some (Again e, c)))"

definition next_wait :: "duration \<Rightarrow> duration" where
  "next_wait backoff = min (backoff * 2) (2 * Second)"

fun resume_loop :: "instant \<Rightarrow> duration \<Rightarrow> resume_attempt list \<Rightarrow> resumableConn \<Rightarrow> (error option \<times> resumableConn) outcome" where
  "resume_loop deadline backoff [] c = Sleeps"
| "resume_loop deadline backoff (a # as) c =
     (case try_resume a (ra_others a c) of
        None \<Rightarrow> Panics
      | Some (Resumes, c1) \<Rightarrow> Returns (None, c1)
      | Some (Final e, c1) \<Rightarrow> Returns (Some e, c1)
      | Some (Again e, c1) \<Rightarrow>
          if ra_now a > deadline then Returns (Some ErrGraceExhausted, c1)
          else if \<not> sleepOrDone (jitter (ra_rand a) backoff) (ra_slept a) (if g_cancelled (rc_guard c1) then Some ErrCanceled else None)
          then Returns (Some ErrCanceled, c1)
          else resume_loop deadline (next_wait backoff) as c1)"

definition resume :: "instant \<Rightarrow> resume_attempt list \<Rightarrow> resumableConn \<Rightarrow> (error option \<times> resumableConn) outcome" where
  "resume now as c = resume_loop (now + rc_resumeGrace c) (250 * Millisecond) as c"

section \<open>The supervisor\<close>

text \<open>
  One round: what the legs meet and how long they last, what the application and newer connects do
  to the rest of the connection until they have ended, the attempts to resume and the time they start
  at, and the connector as it is when the round ends.
\<close>

record supervise_turn =
  su_legs :: legs_env
  su_duration :: duration
  su_others :: "resumableConn \<Rightarrow> resumableConn"
  su_now :: instant
  su_attempts :: "resume_attempt list"
  su_after :: "resumableConn \<Rightarrow> resumableConn"
  su_connector :: Connector

definition inconsistent :: "error \<Rightarrow> resumableConn \<Rightarrow> bool" where
  "inconsistent e c \<longleftrightarrow> e = ErrReplayGap \<or> e = ErrBadAck \<or> isBroken (bc_rl (rc_legs c))"

text \<open>The body of the loop: the supervisor returns, or another round follows.\<close>

datatype round = Over resumableConn | Next resumeStabilityGuard resumableConn

text \<open>After the resume: its error, or the guard's verdict on the legs that came before it.\<close>

definition after_resume :: "supervise_turn \<Rightarrow> reliableProgress \<Rightarrow> resumeStabilityGuard \<Rightarrow> error option \<Rightarrow> resumableConn \<Rightarrow> round" where
  "after_resume t before g res c =
     (case res of
        Some e \<Rightarrow>
          if rc_done c then Over c
          else if isSessionClosedErr e then Over (resumable_onSessionClosed (su_connector t) c)
          else Over (resumable_fail c)
      | None \<Rightarrow>
          (case guard_record (su_duration t) (progress (bc_rl (rc_legs c)) \<noteq> before) g of
             (True, _) \<Rightarrow> Over (resumable_fail c)
           | (False, g') \<Rightarrow> Next g' c))"

definition supervise_round :: "supervise_turn \<Rightarrow> resumeStabilityGuard \<Rightarrow> resumableConn \<Rightarrow> round outcome" where
  "supervise_round t g c =
     (let before = progress (bc_rl (rc_legs c)) in
      case runLegs (su_legs t) c of
        Panics \<Rightarrow> Panics
      | Sleeps \<Rightarrow> Sleeps
      | Returns (e, c0) \<Rightarrow>
          let c1 = su_others t c0 in
          if rc_done c1 then Returns (Over c1)
          else if isSessionClosedErr e then Returns (Over (resumable_onSessionClosed (su_connector t) c1))
          else if inconsistent e c1 then Returns (Over (resumable_fail c1))
          else
            (case recordBodyTimeout (e = ErrBatchBodyTimeout) (recvOffsetNow (bc_rl (rc_legs c1)) \<noteq> prog_recv before) g of
               (True, _) \<Rightarrow> Returns (Over (resumable_fail c1))
             | (False, g1) \<Rightarrow>
                 (case resume (su_now t) (su_attempts t) c1 of
                    Panics \<Rightarrow> Panics
                  | Sleeps \<Rightarrow> Sleeps
                  | Returns (res, c2) \<Rightarrow> Returns (after_resume t before g1 res (su_after t c2)))))"

fun supervise_turns :: "supervise_turn list \<Rightarrow> resumeStabilityGuard \<Rightarrow> resumableConn \<Rightarrow> resumableConn outcome" where
  "supervise_turns [] g c = Sleeps"
| "supervise_turns (t # ts) g c =
     (case supervise_round t g c of
        Panics \<Rightarrow> Panics
      | Sleeps \<Rightarrow> Sleeps
      | Returns (Over c') \<Rightarrow> Returns c'
      | Returns (Next g' c') \<Rightarrow> supervise_turns ts g' c')"

definition supervise :: "supervise_turn list \<Rightarrow> resumableConn \<Rightarrow> resumableConn outcome" where
  "supervise ts c = supervise_turns ts \<lparr>consecutiveFast = 0, consecutiveBodyTimeouts = 0\<rparr> c"

section \<open>Connecting\<close>

definition newResumableConn :: "Connector \<Rightarrow> ConnectResponse \<Rightarrow> resumableConn" where
  "newResumableConn k cr =
     \<lparr>rc_guard = newSessionGuard (resp_SessionID cr), rc_limits = resp_Limits cr,
      rc_legs =
        \<lparr>bc_rl = newReliable (k_MaxReplayBytes k), bc_in = NewBufferedPipe, bc_out = NewBufferedPipe,
         bc_maxFrame = orInt (PollBufferBytes (resp_Limits cr)) DefaultPollBufferSize,
         bc_maxSendChunk = nat (min (orInt (k_MaxSendChunk k) DefaultMaxSendChunk) (MaxSendBytes (resp_Limits cr))),
         bc_pollStream = (resp_PollMode cr = PollModeStream), bc_pollInterval = k_PollInterval k\<rparr>,
      rc_transport = resp_Transport cr, rc_uploadStream = (resp_UploadStreamMode cr = PollModeStream),
      rc_resumeGrace = ResumeGrace (resp_Limits cr), rc_ws = False, rc_failed = False, rc_closed = False\<rparr>"

text \<open>The session is adopted before the supervisor starts; \<open>dial\<close> is the result of the WebSocket dial.\<close>

definition connectResumable :: "Connector \<Rightarrow> ConnectResponse \<Rightarrow> error option \<Rightarrow> (error + resumableConn) \<times> Connector" where
  "connectResumable k cr dial =
     (let c = newResumableConn k cr; k' = adoptSession (resp_SessionID cr) k in
      if resp_Transport cr = TransportWebSocket then
        (case dial of Some e \<Rightarrow> (Inl e, k) | None \<Rightarrow> (Inr (c\<lparr>rc_ws := True\<rparr>), k'))
      else if bc_pollStream (rc_legs c) then (Inr (c\<lparr>rc_transport := PollModeStream\<rparr>), k')
      else (Inr (c\<lparr>rc_transport := PollModeBatch, rc_legs := (rc_legs c)\<lparr>bc_rl := disableEagerAck (bc_rl (rc_legs c))\<rparr>\<rparr>), k'))"

section \<open>Specification\<close>

text \<open>
  Legs in a good state: the layer keeps its invariant, at most \<open>B\<close> bytes were ever sent, and frames
  and requests have room for a byte. A leg goes on in the same terms.
\<close>

definition wf_legs :: "nat \<Rightarrow> batch_conn \<Rightarrow> bool" where
  "wf_legs B c \<longleftrightarrow>
     rel_inv (bc_rl c) \<and> unat (sendOffset (bc_rl c)) \<le> B \<and> 0 < bc_maxFrame c \<and> bc_maxFrame c < 2 ^ 63 \<and> 0 < bc_maxSendChunk c"

definition leg_goes :: "nat \<Rightarrow> batch_conn \<Rightarrow> batch_conn \<Rightarrow> bool" where
  "leg_goes B c c' \<longleftrightarrow> wf_legs B c' \<and> bc_maxFrame c' = bc_maxFrame c \<and> bc_maxSendChunk c' = bc_maxSendChunk c"

text \<open>What others do to the legs: anything good, or anything good that sends nothing.\<close>

definition leg_ok :: "nat \<Rightarrow> (batch_conn \<Rightarrow> batch_conn) \<Rightarrow> bool" where
  "leg_ok B f \<longleftrightarrow> (\<forall>c. wf_legs B c \<longrightarrow> leg_goes B c (f c))"

definition calm_leg :: "(batch_conn \<Rightarrow> batch_conn) \<Rightarrow> bool" where
  "calm_leg f \<longleftrightarrow> (\<forall>B. leg_ok B f)"

text \<open>How much the legs of a round may send at most, and what each of them may meet.\<close>

definition round_bytes :: "batch_conn \<Rightarrow> legs_env \<Rightarrow> nat" where
  "round_bytes c env =
     length (le_batchUp env) * bc_maxSendChunk c +
     (sum_list (map (\<lambda>t. length (ul_feed t)) (le_up env)) + length (le_writes env)) * nat (bc_maxFrame c)"

definition legs_ok :: "nat \<Rightarrow> legs_env \<Rightarrow> bool" where
  "legs_ok C env \<longleftrightarrow>
     (\<forall>t \<in> set (le_batchDown env). leg_ok C (dt_others t)) \<and>
     (\<forall>t \<in> set (le_down env). leg_ok C (dl_before t) \<and> (\<forall>k. leg_ok C (dl_others t k))) \<and>
     (\<forall>t \<in> set (le_reads env). leg_ok C (rd_others t) \<and> (\<forall>b m. rd_msg t = Inr (b, m) \<longrightarrow> length m < 2 ^ 64)) \<and>
     (\<forall>t \<in> set (le_batchUp env). calm_leg (ut_others t) \<and> leaves_cursor (\<lambda>_ _. True) (ut_meanwhile t)) \<and>
     (\<forall>t \<in> set (le_up env). calm_leg (ul_before t) \<and> (\<forall>x \<in> set (ul_feed t). calm_turn (\<lambda>_ _. True) x) \<and> calm_leg (ul_during t)) \<and>
     (\<forall>t \<in> set (le_writes env). calm_turn (\<lambda>_ _. True) t) \<and> calm_leg (le_finish env)"

text \<open>The same for a whole run of the supervisor, one round after the other.\<close>

definition conn_ok :: "nat \<Rightarrow> (resumableConn \<Rightarrow> resumableConn) \<Rightarrow> bool" where
  "conn_ok B f \<longleftrightarrow> (\<forall>c. wf_legs B (rc_legs c) \<longrightarrow> leg_goes B (rc_legs c) (rc_legs (f c)))"

definition round_ok :: "nat \<Rightarrow> supervise_turn \<Rightarrow> bool" where
  "round_ok C t \<longleftrightarrow>
     C < 2 ^ 64 \<and> legs_ok C (su_legs t) \<and> conn_ok C (su_others t) \<and> (\<forall>a \<in> set (su_attempts t). conn_ok C (ra_others a)) \<and> conn_ok C (su_after t)"

fun rounds_ok :: "nat \<Rightarrow> batch_conn \<Rightarrow> supervise_turn list \<Rightarrow> bool" where
  "rounds_ok B c [] = True"
| "rounds_ok B c (t # ts) =
     (round_ok (B + round_bytes c (su_legs t)) t \<and> rounds_ok (B + round_bytes c (su_legs t)) c ts)"

text \<open>
  A round that resumes: the transport failed, the session did not, and the handshake succeeds. It
  is judged by whether a batch response timed out in its body with nothing received, and by whether
  the legs failed fast without progress.
\<close>

definition resumed_round :: "supervise_turn \<Rightarrow> resumableConn \<Rightarrow> ((bool \<times> bool) \<times> resumableConn) option" where
  "resumed_round t c =
     (case runLegs (su_legs t) c of
        Returns (e, c0) \<Rightarrow>
          let c1 = su_others t c0 in
          if rc_done c1 \<or> isSessionClosedErr e \<or> inconsistent e c1 then None
          else
            (case resume (su_now t) (su_attempts t) c1 of
               Returns (None, c2) \<Rightarrow>
                 let c3 = su_after t c2 in
                 Some ((e = ErrBatchBodyTimeout \<and> recvOffset (bc_rl (rc_legs c1)) = recvOffset (bc_rl (rc_legs c)),
                        su_duration t < resumableLegsMinStable \<and> progress (bc_rl (rc_legs c3)) = progress (bc_rl (rc_legs c))), c3)
             | _ \<Rightarrow> None)
      | _ \<Rightarrow> None)"

fun resumed_rounds :: "supervise_turn list \<Rightarrow> resumableConn \<Rightarrow> (bool \<times> bool) list option" where
  "resumed_rounds [] c = Some []"
| "resumed_rounds (t # ts) c =
     (case resumed_round t c of
        None \<Rightarrow> None
      | Some (x, c') \<Rightarrow> map_option ((#) x) (resumed_rounds ts c'))"

text \<open>The last \<open>n\<close> of a list all satisfy \<open>P\<close>; the supervisor's reasons to stop resuming.\<close>

definition last_all :: "nat \<Rightarrow> ('a \<Rightarrow> bool) \<Rightarrow> 'a list \<Rightarrow> bool" where
  "last_all n P xs \<longleftrightarrow> n \<le> length xs \<and> list_all P (drop (length xs - n) xs)"

definition useless :: "(bool \<times> bool) list \<Rightarrow> bool" where
  "useless xs \<longleftrightarrow> last_all maxConsecutiveBatchBodyTimeouts fst xs \<or> last_all maxConsecutiveFastResumes snd xs"

text \<open>
  A client that has taken \<open>got\<close>, the bytes of \<open>str\<close> that follow what it had; what others may do
  meanwhile; and a server that sends nothing but parts of \<open>str\<close>, each at its position, whatever
  else it does.
\<close>

definition taken :: "bytes \<Rightarrow> batch_conn \<Rightarrow> batch_conn \<Rightarrow> bytes \<Rightarrow> bool" where
  "taken str c d got \<longleftrightarrow>
     p_buf (bc_in d) = p_buf (bc_in c) @ got \<and> rel_inv (bc_rl d) \<and>
     unat (recvOffset (bc_rl d)) = unat (recvOffset (bc_rl c)) + length got \<and> got = segment str (unat (recvOffset (bc_rl c))) (length got) \<and>
     unat (recvOffset (bc_rl c)) + length got \<le> max (unat (recvOffset (bc_rl c))) (length str)"

definition leg_keeps :: "(batch_conn \<Rightarrow> batch_conn) \<Rightarrow> bool" where
  "leg_keeps f \<longleftrightarrow>
     (\<forall>c. rel_inv (bc_rl c) \<longrightarrow> bc_in (f c) = bc_in c \<and> bc_maxFrame (f c) = bc_maxFrame c \<and> rel_inv (bc_rl (f c)) \<and>
        recvOffset (bc_rl (f c)) = recvOffset (bc_rl c))"

definition honest_down :: "bytes \<Rightarrow> int \<Rightarrow> legs_env \<Rightarrow> bool" where
  "honest_down str maxFrame env \<longleftrightarrow>
     (\<forall>t \<in> set (le_down env). leg_keeps (dl_before t) \<and> (\<forall>k. leg_keeps (dl_others t k)) \<and>
        (\<forall>resp n. dl_answer t = Inr resp \<longrightarrow> chunks_of str (seqs_of (fst (read_frames n (newFrameReader (wr_body resp) maxFrame)))))) \<and>
     (\<forall>t \<in> set (le_reads env). leg_keeps (rd_others t) \<and> (\<forall>ty p. rd_msg t = Inr (True, ty # p) \<longrightarrow> chunks_of str (seq_of (ty, p)))) \<and>
     (\<forall>t \<in> set (le_batchDown env). leg_keeps (dt_others t) \<and>
        (\<forall>resp off. dt_answer t = Inr resp \<longrightarrow> wr_status resp = 200 \<longrightarrow> batchOffset (wr_header resp) HeaderSendOffset = Inr off \<longrightarrow>
           chunks_of str [(off, r_bytes (wr_body resp))]))"

text \<open>
  A turn of a feeder during which the application writes \<open>w\<close> and the other leg acknowledges or
  receives, as the sending side sees it; and all that is written until the feeder ends.
\<close>

definition steady :: "bytes \<Rightarrow> resume_turn \<Rightarrow> bool" where
  "steady w t \<longleftrightarrow>
     (\<forall>str r out. holds str r out \<longrightarrow> length (str @ w) < 2 ^ 64 \<longrightarrow> holds (str @ w) (fst (rt_before t (r, out))) (snd (rt_before t (r, out)))) \<and>
     calm (rt_meanwhile t) \<and> (\<forall>str r out. holds str r out \<longrightarrow> holds str (rt_then t r) out)"

fun feed_written :: "nat \<Rightarrow> (bytes \<times> resume_turn) list \<Rightarrow> reliable \<times> pipe \<Rightarrow> bytes" where
  "feed_written cap [] st = []"
| "feed_written cap ((w, t) # xs) st =
     w @
     (case rt_before t st of (r0, out0) \<Rightarrow>
        wait_writes cap r0 out0 (rt_wait t) @
        (case nextOut cap r0 (rt_meanwhile t) out0 (rt_wait t) of
           Returns (res, r1, out1) \<Rightarrow>
             if res = Inl EOF \<or> res = Inl ErrPipeInterrupted \<and> rt_ctxDone t \<or> rt_late t then []
             else feed_written cap xs (snd (takeAck (rt_then t r1)), out1)
         | _ \<Rightarrow> []))"

text \<open>
  The answer of the server's handler as the client sees it; and a layer that was \<open>l\<close> and now, as
  \<open>l'\<close>, sends on from exactly what its peer has received, with nothing after it lost.
\<close>

definition resume_answer :: "response \<Rightarrow> error + nat \<times> ResumeResponse decoded" where
  "resume_answer resp = Inr (rp_status resp, case rp_body resp of ResumeBody rr \<Rightarrow> Decoded rr | _ \<Rightarrow> Malformed)"

definition aligned :: "reliable \<Rightarrow> reliable \<Rightarrow> reliable \<Rightarrow> bool" where
  "aligned l l' peer \<longleftrightarrow>
     \<not> isBroken l' \<and> sentCursor l' = recvOffset peer \<and> ackedOffset l' = recvOffset peer \<and> sendOffset l' = sendOffset l \<and>
     recvOffset l' = recvOffset l \<and> replay l' = drop (unat (recvOffset peer) - unat (ackedOffset l)) (replay l)"

text \<open>The frame a feeder that ends by itself writes last.\<close>

fun feed_tail :: "error option \<Rightarrow> (frameType \<times> bytes) list" where
  "feed_tail None = [(frameEnd, [])]"
| "feed_tail (Some _) = []"

section \<open>Lemmas on single steps\<close>

lemma leg_goes_refl: "wf_legs B c \<Longrightarrow> leg_goes B c c"
  by (simp add: leg_goes_def)

lemma leg_goes_trans: "leg_goes B c d \<Longrightarrow> leg_goes C d e \<Longrightarrow> leg_goes C c e"
  by (simp add: leg_goes_def)

lemma wf_legs_mono: "wf_legs B c \<Longrightarrow> B \<le> C \<Longrightarrow> wf_legs C c"
  by (simp add: wf_legs_def)

lemma leg_goes_mono: "leg_goes B c d \<Longrightarrow> B \<le> C \<Longrightarrow> leg_goes C c d"
  by (auto simp: leg_goes_def intro: wf_legs_mono)

lemma leg_goes_wf: "leg_goes B c d \<Longrightarrow> wf_legs B d"
  by (simp add: leg_goes_def)

lemma leg_okD: "leg_ok B f \<Longrightarrow> leg_goes B c d \<Longrightarrow> leg_goes B c (f d)"
  using leg_goes_trans by (auto simp: leg_ok_def leg_goes_def)

lemma leg_goes_layer:
  "leg_goes B c d \<Longrightarrow> rel_inv r \<Longrightarrow> unat (sendOffset r) \<le> C \<Longrightarrow> leg_goes C c (d\<lparr>bc_rl := r\<rparr>)"
  by (simp add: leg_goes_def wf_legs_def)

lemma leg_goes_pipes:
  "leg_goes B c d \<Longrightarrow> leg_goes B c (d\<lparr>bc_in := i, bc_out := out\<rparr>) \<and> leg_goes B c (d\<lparr>bc_in := i\<rparr>) \<and> leg_goes B c (d\<lparr>bc_out := out\<rparr>)"
  by (simp add: leg_goes_def wf_legs_def)

lemma bc_recvIn_goes:
  assumes "leg_goes B c d" and "length p < 2 ^ 64"
  shows "\<exists>e d'. bc_recvIn off p d = Some (e, d') \<and> leg_goes B c d'"
proof -
  have "rel_inv (bc_rl d)" "unat (sendOffset (bc_rl d)) \<le> B" using assms(1) by (simp_all add: leg_goes_def wf_legs_def)
  moreover obtain e r i out where "recvIn off p (bc_rl d) (bc_in d) (bc_out d) = Some (e, r, i, out)" "rel_inv r" "sendOffset r = sendOffset (bc_rl d)"
    using recvIn_inv [OF calculation(1) assms(2)] by blast
  ultimately show ?thesis using leg_goes_pipes [OF leg_goes_layer [OF assms(1), of r B], of out i]
    by (simp add: bc_recvIn_def)
qed

lemma ack_inv: "rel_inv r \<Longrightarrow> \<exists>e r'. ack n r = Some (e, r') \<and> rel_inv r' \<and> sendOffset r' = sendOffset r"
proof -
  assume inv: "rel_inv r"
  then have cursor: "sentCursor r \<le> sendOffset r" by (simp add: rel_inv_def)
  from inv show ?thesis
  proof (cases rule: ack_cases [where n = n])
    case moves
    then have "rel_inv (r\<lparr>replay := drop (unat n - unat (ackedOffset r)) (replay r), ackedOffset := n, sentCursor := max (sentCursor r) n\<rparr>)"
      using release(2) [OF inv moves(2), of n "max (sentCursor r) n"] cursor by simp
    then show ?thesis using moves by simp
  qed (use inv rel_inv_markBroken in auto)
qed

lemma bc_ack_goes:
  assumes "leg_goes B c d"
  shows "\<exists>e d'. bc_ack n d = Some (e, d') \<and> leg_goes B c d'"
proof -
  have "rel_inv (bc_rl d)" "unat (sendOffset (bc_rl d)) \<le> B" using assms by (simp_all add: leg_goes_def wf_legs_def)
  moreover obtain e r where "ack n (bc_rl d) = Some (e, r)" "rel_inv r" "sendOffset r = sendOffset (bc_rl d)"
    using ack_inv [OF calculation(1)] by blast
  ultimately show ?thesis using leg_goes_layer [OF assms, of r B] by (simp add: bc_ack_def)
qed

lemma leg_seq_goes:
  assumes "leg_goes B c d" and "length p < 2 ^ 64"
  shows "\<exists>e d'. leg_seq p d = Some (e, d') \<and> leg_goes B c d'"
proof (cases "splitSeq p")
  case (Inr x)
  obtain off q where x: "x = (off, q)" by (cases x)
  then have "length q < 2 ^ 64" using splitSeq_length Inr assms(2) by (metis order.strict_trans1)
  then show ?thesis using bc_recvIn_goes [OF assms(1)] Inr x by (simp add: leg_seq_def)
qed (use assms(1) in \<open>simp add: leg_seq_def\<close>)

lemma leg_ack_goes: "leg_goes B c d \<Longrightarrow> \<exists>e d'. leg_ack p d = Some (e, d') \<and> leg_goes B c d'"
  using bc_ack_goes by (cases "decodeAck p") (simp_all add: leg_ack_def)

interpretation down_frames: any_frame down_frame "leg_goes B c" for B c
  by unfold_locales (use leg_seq_goes leg_ack_goes in \<open>auto simp: down_frame_def\<close>)

interpretation ws_down_frames: any_frame ws_down_frame "leg_goes B c" for B c
  by unfold_locales (use leg_seq_goes leg_ack_goes in \<open>auto simp: ws_down_frame_def\<close>)

section \<open>Lemmas on the legs\<close>

text \<open>What the receiving loops keep: whatever their requests and the others keep.\<close>

lemma downLoop_keeps:
  assumes "P d" and "\<And>t x. t \<in> set ts \<Longrightarrow> P x \<Longrightarrow>
      safely (\<lambda>(e, d'). P d') (resumable_doStreamPoll (dl_others t) (dl_watchdog t) (dl_answer t) (dl_before t x))"
  shows "safely (\<lambda>(e, d'). P d') (downLoop ts d)"
  using assms
proof (induction ts arbitrary: d)
  case (Cons t ts)
  have "safely (\<lambda>(e, d'). P d') (resumable_doStreamPoll (dl_others t) (dl_watchdog t) (dl_answer t) (dl_before t d))"
    using Cons.prems by simp
  then show ?case using Cons.IH Cons.prems(2)
    by (cases "resumable_doStreamPoll (dl_others t) (dl_watchdog t) (dl_answer t) (dl_before t d)") auto
qed simp

lemma doBatchPoll_keeps:
  assumes "P d" and "\<And>n x. P x \<Longrightarrow> \<exists>e x'. bc_ack n x = Some (e, x') \<and> P x'"
    and "\<And>resp data off. answer = Inr resp \<Longrightarrow> wr_status resp = 200 \<Longrightarrow> read_all_limit (nat (bc_maxFrame d) + 1) (wr_body resp) = Inr data \<Longrightarrow>
      int (length data) \<le> bc_maxFrame d \<Longrightarrow> batchOffset (wr_header resp) HeaderSendOffset = Inr off \<Longrightarrow> \<exists>e d'. bc_recvIn off data d = Some (e, d') \<and> P d'"
  shows "\<exists>res d'. doBatchPoll answer d = Some (res, d') \<and> P d'"
proof (cases answer)
  case (Inr resp)
  show ?thesis
  proof (cases "read_all_limit (nat (bc_maxFrame d) + 1) (wr_body resp)")
    case data: (Inr data)
    show ?thesis
    proof (cases "int (length data) \<le> bc_maxFrame d")
      case True
      define first where "first = (if wr_status resp = 200 then
            (case batchOffset (wr_header resp) HeaderSendOffset of Inl e \<Rightarrow> Some (Some e, d) | Inr off \<Rightarrow> bc_recvIn off data d)
          else Some (None, d))"
      obtain e d1 where one: "first = Some (e, d1)" "P d1"
        using assms(1) assms(3) [OF Inr _ data True] that
        by (cases "wr_status resp = 200"; cases "batchOffset (wr_header resp) HeaderSendOffset") (simp_all add: first_def, blast)
      have run: "doBatchPoll answer d =
          (if wr_status resp \<noteq> 200 \<and> wr_status resp \<noteq> 204 then Some (Inl (ErrStatus (wr_status resp)), d)
           else if wr_status resp = 200 \<and> data = [] then Some (Inl ErrEmptyBatch, d)
           else case batchOffset (wr_header resp) HeaderRecvOffset of
                  Inl e \<Rightarrow> Some (Inl e, d)
                | Inr ackn \<Rightarrow>
                    (case e of
                       Some x \<Rightarrow> Some (Inl x, d1)
                     | None \<Rightarrow> (case bc_ack ackn d1 of None \<Rightarrow> None | Some (Some x, d2) \<Rightarrow> Some (Inl x, d2) | Some (None, d2) \<Rightarrow> Some (Inr (data \<noteq> []), d2))))"
        using True unfolding doBatchPoll_def Inr sum.case data first_def [symmetric] one(1) option.case prod.case by (simp cong: sum.case_cong option.case_cong)
      show ?thesis
      proof (cases "batchOffset (wr_header resp) HeaderRecvOffset")
        case (Inr ackn)
        obtain e2 d2 where "bc_ack ackn d1 = Some (e2, d2)" "P d2" using assms(2) [OF one(2)] by blast
        then show ?thesis using run Inr assms(1) one(2) by (cases e; cases e2) simp_all
      qed (use run assms(1) in simp)
    qed (use Inr data assms(1) in \<open>simp add: doBatchPoll_def\<close>)
  qed (use Inr assms(1) in \<open>simp add: doBatchPoll_def\<close>)
qed (use assms(1) in \<open>simp add: doBatchPoll_def\<close>)

lemma batchDownLoop_keeps:
  assumes "P d" and "\<And>t x. t \<in> set ts \<Longrightarrow> P x \<Longrightarrow> \<exists>res d'. doBatchPoll (dt_answer t) (dt_others t x) = Some (res, d') \<and> P d'"
  shows "safely (\<lambda>(e, d'). P d') (batchDownLoop ts d)"
  using assms
proof (induction ts arbitrary: d)
  case (Cons t ts)
  obtain res d1 where d1: "doBatchPoll (dt_answer t) (dt_others t d) = Some (res, d1)" "P d1" using Cons.prems by (metis list.set_intros(1))
  have "safely (\<lambda>(e, d'). P d') (batchDownLoop ts d1)" by (rule Cons.IH [OF d1(2)]) (use Cons.prems(2) in simp)
  then show ?case using d1 by (cases res) auto
qed simp

lemma downLoop_safe:
  assumes "leg_goes C c d" and "\<forall>t \<in> set ts. leg_ok C (dl_before t) \<and> (\<forall>k. leg_ok C (dl_others t k))"
  shows "safely (\<lambda>(e, d'). leg_goes C c d') (downLoop ts d)"
proof (rule downLoop_keeps [where P = "leg_goes C c", OF assms(1)])
  fix t x assume t: "t \<in> set ts" "leg_goes C c x"
  then have here: "leg_goes C c (dl_before t x)" using leg_okD assms(2) by simp
  have "safely (\<lambda>(e, d'). leg_goes C c d') (read_loop (dl_others t) down_frame rep k f (dl_before t x))" for rep k f
    by (rule down_frames.read_loop_safe [OF leg_okD here]) (use assms(2) t(1) in simp)
  then show "safely (\<lambda>(e, d'). leg_goes C c d') (resumable_doStreamPoll (dl_others t) (dl_watchdog t) (dl_answer t) (dl_before t x))"
    using here by (simp add: resumable_doStreamPoll_def split: sum.split)
qed

lemma batchDownLoop_safe:
  assumes "leg_goes C c d" and "\<forall>t \<in> set ts. leg_ok C (dt_others t)"
  shows "safely (\<lambda>(e, d'). leg_goes C c d') (batchDownLoop ts d)"
proof (rule batchDownLoop_keeps [where P = "leg_goes C c", OF assms(1)])
  fix t x assume t: "t \<in> set ts" "leg_goes C c x"
  then have here: "leg_goes C c (dt_others t x)" using leg_okD assms(2) by simp
  then have "bc_maxFrame (dt_others t x) < 2 ^ 63" by (simp add: leg_goes_def wf_legs_def)
  then show "\<exists>res d'. doBatchPoll (dt_answer t) (dt_others t x) = Some (res, d') \<and> leg_goes C c d'"
    by (intro doBatchPoll_keeps [where P = "leg_goes C c", OF here bc_ack_goes] bc_recvIn_goes [OF here]) auto
qed


lemma doBatchSend_goes: "leg_goes C c d \<Longrightarrow> \<exists>e d'. doBatchSend answer d = Some (e, d') \<and> leg_goes C c d'"
  using bc_ack_goes by (auto simp: doBatchSend_def split: sum.split)

lemma calm_legD: "calm_leg f \<Longrightarrow> leg_goes B c d \<Longrightarrow> leg_goes B c (f d)"
  by (simp add: calm_leg_def leg_okD)

lemma resetAck_goes: "leg_goes B c d \<Longrightarrow> leg_goes B c (d\<lparr>bc_rl := resetAck (bc_rl d)\<rparr>)"
  by (simp add: leg_goes_def wf_legs_def resetAck_def rel_inv_def)

lemma takeAck_goes: "leg_goes B c d \<Longrightarrow> takeAck (bc_rl d) = (due, r) \<Longrightarrow> leg_goes B c (d\<lparr>bc_rl := r\<rparr>)"
  by (auto simp: leg_goes_def wf_legs_def takeAck_def rel_inv_def split: if_splits)

text \<open>One wait of a sender: at most a buffer is sent.\<close>

lemma nextOut_goes:
  assumes "leg_goes B c d" and "leaves_cursor (\<lambda>_ _. True) meanwhile" and "cap > 0" and "B + cap < 2 ^ 64"
  shows "safely (\<lambda>(res, r, out). leg_goes (B + cap) c (d\<lparr>bc_rl := r, bc_out := out\<rparr>)) (nextOut cap (bc_rl d) meanwhile (bc_out d) sch)"
proof -
  have r: "rel_inv (bc_rl d)" "unat (sendOffset (bc_rl d)) \<le> B" using assms(1) by (simp_all add: leg_goes_def wf_legs_def)
  have small: "unat (sendOffset (bc_rl d)) + cap < 2 ^ 64" using r(2) assms(4) by linarith
  have put: "leg_goes (B + cap) c (d\<lparr>bc_rl := r', bc_out := out'\<rparr>)"
    if "rel_inv r' \<and> unat (sendOffset r') \<le> unat (sendOffset (bc_rl d)) + cap" for r' out'
    using leg_goes_pipes [OF leg_goes_layer [OF assms(1), of r' "B + cap"], of _ out'] that r(2) by simp
  show ?thesis by (rule safely_mono [OF nextOut_bounded [OF r(1) assms(2,3) small]]) (auto intro: put)
qed

lemma batch_up_turns_safe:
  assumes "leg_goes B c d" and "\<forall>t \<in> set ts. calm_leg (ut_others t) \<and> leaves_cursor (\<lambda>_ _. True) (ut_meanwhile t)"
    and "B + length ts * bc_maxSendChunk c < 2 ^ 64"
  shows "safely (\<lambda>(e, d'). leg_goes (B + length ts * bc_maxSendChunk c) c d') (batch_up_turns ts d)"
  using assms
proof (induction ts arbitrary: B d)
  case (Cons t ts)
  let ?K = "bc_maxSendChunk c"
  define d0 where "d0 = ut_others t d"
  have d0: "leg_goes B c d0" using calm_legD Cons.prems(1,2) by (simp add: d0_def)
  then have cap: "bc_maxSendChunk d0 = ?K" "0 < ?K" by (simp_all add: leg_goes_def wf_legs_def)
  have more: "B + ?K \<le> B + length (t # ts) * ?K" by simp
  have small: "B + ?K < 2 ^ 64" using Cons.prems(3) more by linarith
  have step: "safely (\<lambda>(res, r, out). leg_goes (B + ?K) c (d0\<lparr>bc_rl := r, bc_out := out\<rparr>)) (nextOut ?K (bc_rl d0) (ut_meanwhile t) (bc_out d0) (ut_wait t))"
    by (rule nextOut_goes [OF d0 _ cap(2) small]) (use Cons.prems(2) in simp)
  have ih: "safely (\<lambda>(e, d'). leg_goes (B + length (t # ts) * ?K) c d') (batch_up_turns ts x)" if "leg_goes (B + ?K) c x" for x
    using Cons.IH [OF that] Cons.prems(2,3) by (simp add: algebra_simps)
  show ?case
  proof (cases "nextOut ?K (bc_rl d0) (ut_meanwhile t) (bc_out d0) (ut_wait t)")
    case (Returns x)
    obtain res r out where x: "x = (res, r, out)" by (cases x) auto
    define d1 where "d1 = d0\<lparr>bc_rl := r, bc_out := out\<rparr>"
    have d1: "leg_goes (B + ?K) c d1" using step Returns x by (simp add: d1_def)
    obtain due r2 where ta: "takeAck r = (due, r2)" by (cases "takeAck r")
    have d2: "leg_goes (B + ?K) c (d1\<lparr>bc_rl := r2\<rparr>)" using takeAck_goes [OF d1, of due r2] ta by (simp add: d1_def)
    obtain e d3 where d3: "doBatchSend (ut_answer t) (d1\<lparr>bc_rl := r2\<rparr>) = Some (e, d3)" "leg_goes (B + ?K) c d3"
      using doBatchSend_goes [OF d2] by blast
    note goes = leg_goes_mono [OF _ more]
    show ?thesis using Returns x ta d3 ih [OF d2] ih [OF d3(2)] goes [OF d1] goes [OF d2] goes [OF d3(2)] cap(1)
      by (cases e) (simp_all add: d0_def [symmetric] d1_def [symmetric] Let_def)
  qed (use step cap(1) in \<open>simp_all add: d0_def [symmetric] Let_def\<close>)
qed (simp add: leg_goes_def)

lemma batchUpLoop_safe:
  assumes "leg_goes B c d" and "\<forall>t \<in> set ts. calm_leg (ut_others t) \<and> leaves_cursor (\<lambda>_ _. True) (ut_meanwhile t)"
    and "B + length ts * bc_maxSendChunk c < 2 ^ 64"
  shows "safely (\<lambda>(e, d'). leg_goes (B + length ts * bc_maxSendChunk c) c d') (batchUpLoop ts d)"
  unfolding batchUpLoop_def by (rule batch_up_turns_safe [OF resetAck_goes [OF assms(1)] assms(2,3)])

lemma feed_turn:
  assumes "rt_before t st = (r0, out0)"
  shows "nextOut cap r0 (rt_meanwhile t) out0 (rt_wait t) = Sleeps \<Longrightarrow> feed_turns cap (t # ts) st w = Sleeps"
    and "nextOut cap r0 (rt_meanwhile t) out0 (rt_wait t) = Returns (res, r1, out1) \<Longrightarrow>
       feed_turns cap (t # ts) st w =
       (if res = Inl EOF then Returns (None, (r1, out1), snd (writeFrame w frameEnd []))
        else if res = Inl ErrPipeInterrupted \<and> rt_ctxDone t then Returns (Some ErrCanceled, (r1, out1), w)
        else case write_turn w (fst (takeAck (rt_then t r1))) res of
               (Some e, w1) \<Rightarrow> Returns (Some e, (snd (takeAck (rt_then t r1)), out1), w1)
             | (None, w1) \<Rightarrow>
                 if rt_late t then Returns (None, (snd (takeAck (rt_then t r1)), out1), snd (writeFrame w1 frameEnd []))
                 else feed_turns cap ts (snd (takeAck (rt_then t r1)), out1) w1)"
  using assms by (auto simp: case_prod_beta)

declare feed_turns.simps(2) [simp del]

text \<open>What was written by a feeder that ended, as frames that continue the numbering from one layer to another.\<close>

definition fed :: "(nat \<Rightarrow> nat \<Rightarrow> bool) \<Rightarrow> reliable \<Rightarrow> writer \<Rightarrow> (frameType \<times> bytes) list \<Rightarrow> reliable \<Rightarrow> writer \<Rightarrow> bool" where
  "fed R r w tail r' w' \<longleftrightarrow>
     (\<exists>fs. w_out w' = w_out w @ concat (map frame_bytes (fs @ tail)) \<and> chain R (unat (sentCursor r)) (seqs_of fs) \<and>
        R (chain_end (unat (sentCursor r)) (seqs_of fs)) (unat (sentCursor r')))"

lemma fed_trans:
  assumes "fed R r w [] r1 w1" and "fed R r1 w1 tail r' w'" and "transp R"
  shows "fed R r w tail r' w'"
proof -
  obtain fs gs where fs: "w_out w1 = w_out w @ concat (map frame_bytes fs)" "chain R (unat (sentCursor r)) (seqs_of fs)"
      "R (chain_end (unat (sentCursor r)) (seqs_of fs)) (unat (sentCursor r1))"
    and gs: "w_out w' = w_out w1 @ concat (map frame_bytes (gs @ tail))" "chain R (unat (sentCursor r1)) (seqs_of gs)"
      "R (chain_end (unat (sentCursor r1)) (seqs_of gs)) (unat (sentCursor r'))"
    using assms(1,2) by (auto simp: fed_def)
  from chain_weaken [OF gs(2) fs(3) assms(3)] chain_end_weaken [OF gs(3) fs(3) assms(3)] show ?thesis
    unfolding fed_def using fs(1,2) gs(1) by (intro exI [of _ "fs @ gs"]) (simp add: chain_append)
qed

lemma fed_turn:
  assumes "w_room w = None" and "write_turn w due res = (None, w1)" and "chain R (unat (sentCursor r)) (turn_chunk res)"
    and "R (chain_end (unat (sentCursor r)) (turn_chunk res)) (unat (sentCursor r'))"
  shows "w_room w1 = None" and "fed R r w [] r' w1" and "fed R r w [(frameEnd, [])] r' (snd (writeFrame w1 frameEnd []))"
proof -
  have w1: "w1 = w\<lparr>w_out := w_out w @ concat (map frame_bytes (turn_frames due res))\<rparr>" using assms(2) write_turn_unlimited [OF assms(1)] by simp
  then show "w_room w1 = None" using assms(1) by simp
  then show "fed R r w [] r' w1" "fed R r w [(frameEnd, [])] r' (snd (writeFrame w1 frameEnd []))"
    unfolding fed_def using w1 assms(3,4)
    by (auto simp: seqs_of_turn_frames writeFrame_unlimited intro!: exI [of _ "turn_frames due res"])
qed

lemma feed_turn_cases:
  assumes "rel_inv r" and "calm_turn R t" and "cap > 0" and "unat (sendOffset r) + cap < 2 ^ 64" and "reflp R" and "transp R"
  obtains (sleeps) "feed_turns cap (t # ts) (r, out) w = Sleeps"
  | (ends) e r' p w' where "feed_turns cap (t # ts) (r, out) w = Returns (e, (r', p), w')" "rel_inv r'"
      "unat (sendOffset r') \<le> unat (sendOffset r) + cap" "w_room w = None \<longrightarrow> fed R r w (feed_tail e) r' w'"
  | (goes_on) r' p w' where "feed_turns cap (t # ts) (r, out) w = feed_turns cap ts (r', p) w'" "rel_inv r'"
      "unat (sendOffset r') \<le> unat (sendOffset r) + cap" "w_room w = None \<longrightarrow> w_room w' = None \<and> fed R r w [] r' w'"
proof -
  obtain r0 out0 where before: "rt_before t (r, out) = (r0, out0)" by fastforce
  note turn = feed_turn [OF before, where cap = cap and ts = ts and w = w]
  from assms before show thesis
  proof (cases rule: numbered_turn)
    case (got res r1 out1)
    define r2 where "r2 = snd (takeAck (rt_then t r1))"
    define due where "due = fst (takeAck (rt_then t r1))"
    note r2 = got(5-8) [folded r2_def] and run = turn(2) [OF got(1), folded r2_def due_def]
    have le: "unat (sendOffset r2) \<le> unat (sendOffset r) + cap" using got(3) r2(2) by simp
    show ?thesis
    proof (cases "res = Inl EOF \<or> res = Inl ErrPipeInterrupted \<and> rt_ctxDone t")
      case True
      then have "turn_chunk res = []" by (auto simp: turn_chunk_def)
      then have R1: "R (unat (sentCursor r)) (unat (sentCursor r1))" using got(4) by simp
      then have "fed R r w [] r1 w" "w_room w = None \<longrightarrow> fed R r w [(frameEnd, [])] r1 (snd (writeFrame w frameEnd []))"
        unfolding fed_def by (auto simp: writeFrame_unlimited intro: exI [of _ "[]"])
      then show ?thesis using run True got(2,3) ends by (cases "res = Inl EOF") auto
    next
      case False
      obtain e w1 where wt: "write_turn w due res = (e, w1)" by fastforce
      have run: "feed_turns cap (t # ts) (r, out) w =
          (case e of
             Some x \<Rightarrow> Returns (Some x, (r2, out1), w1)
           | None \<Rightarrow> if rt_late t then Returns (None, (r2, out1), snd (writeFrame w1 frameEnd [])) else feed_turns cap ts (r2, out1) w1)"
        unfolding run wt using False by (auto split: option.split)
      show ?thesis
      proof (cases e)
        case (Some x)
        then have "w_room w \<noteq> None" using wt write_turn_unlimited [of w due res] by auto
        then show ?thesis using run Some r2(1) le by (intro ends [of "Some x" r2 out1 w1]) auto
      next
        case None
        note f = fed_turn [OF _ wt [unfolded None] r2(3,4)]
        show ?thesis
        proof (cases "rt_late t")
          case True
          then show ?thesis using run None r2(1) le f(3) by (intro ends [of None r2 out1 "snd (writeFrame w1 frameEnd [])"]) simp_all
        next
          case False
          then show ?thesis using run None r2(1) le f(1,2) by (intro goes_on [of r2 out1 w1]) simp_all
        qed
      qed
    qed
  qed (use turn(1) sleeps in simp)
qed

text \<open>
  The feeder never panics and keeps the layer good; what it writes into a request that takes
  everything continues the numbering.
\<close>

lemma feed_numbered:
  assumes "rel_inv r" and "\<forall>t \<in> set ts. calm_turn R t" and "cap > 0" and "unat (sendOffset r) + length ts * cap < 2 ^ 64"
    and "reflp R" and "transp R"
  shows "safely (\<lambda>(e, (r', p), w'). rel_inv r' \<and> unat (sendOffset r') \<le> unat (sendOffset r) + length ts * cap \<and>
     (w_room w = None \<longrightarrow> fed R r w (feed_tail e) r' w')) (feed_turns cap ts (r, out) w)"
  using assms(1,2,4)
proof (induction ts arbitrary: r out w)
  case (Cons t ts)
  have calm: "calm_turn R t" and small: "unat (sendOffset r) + cap < 2 ^ 64" using Cons.prems by simp_all
  from Cons.prems(1) calm assms(3) small assms(5,6) show ?case
  proof (cases rule: feed_turn_cases [where ts = ts and out = out and w = w])
    case (goes_on r1 p w1)
    have small2: "unat (sendOffset r1) + length ts * cap < 2 ^ 64" using goes_on(3) Cons.prems(3) by simp
    have "safely (\<lambda>(e, (r', p), w'). rel_inv r' \<and> unat (sendOffset r') \<le> unat (sendOffset r1) + length ts * cap \<and>
        (w_room w1 = None \<longrightarrow> fed R r1 w1 (feed_tail e) r' w')) (feed_turns cap ts (r1, p) w1)"
      by (rule Cons.IH [OF goes_on(2) _ small2]) (use Cons.prems(2) in simp)
    then show ?thesis unfolding goes_on(1)
      by (rule safely_mono) (use goes_on(3,4) fed_trans [OF _ _ assms(6)] in auto)
  qed auto
qed simp

lemma feed_goes:
  assumes "leg_goes B c d" and "\<forall>t \<in> set ts. calm_turn (\<lambda>_ _. True) t" and "B + length ts * nat (bc_maxFrame c) < 2 ^ 64"
  shows "safely (\<lambda>(e, (r, out), w'). leg_goes (B + length ts * nat (bc_maxFrame c)) c (d\<lparr>bc_rl := r, bc_out := out\<rparr>))
    (resumable_feedSendStream (nat (bc_maxFrame d)) ts (bc_rl d, bc_out d) w)"
proof -
  have d: "rel_inv (resetAck (bc_rl d))" "unat (sendOffset (resetAck (bc_rl d))) \<le> B" "bc_maxFrame d = bc_maxFrame c" "0 < nat (bc_maxFrame d)"
    using resetAck_goes [OF assms(1)] by (simp_all add: leg_goes_def wf_legs_def)
  have small: "unat (sendOffset (resetAck (bc_rl d))) + length ts * nat (bc_maxFrame d) < 2 ^ 64" using d(2,3) assms(3) by simp
  have put: "leg_goes (B + length ts * nat (bc_maxFrame c)) c (d\<lparr>bc_rl := r, bc_out := out\<rparr>)"
    if "rel_inv r" "unat (sendOffset r) \<le> unat (sendOffset (resetAck (bc_rl d))) + length ts * nat (bc_maxFrame d)" for r out
    using leg_goes_pipes [OF leg_goes_layer [OF assms(1) that(1)], of "B + length ts * nat (bc_maxFrame c)" out] that(2) d(2,3) by simp
  show ?thesis
    unfolding resumable_feedSendStream_def fst_conv snd_conv
    by (rule safely_mono [OF feed_numbered [OF d(1) assms(2) d(4) small any_order, where w = w]]) (auto intro: put)
qed

lemma upLoop_safe:
  assumes "leg_goes B c d" and "B + sum_list (map (\<lambda>t. length (ul_feed t)) ts) * nat (bc_maxFrame c) < 2 ^ 64"
    and "\<forall>t \<in> set ts. calm_leg (ul_before t) \<and> (\<forall>x \<in> set (ul_feed t). calm_turn (\<lambda>_ _. True) x) \<and> calm_leg (ul_during t)"
  shows "safely (\<lambda>(e, d'). leg_goes (B + sum_list (map (\<lambda>t. length (ul_feed t)) ts) * nat (bc_maxFrame c)) c d') (upLoop ts d)"
  using assms
proof (induction ts arbitrary: B d)
  case (Cons t ts)
  let ?n = "\<lambda>ts. sum_list (map (\<lambda>t. length (ul_feed t)) ts)" and ?M = "nat (bc_maxFrame c)"
  define d0 where "d0 = ul_before t d"
  have d0: "leg_goes B c d0" using calm_legD Cons.prems(1,3) by (simp add: d0_def)
  let ?B = "B + length (ul_feed t) * ?M"
  have sum: "?B + ?n ts * ?M = B + ?n (t # ts) * ?M" by (simp add: algebra_simps)
  then have small: "?B < 2 ^ 64" and more: "?B \<le> B + ?n (t # ts) * ?M" using Cons.prems(2) by simp_all
  have feed: "safely (\<lambda>(e, (r, out), w'). leg_goes ?B c (d0\<lparr>bc_rl := r, bc_out := out\<rparr>))
      (resumable_feedSendStream (nat (bc_maxFrame d0)) (ul_feed t) (bc_rl d0, bc_out d0) (ul_writer t))"
    by (rule feed_goes [OF d0 _ small]) (use Cons.prems(3) in simp)
  then have one: "safely (\<lambda>(e, d'). leg_goes ?B c d') (resumable_doSendStream t d0)"
    unfolding resumable_doSendStream_def using calm_legD Cons.prems(3)
    by (cases "resumable_feedSendStream (nat (bc_maxFrame d0)) (ul_feed t) (bc_rl d0, bc_out d0) (ul_writer t)") auto
  have ih: "safely (\<lambda>(e, d'). leg_goes (B + ?n (t # ts) * ?M) c d') (upLoop ts x)" if "leg_goes ?B c x" for x
    using Cons.IH [OF that] Cons.prems(2,3) sum by simp
  show ?case
  proof (cases "resumable_doSendStream t d0")
    case (Returns y)
    obtain e d1 where y: "y = (e, d1)" by (cases y)
    have d1: "leg_goes ?B c d1" using one Returns y by simp
    show ?thesis using Returns y ih [OF d1] leg_goes_mono [OF d1 more] by (cases e) (simp_all add: d0_def [symmetric])
  qed (use one in \<open>simp_all add: d0_def [symmetric]\<close>)
qed simp

lemma wsWriteLoop_safe:
  assumes "leg_goes B c d" and "\<forall>t \<in> set ts. calm_turn (\<lambda>_ _. True) t" and "B + length ts * nat (bc_maxFrame c) < 2 ^ 64" and "calm_leg finish"
  shows "safely (\<lambda>(e, d'). leg_goes (B + length ts * nat (bc_maxFrame c)) c d') (wsWriteLoop finish ts w d)"
proof -
  have d: "rel_inv (resetAck (bc_rl d))" "unat (sendOffset (resetAck (bc_rl d))) \<le> B" "bc_maxFrame d = bc_maxFrame c" "0 < nat (bc_maxFrame d)"
    using resetAck_goes [OF assms(1)] by (simp_all add: leg_goes_def wf_legs_def)
  have small: "unat (sendOffset (resetAck (bc_rl d))) + length ts * nat (bc_maxFrame d) < 2 ^ 64" using d(2,3) assms(3) by simp
  have put: "leg_goes (B + length ts * nat (bc_maxFrame c)) c (finish (d\<lparr>bc_rl := r, bc_out := out\<rparr>))"
    if "rel_inv r" "unat (sendOffset r) \<le> unat (sendOffset (resetAck (bc_rl d))) + length ts * nat (bc_maxFrame d)" for r out
    using calm_legD [OF assms(4)] leg_goes_pipes [OF leg_goes_layer [OF assms(1) that(1)], of "B + length ts * nat (bc_maxFrame c)" out] that(2) d(2,3) by simp
  define run where "run = ws_out_loop (\<lambda>t. if rt_ctxDone t then Some ErrCanceled else None) (nat (bc_maxFrame d)) ts (resetAck (bc_rl d), bc_out d) w"
  have "safely (\<lambda>(e, (r', p), w'). rel_inv r' \<and> unat (sendOffset r') \<le> unat (sendOffset (resetAck (bc_rl d))) + length ts * nat (bc_maxFrame d)) run"
    unfolding run_def by (rule safely_mono [OF ws_out_numbered [OF d(1) assms(2) d(4) small any_order, where w = w]]) auto
  then show ?thesis unfolding wsWriteLoop_def run_def [symmetric] using put by (cases run) auto
qed

text \<open>A whole round of legs.\<close>

lemma down_leg_safe:
  assumes "leg_goes C c (rc_legs x)" and "legs_ok C env"
  shows "safely (\<lambda>(e, d'). leg_goes C c d') (down_leg x env)"
proof -
  have "safely (\<lambda>(e, d'). leg_goes C c d') (wsReadLoop (le_reads env) (rc_legs x))"
    unfolding wsReadLoop_def by (rule ws_down_frames.ws_read_loop_safe [OF assms(1)]) (use assms(2) leg_okD in \<open>auto simp: legs_ok_def\<close>)
  moreover have "safely (\<lambda>(e, d'). leg_goes C c d') (downLoop (le_down env) (rc_legs x))"
    by (rule downLoop_safe [OF assms(1)]) (use assms(2) in \<open>simp add: legs_ok_def\<close>)
  moreover have "safely (\<lambda>(e, d'). leg_goes C c d') (batchDownLoop (le_batchDown env) (rc_legs x))"
    by (rule batchDownLoop_safe [OF assms(1)]) (use assms(2) in \<open>simp add: legs_ok_def\<close>)
  ultimately show ?thesis by (simp add: down_leg_def)
qed

lemma up_leg_safe:
  assumes "leg_goes B c (rc_legs x)" and "legs_ok C env" and "B + round_bytes c env < 2 ^ 64"
  shows "safely (\<lambda>(e, d'). leg_goes (B + round_bytes c env) c d') (up_leg x env)"
proof -
  let ?M = "nat (bc_maxFrame c)" and ?n = "sum_list (map (\<lambda>t. length (ul_feed t)) (le_up env))"
  have le: "length (le_batchUp env) * bc_maxSendChunk c \<le> round_bytes c env" "?n * ?M \<le> round_bytes c env"
      "length (le_writes env) * ?M \<le> round_bytes c env" by (simp_all add: round_bytes_def algebra_simps)
  note up = safely_mono [where Q = "\<lambda>(e, d'). leg_goes (B + round_bytes c env) c d'"]
  have "safely (\<lambda>(e, d'). leg_goes (B + round_bytes c env) c d') (wsWriteLoop (le_finish env) (le_writes env) (le_sock env) (rc_legs x))"
    by (rule up [OF wsWriteLoop_safe [OF assms(1)]]) (use assms(2,3) le(3) leg_goes_mono in \<open>auto simp: legs_ok_def\<close>)
  moreover have "safely (\<lambda>(e, d'). leg_goes (B + round_bytes c env) c d') (upLoop (le_up env) (rc_legs x))"
    by (rule up [OF upLoop_safe [OF assms(1)]]) (use assms(2,3) le(2) leg_goes_mono in \<open>auto simp: legs_ok_def\<close>)
  moreover have "safely (\<lambda>(e, d'). leg_goes (B + round_bytes c env) c d') (batchUpLoop (le_batchUp env) (rc_legs x))"
    by (rule up [OF batchUpLoop_safe [OF assms(1)]]) (use assms(2,3) le(1) leg_goes_mono in \<open>auto simp: legs_ok_def\<close>)
  ultimately show ?thesis by (simp add: up_leg_def)
qed

lemma runLegs_safe:
  assumes "wf_legs B (rc_legs c)" and "C = B + round_bytes (rc_legs c) env" and "legs_ok C env" and "C < 2 ^ 64"
  shows "safely (\<lambda>(e, c'). leg_goes C (rc_legs c) (rc_legs c') \<and> (\<exists>l. c' = c\<lparr>rc_legs := l\<rparr>)) (runLegs env c)"
proof -
  have "leg_goes C (rc_legs c) (rc_legs c)" using wf_legs_mono [OF assms(1)] assms(2) by (simp add: leg_goes_refl)
  note down = down_leg_safe [OF this assms(3)] and up = up_leg_safe [OF leg_goes_refl [OF assms(1)] assms(3) assms(4) [unfolded assms(2)]]
  then show ?thesis unfolding runLegs_def
    by (cases "down_leg c env"; cases "up_leg c env") (auto simp: assms(2) [symmetric])
qed

section \<open>Lemmas on the supervisor\<close>

lemma conn_okD: "conn_ok B f \<Longrightarrow> leg_goes B d (rc_legs c) \<Longrightarrow> leg_goes B d (rc_legs (f c))"
  using leg_goes_trans by (auto simp: conn_ok_def leg_goes_def)

lemma try_resume_goes:
  assumes "leg_goes C d (rc_legs c)"
  shows "\<exists>res c'. try_resume a c = Some (res, c') \<and> leg_goes C d (rc_legs c')"
proof (cases "doResume (ra_answer a)")
  case (Inl e)
  then show ?thesis using assms by (cases e) (simp_all add: try_resume_def)
next
  case (Inr n)
  have r: "rel_inv (bc_rl (rc_legs c))" "unat (sendOffset (bc_rl (rc_legs c))) \<le> C" using assms by (simp_all add: leg_goes_def wf_legs_def)
  from r(1) show ?thesis
  proof (cases rule: resumeOut_cases [where n = n])
    case refused
    then show ?thesis using Inr assms by (simp add: try_resume_def)
  next
    case rewinds
    note inv = release(2) [OF r(1) rewinds(1-3) order_refl rewinds(3)]
    show ?thesis using Inr rewinds(4) leg_goes_layer [OF assms inv, of C] r(2) by (simp add: try_resume_def Let_def split: option.split)
  qed
qed

lemma resume_loop_safe:
  assumes "leg_goes C d (rc_legs c)" and "\<forall>a \<in> set as. conn_ok C (ra_others a)"
  shows "safely (\<lambda>(res, c'). leg_goes C d (rc_legs c')) (resume_loop deadline backoff as c)"
  using assms
proof (induction as arbitrary: backoff c)
  case (Cons a as)
  have "leg_goes C d (rc_legs (ra_others a c))" using conn_okD Cons.prems by simp
  then obtain res c1 where c1: "try_resume a (ra_others a c) = Some (res, c1)" "leg_goes C d (rc_legs c1)" using try_resume_goes by blast
  then show ?case using Cons.IH [of c1] Cons.prems(2) by (cases res) simp_all
qed simp

lemma close_in_goes: "leg_goes C d (rc_legs c) \<Longrightarrow> leg_goes C d (rc_legs (close_in c))"
  using leg_goes_pipes by (simp add: close_in_def)

lemma ending_goes:
  assumes "leg_goes C d (rc_legs c)"
  shows "leg_goes C d (rc_legs (resumable_fail c))" and "leg_goes C d (rc_legs (resumable_onSessionClosed k c))"
proof -
  show fail: "leg_goes C d (rc_legs (resumable_fail c))" using assms close_in_goes [of C d "c\<lparr>rc_failed := True\<rparr>"] by (simp add: resumable_fail_def)
  show "leg_goes C d (rc_legs (resumable_onSessionClosed k c))"
    using fail close_in_goes [of C d "c\<lparr>rc_guard := g\<rparr>" for g] assms
    by (cases "supersededByNewerConnect k (rc_guard c)"; cases "fst (supersededByNewerConnect k (rc_guard c))") (simp_all add: resumable_onSessionClosed_def)
qed

lemma round_safe:
  assumes "wf_legs B (rc_legs c)" and "C = B + round_bytes (rc_legs c) (su_legs t)" and "round_ok C t"
  shows "safely (\<lambda>r. leg_goes C (rc_legs c) (rc_legs (case r of Over c' \<Rightarrow> c' | Next _ c' \<Rightarrow> c'))) (supervise_round t g c)"
proof -
  have ok: "legs_ok C (su_legs t)" "C < 2 ^ 64" using assms(3) by (simp_all add: round_ok_def)
  have run: "safely (\<lambda>(e, c'). leg_goes C (rc_legs c) (rc_legs c')) (runLegs (su_legs t) c)"
    by (rule safely_mono [OF runLegs_safe [OF assms(1,2) ok]]) auto
  have after: "leg_goes C (rc_legs c) (rc_legs (case after_resume t b g res x of Over c' \<Rightarrow> c' | Next _ c' \<Rightarrow> c'))" if "leg_goes C (rc_legs c) (rc_legs x)" for b g res x
    using that ending_goes [OF that] by (auto simp: after_resume_def split: option.split prod.split bool.split)
  show ?thesis
  proof (cases "runLegs (su_legs t) c")
    case (Returns y)
    obtain e c0 where y: "y = (e, c0)" by (cases y)
    define c1 where "c1 = su_others t c0"
    have c1: "leg_goes C (rc_legs c) (rc_legs c1)" using conn_okD run Returns y assms(3) by (auto simp: c1_def round_ok_def)
    have "safely (\<lambda>(res, c'). leg_goes C (rc_legs c) (rc_legs c')) (resume (su_now t) (su_attempts t) c1)"
      unfolding resume_def by (rule resume_loop_safe [OF c1]) (use assms(3) in \<open>simp add: round_ok_def\<close>)
    moreover have "conn_ok C (su_after t)" using assms(3) by (simp add: round_ok_def)
    ultimately show ?thesis using Returns y ending_goes [OF c1] c1 after conn_okD
      by (cases "resume (su_now t) (su_attempts t) c1")
        (auto simp: supervise_round_def Let_def c1_def [symmetric] split: prod.split bool.split)
  qed (use run in \<open>simp_all add: supervise_round_def Let_def\<close>)
qed

lemma last_all_snoc: "last_all (Suc n) P (xs @ [x]) \<longleftrightarrow> P x \<and> last_all n P xs"
  by (auto simp: last_all_def Suc_diff_le)

lemma last_all_takeWhile: "last_all n P xs \<longleftrightarrow> n \<le> length (takeWhile P (rev xs))"
proof (induction xs arbitrary: n rule: rev_induct)
  case (snoc x xs)
  show ?case by (cases n) (simp_all add: last_all_snoc snoc.IH, simp add: last_all_def)
qed (simp add: last_all_def)

text \<open>The guard's counters count back from the last round.\<close>

definition counts :: "(bool \<times> bool) list \<Rightarrow> resumeStabilityGuard \<Rightarrow> bool" where
  "counts xs g \<longleftrightarrow>
     consecutiveBodyTimeouts g = length (takeWhile fst (rev xs)) \<and> consecutiveFast g = length (takeWhile snd (rev xs))"

lemma round_resumes:
  assumes "resumed_round t c = Some (x, c')" and "counts xs g"
  obtains (gives_up) c1 where "useless (xs @ [x])" "supervise_round t g c = Returns (Over (resumable_fail c1))"
  | (goes_on) g' where "\<not> useless (xs @ [x])" "supervise_round t g c = Returns (Next g' c')" "counts (xs @ [x]) g'"
proof -
  obtain e c0 where legs: "runLegs (su_legs t) c = Returns (e, c0)"
    using assms(1) by (auto simp: resumed_round_def split: outcome.splits prod.splits)
  define c1 where "c1 = su_others t c0"
  have fine: "\<not> rc_done c1" "\<not> isSessionClosedErr e" "\<not> inconsistent e c1"
    using assms(1) legs by (auto simp: resumed_round_def c1_def Let_def split: if_splits)
  then obtain c2 where res: "resume (su_now t) (su_attempts t) c1 = Returns (None, c2)"
    using assms(1) legs by (auto simp: resumed_round_def c1_def [symmetric] Let_def split: outcome.splits prod.splits option.splits)
  obtain to bad where x: "x = (to, bad)" by (cases x)
  have obs: "to \<longleftrightarrow> e = ErrBatchBodyTimeout \<and> recvOffset (bc_rl (rc_legs c1)) = recvOffset (bc_rl (rc_legs c))"
      "bad \<longleftrightarrow> su_duration t < resumableLegsMinStable \<and> progress (bc_rl (rc_legs c')) = progress (bc_rl (rc_legs c))" "c' = su_after t c2"
    using assms(1) legs fine res x by (auto simp: resumed_round_def c1_def [symmetric] Let_def)
  have useless: "useless (xs @ [x]) \<longleftrightarrow> to \<and> 2 \<le> consecutiveBodyTimeouts g \<or> bad \<and> 4 \<le> consecutiveFast g"
    using assms(2) last_all_snoc [of 2 fst xs x] last_all_snoc [of 4 snd xs x]
    by (simp add: useless_def counts_def last_all_takeWhile x maxConsecutiveBatchBodyTimeouts_def maxConsecutiveFastResumes_def)
  define g1 where "g1 = g\<lparr>consecutiveBodyTimeouts := if to then consecutiveBodyTimeouts g + 1 else 0\<rparr>"
  define g2 where "g2 = g1\<lparr>consecutiveFast := if bad then consecutiveFast g + 1 else 0\<rparr>"
  have rb: "recordBodyTimeout (e = ErrBatchBodyTimeout) (recvOffsetNow (bc_rl (rc_legs c1)) \<noteq> prog_recv (progress (bc_rl (rc_legs c)))) g =
      (to \<and> 2 \<le> consecutiveBodyTimeouts g, g1)"
    using obs(1) by (auto simp: recordBodyTimeout_def g1_def recvOffsetNow_def progress_def maxConsecutiveBatchBodyTimeouts_def)
  have gr: "guard_record (su_duration t) (progress (bc_rl (rc_legs c')) \<noteq> progress (bc_rl (rc_legs c))) g1 = (bad \<and> 4 \<le> consecutiveFast g, g2)"
    using obs(2) by (auto simp: guard_record_def g2_def g1_def maxConsecutiveFastResumes_def)
  have run: "supervise_round t g c =
      (if to \<and> 2 \<le> consecutiveBodyTimeouts g then Returns (Over (resumable_fail c1))
       else if bad \<and> 4 \<le> consecutiveFast g then Returns (Over (resumable_fail c')) else Returns (Next g2 c'))"
    using legs fine res rb gr obs(3) by (auto simp: supervise_round_def c1_def [symmetric] Let_def after_resume_def split: bool.split)
  show thesis
  proof (cases "useless (xs @ [x])")
    case True
    then show ?thesis using run useless gives_up by (auto split: if_splits)
  next
    case False
    moreover have "counts (xs @ [x]) g2" using assms(2) by (simp add: counts_def g2_def g1_def x)
    ultimately show ?thesis using run useless goes_on by auto
  qed
qed

lemma supervise_counts:
  assumes "resumed_rounds ts c = Some obs" and "counts xs g"
  shows "if \<exists>n. 0 < n \<and> n \<le> length obs \<and> useless (xs @ take n obs)
    then \<exists>c'. supervise_turns ts g c = Returns (resumable_fail c') else supervise_turns ts g c = Sleeps"
  using assms
proof (induction ts arbitrary: c xs g obs)
  case (Cons t ts)
  obtain x c1 obs' where r: "resumed_round t c = Some (x, c1)" "resumed_rounds ts c1 = Some obs'" "obs = x # obs'"
    using Cons.prems(1) by (auto split: option.splits)
  have split: "(\<exists>n. 0 < n \<and> n \<le> length obs \<and> useless (xs @ take n obs)) \<longleftrightarrow>
      useless (xs @ [x]) \<or> (\<exists>n. 0 < n \<and> n \<le> length obs' \<and> useless ((xs @ [x]) @ take n obs'))" (is "?L \<longleftrightarrow> ?R")
  proof
    assume ?L
    then obtain n where n: "0 < n" "n \<le> length obs" "useless (xs @ take n obs)" by blast
    then obtain m where m: "n = Suc m" by (cases n) auto
    show ?R using n m r(3) by (cases m) auto
  next
    assume ?R
    then show ?L
    proof
      assume "useless (xs @ [x])"
      then show ?thesis using r(3) by (intro exI [of _ 1]) simp
    next
      assume "\<exists>n. 0 < n \<and> n \<le> length obs' \<and> useless ((xs @ [x]) @ take n obs')"
      then obtain n where "n \<le> length obs'" "useless ((xs @ [x]) @ take n obs')" by blast
      then show ?thesis using r(3) by (intro exI [of _ "Suc n"]) simp
    qed
  qed
  from r(1) Cons.prems(2) show ?case
  proof (cases rule: round_resumes)
    case (gives_up c1)
    then show ?thesis unfolding split by auto
  next
    case (goes_on g')
    then show ?thesis using Cons.IH [OF r(2) goes_on(3)] unfolding split by simp
  qed
qed simp

section \<open>Lemmas on the bytes received\<close>

text \<open>The receiving side of the legs is the one of a session.\<close>

definition as_session :: "batch_conn \<Rightarrow> session" where
  "as_session c = (newSession [] Map.empty 0)\<lparr>s_rs := Some (bc_rl c), toServer := bc_in c, toClient := bc_out c\<rparr>"

lemma as_session_simps [simp]: "s_rs (as_session c) = Some (bc_rl c)" "toServer (as_session c) = bc_in c"
  by (simp_all add: as_session_def)

lemma as_session_steps:
  "rs_recvIn off d (as_session c) = map_option (\<lambda>(e, c'). (e, as_session c')) (bc_recvIn off d c)"
  "rs_ack n (as_session c) = map_option (\<lambda>(e, c'). (e, as_session c')) (bc_ack n c)"
  by (cases "recvIn off d (bc_rl c) (bc_in c) (bc_out c)"; cases "ack n (bc_rl c)";
      auto simp: rs_recvIn_def rs_ack_def bc_recvIn_def bc_ack_def as_session_def)+

lemma taken_session: "taken str c d got \<longleftrightarrow> received str (as_session c) (as_session d) got"
  by (auto simp: taken_def received_def)

definition takes :: "bytes \<Rightarrow> batch_conn \<Rightarrow> batch_conn \<Rightarrow> bool" where
  "takes str c d \<longleftrightarrow> (\<exists>got. taken str c d got) \<and> bc_maxFrame d = bc_maxFrame c"

lemma takes_refl: "rel_inv (bc_rl c) \<Longrightarrow> takes str c c"
  by (auto simp: takes_def taken_def segment_def)

lemma takes_others: "leg_keeps f \<Longrightarrow> takes str c d \<Longrightarrow> takes str c (f d)"
  by (auto simp: leg_keeps_def takes_def taken_def)

lemma takes_step:
  assumes "takes str c d" and "received str (as_session d) (as_session d') got" and "bc_maxFrame d' = bc_maxFrame d"
  shows "takes str c d'"
  using assms received_trans unfolding takes_def taken_session by metis

lemma bc_static: "bc_recvIn off p d = Some (e, d') \<Longrightarrow> bc_maxFrame d' = bc_maxFrame d" "bc_ack n d = Some (e, d') \<Longrightarrow> bc_maxFrame d' = bc_maxFrame d"
  by (auto simp: bc_recvIn_def bc_ack_def)

lemma bc_recvIn_takes:
  assumes "takes str c d" and "chunks_of str [(off, p)]"
  shows "\<exists>e d'. bc_recvIn off p d = Some (e, d') \<and> takes str c d'"
proof -
  have "s_rs (as_session d) = Some (bc_rl d)" "rel_inv (bc_rl d)" using assms(1) by (auto simp: takes_def taken_def)
  then obtain e s' got where r: "rs_recvIn off p (as_session d) = Some (e, s')" "received str (as_session d) s' got"
    using rs_recvIn_received [OF _ _ assms(2)] by metis
  then obtain d' where d': "bc_recvIn off p d = Some (e, d')" "s' = as_session d'" unfolding as_session_steps by auto
  then show ?thesis using takes_step [OF assms(1) r(2) [unfolded d'(2)] bc_static(1)] by blast
qed

lemma bc_ack_takes:
  assumes "takes str c d"
  shows "\<exists>e d'. bc_ack n d = Some (e, d') \<and> takes str c d'"
proof -
  have "s_rs (as_session d) = Some (bc_rl d)" "rel_inv (bc_rl d)" using assms(1) by (auto simp: takes_def taken_def)
  then obtain e s' where r: "rs_ack n (as_session d) = Some (e, s')" "received str (as_session d) s' []"
    using rs_ack_received by metis
  then obtain d' where d': "bc_ack n d = Some (e, d')" "s' = as_session d'" unfolding as_session_steps by auto
  then show ?thesis using takes_step [OF assms r(2) [unfolded d'(2)] bc_static(2)] by blast
qed

lemma leg_frame_takes:
  assumes "takes str c d"
  shows "chunks_of str (seq_of (frameSeqData, p)) \<Longrightarrow> \<exists>e d'. leg_seq p d = Some (e, d') \<and> takes str c d'"
    and "\<exists>e d'. leg_ack p d = Some (e, d') \<and> takes str c d'"
proof -
  show "\<exists>e d'. leg_seq p d = Some (e, d') \<and> takes str c d'" if "chunks_of str (seq_of (frameSeqData, p))"
  proof (cases "splitSeq p")
    case (Inr x)
    obtain off q where x: "x = (off, q)" by (cases x)
    then have "chunks_of str [(off, q)]" using that Inr by (simp add: seq_of_def)
    then show ?thesis using bc_recvIn_takes [OF assms] Inr x by (simp add: leg_seq_def)
  qed (use assms in \<open>simp add: leg_seq_def\<close>)
  show "\<exists>e d'. leg_ack p d = Some (e, d') \<and> takes str c d'"
    using bc_ack_takes [OF assms] assms by (cases "decodeAck p") (simp_all add: leg_ack_def)
qed

interpretation down_stream: frame_steps down_frame "\<lambda>ty p. chunks_of str (seq_of (ty, p))" "takes str c" for str c
  by unfold_locales (use leg_frame_takes in \<open>auto simp: down_frame_def\<close>)

interpretation ws_down_stream: frame_steps ws_down_frame "\<lambda>ty p. chunks_of str (seq_of (ty, p))" "takes str c" for str c
  by unfold_locales (use leg_frame_takes in \<open>auto simp: ws_down_frame_def\<close>)

lemma chunks_of_seqs: "x \<in> set fs \<Longrightarrow> chunks_of str (seqs_of fs) \<Longrightarrow> chunks_of str (seq_of (fst x, snd x))"
  by (auto simp: chunks_of_def seqs_of_def)

lemma down_leg_takes:
  assumes "rel_inv (bc_rl (rc_legs c))" and "honest_down str (bc_maxFrame (rc_legs c)) env"
  shows "safely (\<lambda>(e, d). takes str (rc_legs c) d) (down_leg c env)"
proof -
  let ?l = "rc_legs c"
  have start: "takes str ?l ?l" using takes_refl [OF assms(1)] .
  have ws: "safely (\<lambda>(e, d). takes str ?l d) (wsReadLoop (le_reads env) ?l)"
    unfolding wsReadLoop_def
    by (rule ws_down_stream.ws_read_loop_good [OF start]) (use assms(2) takes_others in \<open>auto simp: honest_down_def\<close>)
  have stream: "safely (\<lambda>(e, d). takes str ?l d) (downLoop (le_down env) ?l)"
  proof (rule downLoop_keeps [where P = "takes str ?l", OF start])
    fix t x assume t: "t \<in> set (le_down env)" "takes str ?l x"
    have keep: "leg_keeps (dl_before t)" "\<And>k. leg_keeps (dl_others t k)" using assms(2) t(1) by (simp_all add: honest_down_def)
    have here: "takes str ?l (dl_before t x)" using takes_others [OF keep(1) t(2)] .
    then have M: "bc_maxFrame (dl_before t x) = bc_maxFrame ?l" by (simp add: takes_def)
    have "safely (\<lambda>(e, d). takes str ?l d) (read_loop (dl_others t) down_frame rep 0 (newFrameReader (wr_body resp) (bc_maxFrame ?l)) (dl_before t x))"
      if "dl_answer t = Inr resp" for rep resp
    proof (rule down_stream.read_loop_good [OF takes_others [OF keep(2)] here])
      show "\<forall>n. \<forall>y \<in> set (fst (read_frames n (newFrameReader (wr_body resp) (bc_maxFrame ?l)))). chunks_of str (seq_of (fst y, snd y))"
        using assms(2) t(1) that chunks_of_seqs unfolding honest_down_def by blast
    qed assumption
    then show "safely (\<lambda>(e, d). takes str ?l d) (resumable_doStreamPoll (dl_others t) (dl_watchdog t) (dl_answer t) (dl_before t x))"
      using here M by (simp add: resumable_doStreamPoll_def split: sum.split)
  qed
  have batch: "safely (\<lambda>(e, d). takes str ?l d) (batchDownLoop (le_batchDown env) ?l)"
  proof (rule batchDownLoop_keeps [where P = "takes str ?l", OF start])
    fix t x assume t: "t \<in> set (le_batchDown env)" "takes str ?l x"
    have here: "takes str ?l (dt_others t x)" by (rule takes_others [OF _ t(2)]) (use assms(2) t(1) in \<open>simp add: honest_down_def\<close>)
    have "\<exists>e d'. bc_recvIn off data (dt_others t x) = Some (e, d') \<and> takes str ?l d'"
      if "dt_answer t = Inr resp" "wr_status resp = 200" "batchOffset (wr_header resp) HeaderSendOffset = Inr off" "data = r_bytes (wr_body resp)"
      for resp data off
      using that assms(2) t(1) by (intro bc_recvIn_takes [OF here]) (simp add: honest_down_def)
    then show "\<exists>res d'. doBatchPoll (dt_answer t) (dt_others t x) = Some (res, d') \<and> takes str ?l d'"
      by (intro doBatchPoll_keeps [where P = "takes str ?l", OF here bc_ack_takes]) (auto simp: read_all_limit_def split: if_splits)
  qed
  show ?thesis using ws stream batch by (simp add: down_leg_def)
qed

section \<open>Lemmas on the bytes sent\<close>

lemma chunks_of_mono: "chunks_of str xs \<Longrightarrow> length (str @ ws) < 2 ^ 64 \<Longrightarrow> chunks_of (str @ ws) xs"
  by (force simp: chunks_of_def segment_def)

lemma holds_takeAck: "holds str r out \<Longrightarrow> holds str (snd (takeAck r)) out"
  by (auto simp: holds_def takeAck_def rel_inv_def)

text \<open>The frames of a turn carry parts of the stream, and a reader with the right bound takes them.\<close>

definition carries :: "nat \<Rightarrow> bytes \<Rightarrow> (frameType \<times> bytes) list \<Rightarrow> bool" where
  "carries cap str fs \<longleftrightarrow> chunks_of str (seqs_of fs) \<and> list_all (\<lambda>f. length (snd f) \<le> cap + seqHeaderLen) fs"

lemma carries_append:
  "carries cap str fs \<Longrightarrow> carries cap (str @ ws) gs \<Longrightarrow> length (str @ ws) < 2 ^ 64 \<Longrightarrow> carries cap (str @ ws) (fs @ gs)"
  using chunks_of_mono by (auto simp: carries_def chunks_of_append)

lemma carries_turn:
  assumes "holds str r out" and "calm meanwhile" and "cap > 0" and "length (str @ wait_writes cap r out sch) < 2 ^ 64"
    and "nextOut cap r meanwhile out sch = Returns (res, r', out')"
  shows "carries cap (str @ wait_writes cap r out sch) (turn_frames due res)"
proof -
  let ?str = "str @ wait_writes cap r out sch"
  have "chunks_of ?str (turn_chunk res) \<and> (\<forall>off d. res = Inr (off, d) \<longrightarrow> length d \<le> cap)"
  proof (cases "\<exists>off d. res = Inr (off, d) \<and> d \<noteq> []")
    case True
    then obtain off d where "res = Inr (off, d)" "d \<noteq> []" by blast
    then show ?thesis using holds_nextOut(2) [OF assms, of off d] assms(4) by (auto simp: chunks_of_def turn_chunk_def)
  next
    case False
    then have "turn_chunk res = []" by (auto simp: turn_chunk_def split: sum.split prod.split)
    then show ?thesis using False assms(4) by (auto simp: chunks_of_def)
  qed
  moreover have "list_all (\<lambda>f. length (snd f) \<le> cap + seqHeaderLen) (turn_frames due res)" if "\<forall>off d. res = Inr (off, d) \<longrightarrow> length d \<le> cap"
    using that by (auto simp: turn_frames_def encodeOffset_def be64.enc_length split: option.split sum.split prod.split)
  ultimately show ?thesis unfolding carries_def by (simp add: seqs_of_turn_frames)
qed

lemma feed_carries:
  assumes "holds str r out" and "\<forall>(w, t) \<in> set xs. steady w t" and "cap > 0" and "length (str @ feed_written cap xs (r, out)) < 2 ^ 64"
    and "w_room w = None" and "feed_turns cap (map snd xs) (r, out) w = Returns (e, (r', out'), w')"
  shows "\<exists>fs. w_out w' = w_out w @ concat (map frame_bytes (fs @ feed_tail e)) \<and> carries cap (str @ feed_written cap xs (r, out)) fs \<and>
    holds (str @ feed_written cap xs (r, out)) r' out'"
  using assms(1,2,4-6)
proof (induction xs arbitrary: str r out w)
  case (Cons x xs)
  obtain v t where x: "x = (v, t)" by (cases x)
  obtain r0 out0 where before: "rt_before t (r, out) = (r0, out0)" by fastforce
  let ?w2 = "wait_writes cap r0 out0 (rt_wait t)" and ?all = "str @ feed_written cap (x # xs) (r, out)"
  have st: "steady v t" using Cons.prems(2) x by simp
  obtain res r1 out1 where no: "nextOut cap r0 (rt_meanwhile t) out0 (rt_wait t) = Returns (res, r1, out1)"
    using Cons.prems(5) before by (auto simp: x feed_turns.simps(2) split: outcome.splits)
  define more where "more = (if res = Inl EOF \<or> res = Inl ErrPipeInterrupted \<and> rt_ctxDone t \<or> rt_late t then []
      else feed_written cap xs (snd (takeAck (rt_then t r1)), out1))"
  have all: "?all = ((str @ v) @ ?w2) @ more" using before no by (simp add: x more_def)
  have len: "length ((str @ v) @ ?w2) < 2 ^ 64" "length (str @ v) < 2 ^ 64" using Cons.prems(3) unfolding all by simp_all
  have h0: "holds (str @ v) r0 out0" using st Cons.prems(1) len(2) before unfolding steady_def by (metis fst_conv snd_conv)
  have calm: "calm (rt_meanwhile t)" using st by (simp add: steady_def)
  note turn = feed_turn(2) [OF before no, where ts = "map snd xs" and w = w]
  note h1 = holds_nextOut(1) [OF h0 calm assms(3) len(1) no]
  define r2 where "r2 = snd (takeAck (rt_then t r1))"
  define due where "due = fst (takeAck (rt_then t r1))"
  have h2: "holds ((str @ v) @ ?w2) r2 out1" using h1 st holds_takeAck unfolding r2_def steady_def by blast
  have car: "carries cap ((str @ v) @ ?w2) (turn_frames due res)" by (rule carries_turn [OF h0 calm assms(3) len(1) no])
  have nil: "carries cap ((str @ v) @ ?w2) []" using len(1) by (simp add: carries_def chunks_of_def)
  note wt = write_turn_unlimited [OF Cons.prems(4), of due res]
  show ?case
  proof (cases "res = Inl EOF \<or> res = Inl ErrPipeInterrupted \<and> rt_ctxDone t")
    case True
    then have "more = []" by (auto simp: more_def)
    moreover have "r' = r1 \<and> out' = out1 \<and> w_out w' = w_out w @ concat (map frame_bytes (feed_tail e))"
      using True turn Cons.prems(4,5) by (auto simp: x writeFrame_unlimited)
    ultimately show ?thesis unfolding all using nil h1 by (intro exI [of _ "[]"]) simp
  next
    case False
    let ?w1 = "w\<lparr>w_out := w_out w @ concat (map frame_bytes (turn_frames due res))\<rparr>"
    have run: "feed_turns cap (map snd (x # xs)) (r, out) w =
        (if rt_late t then Returns (None, (r2, out1), snd (writeFrame ?w1 frameEnd [])) else feed_turns cap (map snd xs) (r2, out1) ?w1)"
      using turn False wt by (auto simp: x r2_def due_def)
    show ?thesis
    proof (cases "rt_late t")
      case True
      then have "more = []" by (simp add: more_def)
      moreover have "r' = r2 \<and> out' = out1 \<and> e = None \<and> w' = snd (writeFrame ?w1 frameEnd [])" using run True Cons.prems(5) by simp
      ultimately show ?thesis unfolding all using car h2 Cons.prems(4) by (intro exI [of _ "turn_frames due res"]) (simp add: writeFrame_unlimited)
    next
      case late: False
      then have m: "more = feed_written cap xs (r2, out1)" using False by (auto simp: more_def r2_def)
      have go: "feed_turns cap (map snd xs) (r2, out1) ?w1 = Returns (e, (r', out'), w')" using run late Cons.prems(5) by simp
      have "\<exists>gs. w_out w' = w_out ?w1 @ concat (map frame_bytes (gs @ feed_tail e)) \<and>
          carries cap (((str @ v) @ ?w2) @ feed_written cap xs (r2, out1)) gs \<and> holds (((str @ v) @ ?w2) @ feed_written cap xs (r2, out1)) r' out'"
        by (rule Cons.IH [OF h2 _ _ _ go]) (use Cons.prems(2-4) all m in simp_all)
      then obtain gs where gs: "w_out w' = w_out ?w1 @ concat (map frame_bytes (gs @ feed_tail e))"
          "carries cap (((str @ v) @ ?w2) @ more) gs" "holds (((str @ v) @ ?w2) @ more) r' out'" unfolding m by blast
      have "carries cap (((str @ v) @ ?w2) @ more) (turn_frames due res @ gs)"
        by (rule carries_append [OF car gs(2)]) (use Cons.prems(3) all in simp)
      then show ?thesis unfolding all using gs(1,3) by (intro exI [of _ "turn_frames due res @ gs"]) simp
    qed
  qed
qed simp

section \<open>Lemmas on resuming\<close>

lemma jitter_bounds:
  assumes "k < 2 ^ 53" and "0 \<le> d"
  shows "4 * d \<le> 5 * jitter k d + 4" and "5 * jitter k d \<le> 6 * d"
proof -
  have "8 * 2 ^ 53 * d \<le> d * (8 * 2 ^ 53 + 4 * int k)" using assms(2) by (simp add: algebra_simps)
  moreover have "d * (8 * 2 ^ 53 + 4 * int k) \<le> d * (12 * 2 ^ 53)" using assms by (intro mult_left_mono) simp_all
  ultimately show "4 * d \<le> 5 * jitter k d + 4" "5 * jitter k d \<le> 6 * d" unfolding jitter_def by simp_all
qed

text \<open>Attempts whose clock runs: the next one ends no sooner than the pause before it.\<close>

fun paced :: "duration \<Rightarrow> resume_attempt list \<Rightarrow> bool" where
  "paced b (a # a' # as) = (ra_rand a < 2 ^ 53 \<and> ra_now a + jitter (ra_rand a) b \<le> ra_now a' \<and> paced (next_wait b) (a' # as))"
| "paced b _ = True"

lemma paced_last:
  assumes "paced b (a # as)" and "250 * Millisecond \<le> b"
  shows "ra_now a + 200 * Millisecond * int (length as) \<le> ra_now (last (a # as))"
  using assms
proof (induction as arbitrary: a b)
  case (Cons a' as)
  have "250 * Millisecond \<le> next_wait b" using Cons.prems(2) by (simp add: next_wait_def)
  then have ih: "ra_now a' + 200 * Millisecond * int (length as) \<le> ra_now (last (a' # as))" using Cons.IH [of "next_wait b" a'] Cons.prems(1) by simp
  have "4 * b \<le> 5 * jitter (ra_rand a) b + 4" using jitter_bounds(1) [of "ra_rand a" b] Cons.prems by simp
  then have "200 * Millisecond \<le> jitter (ra_rand a) b" using Cons.prems(2) by linarith
  moreover have "ra_now a + jitter (ra_rand a) b \<le> ra_now a'" using Cons.prems(1) by simp
  ultimately show ?case using ih by simp
qed simp

lemma resume_loop_sleeps:
  assumes "resume_loop deadline b as c = Sleeps" and "as \<noteq> []"
  shows "ra_now (last as) \<le> deadline"
  using assms
proof (induction as arbitrary: b c)
  case (Cons a as)
  obtain e c1 where "try_resume a (ra_others a c) = Some (Again e, c1)" "ra_now a \<le> deadline"
      "resume_loop deadline (next_wait b) as c1 = Sleeps"
    using Cons.prems(1) by (auto split: option.splits prod.splits attempt.splits if_splits)
  then show ?case using Cons.IH by (cases as) auto
qed simp

lemma resume_loop_failed:
  assumes "resume_loop deadline b as c = Returns (res, c')" and "\<forall>a \<in> set as. \<forall>x. rc_failed (ra_others a x) = rc_failed x"
  shows "rc_failed c' = rc_failed c"
  using assms
proof (induction as arbitrary: b c)
  case (Cons a as)
  obtain x c1 where t: "try_resume a (ra_others a c) = Some (x, c1)" using Cons.prems(1) by (auto split: option.splits)
  then have "rc_failed c1 = rc_failed c"
    using Cons.prems(2) by (auto simp: try_resume_def Let_def split: sum.splits option.splits prod.splits bool.splits error.splits if_splits)
  then show ?case using Cons.prems t Cons.IH [of "next_wait b" c1] by (cases x) (auto split: if_splits)
qed simp

section \<open>Lemmas on the end of the supervisor\<close>

definition leaves_failed :: "supervise_turn \<Rightarrow> bool" where
  "leaves_failed t \<longleftrightarrow>
     (\<forall>x. rc_failed (su_others t x) = rc_failed x) \<and> (\<forall>a \<in> set (su_attempts t). \<forall>x. rc_failed (ra_others a x) = rc_failed x) \<and>
     (\<forall>x. rc_failed (su_after t x) = rc_failed x)"

text \<open>A connection whose supervisor has ended: somebody closed it, or its reader and its owner are told.\<close>

definition reported :: "resumableConn \<Rightarrow> bool" where
  "reported c \<longleftrightarrow> rc_done c \<or> p_closed (bc_in (rc_legs c)) \<and> (rc_failed c \<or> g_superseded (rc_guard c))"

lemma reported_ends: "\<not> rc_failed c \<Longrightarrow> reported (resumable_fail c)" "\<not> rc_failed c \<Longrightarrow> reported (resumable_onSessionClosed k c)"
  by (auto simp: reported_def resumable_fail_def resumable_onSessionClosed_def close_in_def Close_def supersededByNewerConnect_def supersede_def)

lemma runLegs_failed: "runLegs env c = Returns (e, c') \<Longrightarrow> rc_failed c' = rc_failed c"
  by (auto simp: runLegs_def split: outcome.splits if_splits)

lemma round_reports:
  assumes "supervise_round t g c = Returns r" and "\<not> rc_failed c" and "leaves_failed t"
  shows "case r of Over c' \<Rightarrow> reported c' | Next _ c' \<Rightarrow> \<not> rc_failed c'"
proof -
  obtain e c0 where legs: "runLegs (su_legs t) c = Returns (e, c0)"
    using assms(1) by (cases "runLegs (su_legs t) c") (auto simp: supervise_round_def)
  define c1 where "c1 = su_others t c0"
  have c1: "\<not> rc_failed c1" using runLegs_failed [OF legs] assms(2,3) by (simp add: c1_def leaves_failed_def)
  have "reported c1" if "rc_done c1" using that by (auto simp: reported_def)
  moreover have "case after_resume t b g res (su_after t c2) of Over c' \<Rightarrow> reported c' | Next _ c' \<Rightarrow> \<not> rc_failed c'"
    if res: "resume (su_now t) (su_attempts t) c1 = Returns (res, c2)" for b g res c2
  proof -
    have "\<not> rc_failed (su_after t c2)" using resume_loop_failed res c1 assms(3) by (auto simp: resume_def leaves_failed_def)
    then show ?thesis using reported_ends by (auto simp: after_resume_def reported_def split: option.split prod.split bool.split)
  qed
  ultimately show ?thesis using assms(1) legs reported_ends [OF c1]
    by (auto simp: supervise_round_def Let_def c1_def [symmetric] split: if_splits prod.splits bool.splits outcome.splits)
qed

section \<open>Lemmas on connecting and on the application\<close>

text \<open>A connection to a server with sound limits starts in a good state, as the active session, with the server's frame size.\<close>

lemma connectResumable_starts:
  assumes "cr = connect_response (withDefaults cfg) req ident meta" and "cfg_PollBufferSize (withDefaults cfg) < 2 ^ 63"
    and "connectResumable k cr dial = (Inr c, k')"
  shows "wf_legs 0 (rc_legs c) \<and> \<not> rc_done c \<and> \<not> rc_failed c \<and> isActiveSession (g_sessionID (rc_guard c)) k' \<and> g_sessionID (rc_guard c) = ident \<and>
    bc_maxFrame (rc_legs c) = cfg_PollBufferSize (withDefaults cfg) \<and> (rc_transport c = TransportWebSocket \<longrightarrow> rc_ws c)"
proof -
  have pos: "0 < cfg_MaxSendBytes (withDefaults cfg)" "0 < cfg_PollBufferSize (withDefaults cfg)" by (rule withDefaults_positive)+
  have lim: "MaxSendBytes (resp_Limits cr) = cfg_MaxSendBytes (withDefaults cfg)" "PollBufferBytes (resp_Limits cr) = cfg_PollBufferSize (withDefaults cfg)"
      "resp_SessionID cr = ident"
    by (simp_all add: assms(1) connect_response_def Let_def limits_def)
  let ?c = "newResumableConn k cr"
  have c: "bc_rl (rc_legs ?c) = newReliable (k_MaxReplayBytes k)" "bc_maxFrame (rc_legs ?c) = cfg_PollBufferSize (withDefaults cfg)"
      "0 < bc_maxSendChunk (rc_legs ?c)" "\<not> rc_done ?c" "\<not> rc_failed ?c" "g_sessionID (rc_guard ?c) = ident"
    using pos by (simp_all add: newResumableConn_def lim newSessionGuard_def orInt_def DefaultMaxSendChunk_def)
  have modes: "PollModeStream \<noteq> TransportWebSocket" "PollModeBatch \<noteq> TransportWebSocket"
    by (simp_all add: PollModeStream_def PollModeBatch_def TransportWebSocket_def)
  have "rel_inv (disableEagerAck (newReliable m))" "rel_inv (newReliable m)" "sendOffset (disableEagerAck (newReliable m)) = 0"
      "sendOffset (newReliable m) = 0" for m
    using rel_inv_newReliable [of m] by (simp_all add: rel_inv_def disableEagerAck_def newReliable_def)
  then have wf: "wf_legs 0 (rc_legs ?c)" "wf_legs 0 ((rc_legs ?c)\<lparr>bc_rl := disableEagerAck (bc_rl (rc_legs ?c))\<rparr>)"
    using assms(2) pos(2) c(1-3) by (simp_all add: wf_legs_def)
  have "isActiveSession ident (adoptSession ident k)" by (simp add: isActiveSession_def adoptSession_def)
  then show ?thesis
    using assms(3) wf c(2,4-6) modes lim(3) by (auto simp: connectResumable_def Let_def split: if_splits option.splits)
qed

text \<open>Every message of a server that sends frames of the negotiated size fits the limit of the client's reader.\<close>

lemma dialWS_limit_fits: "int (length d) \<le> bc_maxFrame c \<Longrightarrow> int (length (wsEncodeSeq off d)) \<le> dialWS_limit c"
  by (simp add: wsEncodeSeq_def dialWS_limit_def be64.enc_length seqHeaderLen_def)

text \<open>What a download leg does with a frame is among the things an upload leg is shown to bear.\<close>

lemma frames_calm:
  "calm_leg (\<lambda>c. case leg_ack p c of Some (_, c') \<Rightarrow> c' | None \<Rightarrow> c)"
  "length p < 2 ^ 64 \<Longrightarrow> calm_leg (\<lambda>c. case leg_seq p c of Some (_, c') \<Rightarrow> c' | None \<Rightarrow> c)"
proof -
  show "calm_leg (\<lambda>c. case leg_ack p c of Some (_, c') \<Rightarrow> c' | None \<Rightarrow> c)"
    unfolding calm_leg_def leg_ok_def
  proof (intro allI impI)
    fix B c assume "wf_legs B c"
    from leg_ack_goes [OF leg_goes_refl [OF this], of p] show "leg_goes B c (case leg_ack p c of Some (_, c') \<Rightarrow> c' | None \<Rightarrow> c)" by auto
  qed
  assume small: "length p < 2 ^ 64"
  show "calm_leg (\<lambda>c. case leg_seq p c of Some (_, c') \<Rightarrow> c' | None \<Rightarrow> c)"
    unfolding calm_leg_def leg_ok_def
  proof (intro allI impI)
    fix B c assume "wf_legs B c"
    from leg_seq_goes [OF leg_goes_refl [OF this] small] show "leg_goes B c (case leg_seq p c of Some (_, c') \<Rightarrow> c' | None \<Rightarrow> c)" by auto
  qed
qed


text \<open>The operations of the application are among the things the legs and the supervisor are shown to bear.\<close>

lemma application_ok:
  "conn_ok B (\<lambda>c. snd (resumable_Write p c))"
  "conn_ok B (\<lambda>c. case resumable_Read cap c sch of Some (_, c', _) \<Rightarrow> c' | None \<Rightarrow> c)"
  "conn_ok B finish \<Longrightarrow> conn_ok B (\<lambda>c. snd (resumable_Close finish c))"
proof -
  have pipes: "leg_goes B d (c\<lparr>bc_out := q\<rparr>)" "leg_goes B d (c\<lparr>bc_in := q\<rparr>)" if "leg_goes B d c" for c d q
    using that by (simp_all add: leg_goes_def wf_legs_def)
  show "conn_ok B (\<lambda>c. snd (resumable_Write p c))"
    by (simp add: conn_ok_def resumable_Write_def leg_goes_refl pipes split: prod.split)
  show "conn_ok B (\<lambda>c. case resumable_Read cap c sch of Some (_, c', _) \<Rightarrow> c' | None \<Rightarrow> c)"
    by (auto simp: conn_ok_def resumable_Read_def leg_goes_refl pipes split: option.split)
  assume "conn_ok B finish"
  then have "leg_goes B (rc_legs c) (rc_legs (finish (c\<lparr>rc_closed := True, rc_guard := g, rc_legs := (rc_legs c)\<lparr>bc_out := q\<rparr>\<rparr>)))"
    if "wf_legs B (rc_legs c)" for c g q
    using that conn_okD [of B finish "rc_legs c" "c\<lparr>rc_closed := True, rc_guard := g, rc_legs := (rc_legs c)\<lparr>bc_out := q\<rparr>\<rparr>"]
    by (simp add: pipes leg_goes_refl)
  then show "conn_ok B (\<lambda>c. snd (resumable_Close finish c))"
    by (simp add: conn_ok_def resumable_Close_def Let_def leg_goes_refl pipes)
qed


section \<open>Properties\<close>

lemma round_bytes_goes: "leg_goes B c d \<Longrightarrow> round_bytes d env = round_bytes c env"
  by (simp add: round_bytes_def leg_goes_def)

lemma rounds_ok_goes: "leg_goes B' c d \<Longrightarrow> rounds_ok B d ts = rounds_ok B c ts"
  by (induction ts arbitrary: B) (simp_all add: round_bytes_goes)

lemma supervise_safe:
  assumes "wf_legs B (rc_legs c)" and "rounds_ok B (rc_legs c) ts"
  shows "safely (\<lambda>c'. wf_legs (B + sum_list (map (\<lambda>t. round_bytes (rc_legs c) (su_legs t)) ts)) (rc_legs c')) (supervise_turns ts g c)"
  using assms
proof (induction ts arbitrary: B c g)
  case (Cons t ts)
  let ?C = "B + round_bytes (rc_legs c) (su_legs t)" and ?n = "sum_list (map (\<lambda>t. round_bytes (rc_legs c) (su_legs t)) ts)"
  have "round_ok ?C t" using Cons.prems(2) by simp
  note r = round_safe [OF Cons.prems(1) refl this, of g]
  have next_ok: "safely (\<lambda>c'. wf_legs (?C + ?n) (rc_legs c')) (supervise_turns ts g' c1)" if "leg_goes ?C (rc_legs c) (rc_legs c1)" for g' c1
    using Cons.IH [OF leg_goes_wf [OF that]] Cons.prems(2) by (simp add: rounds_ok_goes [OF that] round_bytes_goes [OF that])
  show ?case
  proof (cases "supervise_round t g c")
    case (Returns x)
    then show ?thesis using r next_ok wf_legs_mono [OF leg_goes_wf, of ?C _ _ "?C + ?n"] by (cases x) (simp_all add: add.assoc)
  qed (use r in simp_all)
qed simp

text \<open>
  C9: The client never breaks its own layer. Whatever the server and the network do and however
  the legs interleave with each other and with the application, no round of the supervisor panics,
  over any transport, and when it ends the reliable layer satisfies its invariant and no more bytes
  were numbered than the rounds could send.
\<close>

theorem supervise_keeps_layer:
  assumes "wf_legs B (rc_legs c)" and "rounds_ok B (rc_legs c) ts"
  shows "safely (\<lambda>c'. wf_legs (B + sum_list (map (\<lambda>t. round_bytes (rc_legs c) (su_legs t)) ts)) (rc_legs c')) (supervise ts c)"
  unfolding supervise_def by (rule supervise_safe [OF assms])

text \<open>
  C10: When the supervisor gives up on a session that can be resumed. In any run of rounds in which
  the transport fails, the session does not, and every handshake succeeds, it goes on exactly as
  long as there were not three responses in a row that timed out in their body with nothing
  received, nor five rounds in a row that lasted less than two seconds without progress; at the
  first such point it signals the failure.
\<close>

theorem supervise_gives_up:
  assumes "resumed_rounds ts c = Some obs"
  shows "if \<exists>n \<le> length obs. useless (take n obs)
    then \<exists>c'. supervise ts c = Returns (resumable_fail c') else supervise ts c = Sleeps"
proof -
  have "counts [] \<lparr>consecutiveFast = 0, consecutiveBodyTimeouts = 0\<rparr>" by (simp add: counts_def)
  moreover have "\<not> useless []" by (simp add: useless_def last_all_def maxConsecutiveBatchBodyTimeouts_def maxConsecutiveFastResumes_def)
  then have "(\<exists>n \<le> length obs. useless (take n obs)) \<longleftrightarrow> (\<exists>n. 0 < n \<and> n \<le> length obs \<and> useless ([] @ take n obs))"
    by (metis append_Nil gr0I take_eq_Nil)
  ultimately show ?thesis unfolding supervise_def using supervise_counts [OF assms] by metis
qed


text \<open>
  C7: A download leg takes exactly the next bytes of the server's stream, over any of the three
  transports. Let everything numbered that arrives be a part of one stream at its position, in any
  bodies, messages and batches, complete or cut, repeated, overlapping or missing, and anything
  else beside it. Then the leg does not panic, and whatever ends it, the application's side got the
  bytes from the received offset on, and the offset has moved by their number.
\<close>

theorem resumable_download_extends:
  assumes "rel_inv (bc_rl (rc_legs c))" and "honest_down str (bc_maxFrame (rc_legs c)) env"
  shows "safely (\<lambda>(e, d). \<exists>got. taken str (rc_legs c) d got) (down_leg c env)"
  by (rule safely_mono [OF down_leg_takes [OF assms]]) (auto simp: takes_def)

text \<open>What the feeder of an upload writes, cut off anywhere, carries nothing but parts of the stream.\<close>

lemma feed_parts:
  assumes "holds str r out" and "\<forall>(v, t) \<in> set xs. steady v t" and "0 < cap" and "cap + seqHeaderLen < 2 ^ 32"
    and "all = str @ feed_written cap xs (resetAck r, out)" and "length all < 2 ^ 64" and "w_room w = None" and "w_out w = []"
    and "resumable_feedSendStream cap (map snd xs) (r, out) w = Returns (e, (r', out'), w')" and "r_bytes body = take k (w_out w')"
  shows "holds all r' out' \<and> (\<forall>n. chunks_of all (seqs_of (fst (read_frames n (newFrameReader body maxSend)))))"
proof -
  have "holds str (resetAck r) out" using assms(1) by (auto simp: holds_def resetAck_def rel_inv_def)
  note car = feed_carries [OF this assms(2,3) assms(6) [unfolded assms(5)] assms(7) assms(9) [unfolded resumable_feedSendStream_def fst_conv snd_conv]]
  then obtain fs where fs: "w_out w' = concat (map frame_bytes (fs @ feed_tail e))" "carries cap all fs" "holds all r' out'"
    using assms(5,8) by auto
  have tail: "list_all (\<lambda>f. length (snd f) \<le> cap + seqHeaderLen) (fs @ feed_tail e)" "seqs_of (feed_tail e) = []"
    using fs(2) by (cases e; simp add: carries_def seq_of_def frame_type_defs)+
  have small: "list_all (\<lambda>f. length (snd f) < 2 ^ 32) (fs @ feed_tail e)"
    by (rule list.pred_mono_strong [OF tail(1)]) (use assms(4) in linarith)
  have "chunks_of all (seqs_of (fst (read_frames n (newFrameReader body maxSend))))" for n
  proof -
    obtain j where j: "fst (read_frames n (newFrameReader body maxSend)) = take j (fs @ feed_tail e)"
      using cut_frames [OF _ small, of "newFrameReader body maxSend" k n] assms(10) fs(1) by (auto simp: newFrameReader_def)
    have "seqs_of (take j (fs @ feed_tail e)) @ seqs_of (drop j (fs @ feed_tail e)) = seqs_of fs"
      using tail(2) by (metis append.right_neutral append_take_drop_id seqs_of_simps(3))
    then show ?thesis using fs(2) unfolding j carries_def by (metis chunks_of_append)
  qed
  then show ?thesis using fs(3) by blast
qed

lemma doSendStream_unprobed: "\<not> header_true (rq_header (doSendStream_request body)) HeaderSendStreamProbe" "rq_body (doSendStream_request body) = body"
  by (simp_all add: doSendStream_request_def header_true_def header_Get_def header_Set_def no_header_def header_names)

text \<open>
  C6: An upload leg's body adds exactly the next bytes of the client's stream to the session. Let
  the application have written \<open>str\<close> before and more while the feeder runs, and the server read any
  part of the request from the front. Then the handler does not panic, and whatever it answers,
  the session got the bytes from its received offset on, as the application wrote them; and what
  the client keeps is still what it needs to replay.
\<close>

theorem resumable_upload_arrives:
  assumes "holds str r out" and "\<forall>(v, t) \<in> set xs. steady v t" and "0 < cap" and "cap + seqHeaderLen < 2 ^ 32"
    and "all = str @ feed_written cap xs (resetAck r, out)" and "length all < 2 ^ 64" and "w_room w = None" and "w_out w = []"
    and "resumable_feedSendStream cap (map snd xs) (r, out) w = Returns (e, (r', out'), w')" and "r_bytes body = take k (w_out w')"
    and "s_rs s = Some q" and "rel_inv q" and "s_att s = Some a" and "\<forall>k. keeps_received (sn_others env k)"
  shows "holds all r' out' \<and> pollSendStream cfg (doSendStream_request body) att env s \<noteq> Panics \<and>
    (\<forall>st s'. pollSendStream cfg (doSendStream_request body) att env s = Returns (st, s') \<longrightarrow>
       (\<exists>got q'. s_rs s' = Some q' \<and> p_buf (toServer s') = p_buf (toServer s) @ got \<and>
          got = segment all (unat (recvOffset q)) (length got) \<and> unat (recvOffset q') = unat (recvOffset q) + length got))"
  using feed_parts [OF assms(1-10), of "cfg_MaxSendBytes cfg"] upload_received [OF assms(11-14) doSendStream_unprobed(1), of all body cfg att]
  by (simp add: doSendStream_unprobed(2))

text \<open>
  C8: The two ends of a resume agree. Let the session accept the handshake and the owners of both
  directions leave its layer as \<open>g r\<close>. The client's request is answered, and what the client makes
  of the answer is one of three things. If each end can replay from what the other has received,
  the client resumes, and both ends send on from exactly what the other has received, with nothing
  lost after it. If the server cannot, the client gets 409; if the client cannot, it gives up by
  itself. In neither case does it try again, and a session whose server could not is broken from then on.
\<close>

theorem resume_agrees:
  assumes "wf_server B sv" and "check cfg = None" and "Get ident sv = Some ref"
    and "s_rs (sess sv ref) = Some r" and "s_att (sess sv ref) = Some a" and "\<not> isBroken r" and "\<not> a_resuming a"
    and "\<not> refusesAttach (re_now env) (sess sv ref)" and "kickAll (kick_targets a) (re_kick env) = Some None"
    and "\<forall>x. length (heap (re_left env x)) = length (heap x) \<and> s_rs (sess (re_left env x) ref) = map_option g (s_rs (sess x ref)) \<and>
       (s_att (sess (re_left env x) ref) = None \<longleftrightarrow> s_att (sess x ref) = None)"
    and "rel_inv (g r)" and "re_end env = id"
    and "l = bc_rl (rc_legs c)" and "rel_inv l" and "rc_transport c \<noteq> TransportWebSocket \<or> ra_dial att = None" and "ra_others att = id"
    and "ResumeHandler cfg ident (Decoded (doResume_request c)) env sv = Returns (resp, sv')" and "ra_answer att = resume_answer resp"
  shows "\<exists>res c' r'. resume now (att # as) c = Returns (res, c') \<and> s_rs (sess sv' ref) = Some r' \<and>
    (if isBroken (g r) \<or> recvOffset l < ackedOffset (g r) \<or> recvOffset l > sendOffset (g r) then res = Some (ErrStatus 409) \<and> isBroken r'
     else if isBroken l \<or> recvOffset (g r) < ackedOffset l \<or> recvOffset (g r) > sendOffset l then res = Some ErrNotReplayable
     else res = None \<and> aligned l (bc_rl (rc_legs c')) r' \<and> aligned (g r) r' (bc_rl (rc_legs c')))"
proof -
  have req: "decode zero_ResumeRequest (Decoded (doResume_request c)) = Some (doResume_request c)"
      "rr_ProtocolVersion (doResume_request c) = ProtocolVersion" "recvOffset l = rr_RecvOffset (doResume_request c)"
    by (simp_all add: doResume_request_def recvOffsetNow_def assms(13))
  obtain r' where r': "s_rs (sess sv' ref) = Some r'" and
    ans: "if \<not> isBroken (g r) \<and> ackedOffset (g r) \<le> recvOffset l \<and> recvOffset l \<le> sendOffset (g r)
     then resp = writeJSON 200 (ResumeBody \<lparr>Resumed = True, RecvOffset = recvOffset (g r)\<rparr>) \<and> \<not> isBroken r' \<and> rel_inv r' \<and>
       sentCursor r' = recvOffset l \<and> ackedOffset r' = recvOffset l \<and> sendOffset r' = sendOffset (g r) \<and> recvOffset r' = recvOffset (g r) \<and>
       replay r' = drop (unat (recvOffset l) - unat (ackedOffset (g r))) (replay (g r))
     else resp = writeError 409 \<and> isBroken r'"
    using resume_result [OF assms(1-3) req(1,2) assms(4-12) req(3)] assms(17) by auto
  show ?thesis
  proof (cases "\<not> isBroken (g r) \<and> ackedOffset (g r) \<le> recvOffset l \<and> recvOffset l \<le> sendOffset (g r)")
    case False
    then have "doResume (ra_answer att) = Inl (ErrStatus 409)" using ans assms(18) by (auto simp: resume_answer_def doResume_def writeError_def writeJSON_def)
    then have "resume now (att # as) c = Returns (Some (ErrStatus 409), c)" using assms(16) by (simp add: resume_def try_resume_def)
    moreover have "isBroken r'" using ans False by auto
    ultimately show ?thesis using False r' by (auto simp: not_le)
  next
    case True
    then have d: "doResume (ra_answer att) = Inr (recvOffset (g r))"
      using ans assms(18) by (auto simp: resume_answer_def doResume_def writeJSON_def)
    from assms(14) show ?thesis
    proof (cases rule: resumeOut_cases [where n = "recvOffset (g r)"])
      case refused
      then have "\<exists>c'. resume now (att # as) c = Returns (Some ErrNotReplayable, c')" using d assms(13,16) by (simp add: resume_def try_resume_def)
      then show ?thesis using refused True r' by (auto simp: isBroken_def simp flip: not_le)
    next
      case rewinds
      let ?l = "l\<lparr>replay := drop (unat (recvOffset (g r)) - unat (ackedOffset l)) (replay l), ackedOffset := recvOffset (g r), sentCursor := recvOffset (g r)\<rparr>"
      have "\<exists>c'. resume now (att # as) c = Returns (None, c') \<and> bc_rl (rc_legs c') = ?l"
        using d rewinds(4) assms(13,15,16) by (auto simp: resume_def try_resume_def Let_def)
      moreover have "aligned l ?l r' \<and> aligned (g r) r' ?l" using ans True rewinds(1) by (simp add: aligned_def isBroken_def)
      ultimately show ?thesis using rewinds(1-3) True r' by (fastforce simp: isBroken_def)
    qed
  qed
qed

text \<open>
  C12: Resuming comes to an end. Let the clock run while the client pauses between its attempts.
  Then it returns after at most one attempt more than fit into the grace period at 200 milliseconds
  each, whatever the server and the network do, and the layer is in a good state.
\<close>

theorem resume_ends:
  assumes "wf_legs C (rc_legs c)" and "\<forall>a \<in> set as. conn_ok C (ra_others a)" and "paced (250 * Millisecond) as" and "now \<le> ra_now (hd as)"
    and "rc_resumeGrace c < 200 * Millisecond * (int (length as) - 1)" and "as \<noteq> []"
  shows "\<exists>res c'. resume now as c = Returns (res, c') \<and> wf_legs C (rc_legs c')"
proof -
  have safe: "safely (\<lambda>(res, c'). leg_goes C (rc_legs c) (rc_legs c')) (resume now as c)"
    unfolding resume_def by (rule resume_loop_safe [OF leg_goes_refl [OF assms(1)] assms(2)])
  have "resume now as c \<noteq> Sleeps"
  proof
    assume "resume now as c = Sleeps"
    then have "ra_now (last as) \<le> now + rc_resumeGrace c" using resume_loop_sleeps assms(6) by (simp add: resume_def)
    moreover obtain a rest where "as = a # rest" using assms(6) by (cases as) auto
    moreover have "ra_now a + 200 * Millisecond * int (length rest) \<le> ra_now (last as)" if "as = a # rest" for a rest
      using paced_last [of "250 * Millisecond" a rest] assms(3) that by simp
    ultimately show False using assms(4,5) by fastforce
  qed
  then show ?thesis using safe leg_goes_wf by (cases "resume now as c") auto
qed

section \<open>Witnesses\<close>

text \<open>
  A client that has sent two bytes, none of them acknowledged; legs that fail at once; and attempts
  to resume: the server has received nothing, it refuses, or it cannot be reached.
\<close>

definition sample_rc :: resumableConn where
  "sample_rc =
     \<lparr>rc_guard = newSessionGuard ''a'', rc_limits = resp_Limits (connect_response (withDefaults sample_config) sample_req ''a'' Map.empty),
      rc_legs = sample_conn\<lparr>bc_rl := rewindToAcked (bc_rl sample_conn)\<rparr>, rc_transport = PollModeBatch, rc_uploadStream = False,
      rc_resumeGrace = 100 * Millisecond, rc_ws = False, rc_failed = False, rc_closed = False\<rparr>"

definition sample_legs :: legs_env where
  "sample_legs =
     \<lparr>le_batchDown = [\<lparr>dt_others = id, dt_answer = Inl ErrNet, dt_slept = True, dt_ctxDone = False\<rparr>],
      le_batchUp = [\<lparr>ut_others = id, ut_wait = [], ut_meanwhile = id, ut_ctxDone = False, ut_answer = Inl ErrNet\<rparr>],
      le_down = [], le_up = [],
      le_reads = [\<lparr>rd_others = id, rd_msg = Inr (True, frameSeqData # encodeOffset 0 @ [5, 6])\<rparr>, \<lparr>rd_others = id, rd_msg = Inl ErrNet\<rparr>],
      le_writes = [], le_sock = \<lparr>ws_sent = [], ws_room = None\<rparr>, le_finish = id, le_downFirst = True\<rparr>"

definition sample_attempt :: "error + nat \<times> ResumeResponse decoded \<Rightarrow> instant \<Rightarrow> resume_attempt" where
  "sample_attempt answer now = \<lparr>ra_others = id, ra_answer = answer, ra_dial = None, ra_now = now, ra_rand = 0, ra_slept = True\<rparr>"

definition sample_round :: "error + nat \<times> ResumeResponse decoded \<Rightarrow> supervise_turn" where
  "sample_round answer =
     \<lparr>su_legs = sample_legs, su_duration = 0, su_others = id, su_now = 0, su_attempts = [sample_attempt answer 0], su_after = id,
      su_connector = sample_connector\<rparr>"

abbreviation sample_resumed :: "error + nat \<times> ResumeResponse decoded" where
  "sample_resumed \<equiv> Inr (200, Decoded \<lparr>Resumed = True, RecvOffset = 0\<rparr>)"

abbreviation sample_refused :: "error + nat \<times> ResumeResponse decoded" where
  "sample_refused \<equiv> Inr (409, Malformed)"

lemma sample_rc_simps [simp]:
  "rc_transport sample_rc = PollModeBatch" "\<not> rc_uploadStream sample_rc" "\<not> rc_failed sample_rc" "\<not> rc_closed sample_rc"
  "\<not> g_cancelled (rc_guard sample_rc)" "rc_resumeGrace sample_rc = 100 * Millisecond" "\<not> bc_pollStream (rc_legs sample_rc)"
  "bc_maxFrame (rc_legs sample_rc) = 8" "bc_maxSendChunk (rc_legs sample_rc) = 8" "bc_out (rc_legs sample_rc) = NewBufferedPipe"
  "bc_in (rc_legs sample_rc) = NewBufferedPipe"
  "bc_rl (rc_legs sample_rc) = (newReliable 0)\<lparr>sendOffset := 2, replay := [7, 8]\<rparr>"
  by (simp_all add: sample_rc_def sample_conn_def rewindToAcked_def newReliable_def newSessionGuard_def)

lemma sample_rc_wf: "wf_legs 2 (rc_legs sample_rc)"
  by (simp add: wf_legs_def rel_inv_def newReliable_def DefaultMaxReplayBytes_def)

lemma sample_modes [simp]: "PollModeBatch \<noteq> TransportWebSocket"
  by (simp add: PollModeBatch_def TransportWebSocket_def)

text \<open>The legs send the two bytes and fail; a resume takes the layer back to where it was.\<close>

lemma sample_runs:
  "runLegs sample_legs sample_rc =
     Returns (ErrNet, sample_rc\<lparr>rc_legs := (rc_legs sample_rc)\<lparr>bc_rl := (bc_rl (rc_legs sample_rc))\<lparr>sentCursor := 2\<rparr>\<rparr>\<rparr>)"
  by (simp add: runLegs_def down_leg_def up_leg_def sample_legs_def doBatchPoll_def batchUpLoop_def nextOut_def nextOut_replay_def resetAck_def
      newReliable_def slice_from_def takeAck_def doBatchSend_def Let_def)

lemma sample_resumes: "resumed_round (sample_round sample_resumed) sample_rc = Some ((False, True), sample_rc)"
  by (simp add: resumed_round_def sample_round_def sample_runs sample_attempt_def inconsistent_def isSessionClosedErr_def resume_def
      try_resume_def doResume_def resumeOut_def newReliable_def slice_from_def isBroken_def progress_def resumableLegsMinStable_def Let_def)

lemma sample_refuses:
  "\<exists>c. supervise [sample_round sample_refused] sample_rc = Returns c \<and> rc_failed c"
  by (simp add: supervise_def supervise_round_def sample_round_def sample_runs sample_attempt_def inconsistent_def isSessionClosedErr_def
      recordBodyTimeout_def resume_def try_resume_def doResume_def isBroken_def after_resume_def newReliable_def resumable_fail_def close_in_def Let_def)

theorem supervise_keeps_layer_witness:
  "\<exists>c'. supervise [sample_round sample_refused] sample_rc = Returns c' \<and> wf_legs 10 (rc_legs c')"
proof -
  have "rounds_ok 2 (rc_legs sample_rc) [sample_round sample_refused]"
    by (simp add: round_ok_def legs_ok_def round_bytes_def sample_round_def sample_legs_def sample_attempt_def leg_ok_def calm_leg_def conn_ok_def
        leg_goes_refl leaves_cursor_def encodeOffset_def be64.enc_length)
  from supervise_keeps_layer [OF sample_rc_wf this] sample_refuses show ?thesis
    by (auto simp: round_bytes_def sample_round_def sample_legs_def)
qed

theorem supervise_gives_up_witness:
  "(\<exists>c'. supervise (replicate 5 (sample_round sample_resumed)) sample_rc = Returns (resumable_fail c')) \<and>
   supervise (replicate 4 (sample_round sample_resumed)) sample_rc = Sleeps"
proof -
  have rounds: "resumed_rounds (replicate n (sample_round sample_resumed)) sample_rc = Some (replicate n (False, True))" for n
    by (induction n) (simp_all add: sample_resumes)
  have u: "useless (replicate n (False, True)) \<longleftrightarrow> 5 \<le> n" for n
    by (auto simp: useless_def last_all_def maxConsecutiveBatchBodyTimeouts_def maxConsecutiveFastResumes_def list_all_iff)
  have "\<exists>n \<le> length (replicate 5 (False, True)). useless (take n (replicate 5 (False, True)))" by (rule exI [of _ 5]) (simp add: u)
  moreover have "\<not> (\<exists>n \<le> length (replicate 4 (False, True)). useless (take n (replicate 4 (False, True))))" by (auto simp: u min_def)
  ultimately show ?thesis using supervise_gives_up [OF rounds, of 5] supervise_gives_up [OF rounds, of 4] by argo
qed


theorem resumable_download_extends_witness:
  "\<exists>e d got. down_leg (sample_rc\<lparr>rc_transport := TransportWebSocket\<rparr>) sample_legs = Returns (e, d) \<and> p_buf (bc_in d) = got \<and>
     got = segment [5, 6] 0 (length got) \<and> unat (recvOffset (bc_rl d)) = length got"
proof -
  let ?c = "sample_rc\<lparr>rc_transport := TransportWebSocket\<rparr>"
  have inv: "rel_inv (bc_rl (rc_legs ?c))" using sample_rc_wf by (simp add: wf_legs_def)
  have "chunks_of [5, 6] (seq_of (frameSeqData, encodeOffset 0 @ [5, 6]))"
    by (simp add: chunks_of_def seq_of_def splitSeq_encode segment_def)
  then have "honest_down [5, 6] (bc_maxFrame (rc_legs ?c)) sample_legs"
    by (simp add: honest_down_def sample_legs_def leg_keeps_def)
  note s = resumable_download_extends [OF inv this]
  obtain e1 d1 where "leg_seq (encodeOffset 0 @ [5, 6]) (rc_legs sample_rc) = Some (e1, d1)"
    using leg_seq_goes [OF leg_goes_refl [OF sample_rc_wf], of "encodeOffset 0 @ [5, 6]"] by (auto simp: encodeOffset_def be64.enc_length)
  then have "\<exists>e d. down_leg ?c sample_legs = Returns (e, d)"
    by (cases e1) (simp_all add: down_leg_def wsReadLoop_def sample_legs_def wsDecode_def ws_down_frame_def)
  then show ?thesis using s by (auto simp: taken_def newReliable_def NewBufferedPipe_def)
qed

theorem resumable_upload_arrives_witness:
  "\<exists>e st w st' s' got. resumable_feedSendStream 8 [sample_turn] (bc_rl (rc_legs sample_rc), NewBufferedPipe) \<lparr>w_out = [], w_room = None\<rparr> =
       Returns (e, st, w) \<and>
     pollSendStream (withDefaults sample_config) (doSendStream_request \<lparr>r_chunks = [w_out w], r_end = EOF\<rparr>) 0
       \<lparr>sn_attach = [], sn_others = (\<lambda>_. id)\<rparr> sample_session = Returns (st', s') \<and>
     p_buf (toServer s') = got \<and> got = segment [7, 8] 0 (length got)"
proof -
  let ?r = "bc_rl (rc_legs sample_rc)" and ?w = "\<lparr>w_out = [], w_room = None\<rparr>" and ?env = "\<lparr>sn_attach = [], sn_others = (\<lambda>_. id)\<rparr>"
  let ?xs = "[([] :: bytes, sample_turn)]" and ?cfg = "withDefaults sample_config"
  have inv: "rel_inv ?r" using sample_rc_wf by (simp only: wf_legs_def)
  have h: "holds [7, 8] ?r NewBufferedPipe" using inv by (simp add: holds_def NewBufferedPipe_def newReliable_def segment_def)
  have st: "\<forall>(v, t) \<in> set ?xs. steady v t" by (simp add: steady_def sample_turn_def calm_def same_send_def rel_inv_def)
  have n: "nextOut 8 (resetAck ?r) (\<lambda>r. r) NewBufferedPipe [] = Returns (Inr (0, [7, 8]), (resetAck ?r)\<lparr>sentCursor := 2\<rparr>, NewBufferedPipe)"
    by (simp add: nextOut_def nextOut_replay_def newReliable_def resetAck_def slice_from_def Let_def)
  have w: "[7, 8] = [7, 8] @ feed_written 8 ?xs (resetAck ?r, NewBufferedPipe)"
    using n by (simp add: sample_turn_def wait_writes_def nextOut_replay_def newReliable_def resetAck_def slice_from_def Let_def)
  obtain e r' out' w' where run: "resumable_feedSendStream 8 (map snd ?xs) (?r, NewBufferedPipe) ?w = Returns (e, (r', out'), w')"
    using n by (simp add: resumable_feedSendStream_def feed_turns.simps(2) sample_turn_def write_turn_unlimited case_prod_beta)
  let ?body = "\<lparr>r_chunks = [w_out w'], r_end = EOF\<rparr>"
  have body: "r_bytes ?body = take (length (w_out w')) (w_out w')" by (simp add: r_bytes_def)
  have small: "0 < (8 :: nat)" "8 + seqHeaderLen < 2 ^ 32" "length [7 :: byte, 8] < 2 ^ 64" "w_room ?w = None" "w_out ?w = []"
    by (simp_all add: seqHeaderLen_def)
  have s: "s_rs sample_session = Some (newReliable 0)" "s_att sample_session = Some newAttachments" "p_buf (toServer sample_session) = []"
      "unat (recvOffset (newReliable 0)) = 0"
    by (simp_all add: sample_session_def enableResume_def newSession_def NewBufferedPipe_def newReliable_def)
  have quiet: "\<forall>k. keeps_received (sn_others ?env k)" by (simp add: keeps_received_def)
  note parts = feed_parts [OF h st small(1,2) w small(3-5) run body, THEN conjunct2]
  have att: "attach attachUp 0 newAttachments [] = Some (None, newAttachments\<lparr>a_up := Some 0\<rparr>)"
    by (simp add: attach_def kinds_def attach_turn_def newAttachments_def slot_def set_slot_def)
  have s2: "s_rs (sample_session\<lparr>s_att := Some (newAttachments\<lparr>a_up := Some 0\<rparr>)\<rparr>) = Some (newReliable 0)" using s(1) by simp
  obtain st' s1 where "send_loop False True (sn_others ?env) 0 (newFrameReader ?body (cfg_MaxSendBytes ?cfg))
      (sample_session\<lparr>s_att := Some (newAttachments\<lparr>a_up := Some 0\<rparr>)\<rparr>) = Returns (st', s1)"
    using send_loop_received [OF quiet parts s2 rel_inv_newReliable, of 0] by blast
  then have poll: "pollSendStream ?cfg (doSendStream_request ?body) 0 ?env sample_session = Returns (st', detach_session 0 s1)"
    using s att doSendStream_unprobed by (simp add: pollSendStream_def Let_def)
  note up = resumable_upload_arrives [OF h st small(1,2) w small(3-5) run body s(1) rel_inv_newReliable s(2) quiet,
      THEN conjunct2, THEN conjunct2, rule_format, OF poll]
  then show ?thesis using run poll s(3,4) by auto
qed

theorem resume_agrees_witness:
  "\<exists>resp sv' c' r'. ResumeHandler sample_config ''a'' (Decoded (doResume_request sample_rc)) sample_resume sample_server = Returns (resp, sv') \<and>
     resume 0 [sample_attempt (resume_answer resp) 0] sample_rc = Returns (None, c') \<and> s_rs (sess sv' 0) = Some r' \<and>
     aligned (bc_rl (rc_legs sample_rc)) (bc_rl (rc_legs c')) r' \<and> aligned (newReliable 0) r' (bc_rl (rc_legs c'))"
proof -
  let ?r = "newReliable 0" and ?l = "bc_rl (rc_legs sample_rc)"
  have s: "Get ''a'' sample_server = Some 0" "s_rs (sess sample_server 0) = Some ?r" "s_att (sess sample_server 0) = Some newAttachments"
      "\<not> refusesAttach (re_now sample_resume) (sess sample_server 0)"
    by (simp_all add: Get_def sample_server_simps refusesAttach_def resumeExpiredLocked_def sample_resume_def)
  have r: "\<not> isBroken ?r" "\<not> a_resuming newAttachments" "kickAll (kick_targets newAttachments) (re_kick sample_resume) = Some None"
    by (simp_all add: isBroken_def newReliable_def newAttachments_def kick_targets_def)
  have env: "\<forall>x. length (heap (re_left sample_resume x)) = length (heap x) \<and>
      s_rs (sess (re_left sample_resume x) 0) = map_option id (s_rs (sess x 0)) \<and>
      (s_att (sess (re_left sample_resume x) 0) = None \<longleftrightarrow> s_att (sess x 0) = None)" "re_end sample_resume = id" "rel_inv (id ?r)"
    by (simp_all add: sample_resume_def option.map_id rel_inv_newReliable)
  have inv: "rel_inv ?l" using sample_rc_wf by (simp only: wf_legs_def)
  have req: "decode zero_ResumeRequest (Decoded (doResume_request sample_rc)) = Some (doResume_request sample_rc)"
      "rr_ProtocolVersion (doResume_request sample_rc) = ProtocolVersion"
    by (simp_all add: doResume_request_def)
  obtain resp sv' where run: "ResumeHandler sample_config ''a'' (Decoded (doResume_request sample_rc)) sample_resume sample_server = Returns (resp, sv')"
    using resume_result [OF sample_server_wf sample_config_checks s(1) req s(2,3) r(1,2) s(4) r(3) env(1,3,2) refl] by blast
  let ?a = "sample_attempt (resume_answer resp) 0"
  have att: "rc_transport sample_rc \<noteq> TransportWebSocket \<or> ra_dial ?a = None" "ra_others ?a = id" "ra_answer ?a = resume_answer resp"
    by (simp_all add: sample_attempt_def)
  show ?thesis
    using resume_agrees [OF sample_server_wf sample_config_checks s(1-3) r(1,2) s(4) r(3) env(1,3,2) refl inv att(1,2) run att(3), of 0 "[]"] run
    by (simp add: isBroken_def newReliable_def) blast
qed

theorem resume_ends_witness:
  "\<exists>res c'. resume 0 [sample_attempt (Inl ErrNet) 0, sample_attempt (Inl ErrNet) (200 * Millisecond)] sample_rc = Returns (res, c') \<and> wf_legs 2 (rc_legs c')"
proof -
  let ?as = "[sample_attempt (Inl ErrNet) 0, sample_attempt (Inl ErrNet) (200 * Millisecond)]"
  have as: "\<forall>a \<in> set ?as. conn_ok 2 (ra_others a)" "paced (250 * Millisecond) ?as" "0 \<le> ra_now (hd ?as)" "?as \<noteq> []"
      "rc_resumeGrace sample_rc < 200 * Millisecond * (int (length ?as) - 1)"
    by (simp_all add: sample_attempt_def conn_ok_def leg_goes_refl jitter_def duration_constants)
  show ?thesis by (rule resume_ends [OF sample_rc_wf as(1-3,5,4)])
qed

end
