(* ===== verification/Yamux.thy ===== *)
theory Yamux
  imports Protocol
begin

text \<open>
  \<^verbatim>\<open>yamux.go\<close>: the configuration of the multiplexer that runs on top of a connection. The
  multiplexer is a package of its own: its default configuration, its check of a configuration and
  its two constructors are parameters. Only the settings the code touches are fields; \<open>'a\<close> stands
  for all the others.

  The lemmas show that the settings leave all others as they are and meet the multiplexer's
  conditions on them, so both ends get a session whenever the defaults are acceptable, and never
  one with the keepalive that takes a slow poll for a dead peer.
\<close>

section \<open>The configuration\<close>

datatype log_writer = Discard | Stderr

record yamux_Config =
  EnableKeepAlive :: bool
  KeepAliveInterval :: duration
  StreamWindowSize :: "32 word"
  LogOutput :: "log_writer option"
  Logger :: "log_writer option"

definition YamuxConfig :: "'a yamux_Config_scheme \<Rightarrow> 'a yamux_Config_scheme" where
  "YamuxConfig DefaultConfig =
     DefaultConfig\<lparr>EnableKeepAlive := False, KeepAliveInterval := 30 * Second, StreamWindowSize := of_int MaxStreamWindowSize,
       LogOutput := Some Discard, Logger := None\<rparr>"

definition ClientSession :: "('conn \<Rightarrow> 'a yamux_Config_scheme \<Rightarrow> error + 'session) \<Rightarrow> 'a yamux_Config_scheme \<Rightarrow> 'conn \<Rightarrow> error + 'session" where
  "ClientSession Client DefaultConfig conn = Client conn (YamuxConfig DefaultConfig)"

definition ServerSession :: "('conn \<Rightarrow> 'a yamux_Config_scheme \<Rightarrow> error + 'session) \<Rightarrow> 'a yamux_Config_scheme \<Rightarrow> 'conn \<Rightarrow> error + 'session" where
  "ServerSession Server DefaultConfig conn = Server conn (YamuxConfig DefaultConfig)"

section \<open>Properties\<close>

text \<open>
  The conditions the multiplexer documents for these settings: a positive interval, a window of at
  least 256 KiB, and one of the two ways to log.
\<close>

definition settings_ok :: "'a yamux_Config_scheme \<Rightarrow> bool" where
  "settings_ok cfg \<longleftrightarrow>
     KeepAliveInterval cfg > 0 \<and> 262144 \<le> unat (StreamWindowSize cfg) \<and> (LogOutput cfg = None) \<noteq> (Logger cfg = None)"

lemma YamuxConfig_ok: "settings_ok (YamuxConfig d)" "\<not> EnableKeepAlive (YamuxConfig d)" "yamux_Config.more (YamuxConfig d) = yamux_Config.more d"
  by (simp_all add: settings_ok_def YamuxConfig_def MaxStreamWindowSize_def duration_constants)

text \<open>The window is the smallest the multiplexer accepts.\<close>

lemma window_smallest: "StreamWindowSize cfg < of_int MaxStreamWindowSize \<Longrightarrow> \<not> settings_ok cfg"
  by (simp add: settings_ok_def MaxStreamWindowSize_def word_less_nat_alt)

text \<open>
  Let a constructor fail only when the check does, and the check look at these settings and, apart
  from them, at the rest. Then defaults with an acceptable rest give a session on any connection.
\<close>

lemma session_built:
  assumes "\<forall>conn cfg. verify cfg \<longrightarrow> (\<exists>s. new conn cfg = Inr s)" and "\<forall>cfg. verify cfg \<longleftrightarrow> settings_ok cfg \<and> rest (yamux_Config.more cfg)"
    and "rest (yamux_Config.more d)"
  shows "(\<exists>s. ClientSession new d conn = Inr s) \<and> (\<exists>s. ServerSession new d conn = Inr s)"
  using assms YamuxConfig_ok [of d] by (simp add: ClientSession_def ServerSession_def)

end
