(* ===== verification/Spec2Isabelle.thy ===== *)
theory Spec2Isabelle
  imports Link ResumableClient Yamux
begin

text \<open>
  A verification development for pollmux, a Go library that carries a yamux session over finite
  HTTP requests, streamed HTTP bodies or a WebSocket, and can resume the session after the
  transport failed. File names below are those of \<^verbatim>\<open>src/\<close>.

  \<^bold>\<open>The program.\<close> A server keeps sessions in a store. A session is two in-memory pipes, one for each
  direction, and, if it can be resumed, a reliable layer that numbers the bytes of both directions and
  keeps what the peer has not acknowledged. HTTP handlers attach to a session for the time of a
  request and move bytes between its pipes and the wire; a sweeper evicts sessions whose client
  is gone. A client connects, negotiates a mode and a transport, and runs the loops at the other
  end. A plain connection ends with its transport. A resumable one has a supervisor that runs one
  set of loops, its legs, after another and performs a handshake in between, in which both ends
  say what they have received and go back to it.

  \<^bold>\<open>Theories.\<close> Each imports the components it calls.
    \<^item> \<open>Pollmux_Prelude\<close>: machine types, errors, slices that panic out of range, big-endian integers,
      reachability.
    \<^item> \<open>Pipe\<close> (\<^verbatim>\<open>pipe.go\<close>): the pipe as a record, each method a function on it. A wait takes a schedule, a
      list of what other goroutines and the timer do at each wake-up.
    \<^item> \<open>Frame\<close> (\<^verbatim>\<open>frame.go\<close>): frames, writers that may fail after any byte, a reader of a body in chunks.
    \<^item> \<open>Protocol\<close> (\<^verbatim>\<open>protocol.go\<close>, the configuration in \<^verbatim>\<open>handler.go\<close>): constants, requests and responses,
      limits and their validation, defaults, the wiring check, negotiation.
    \<^item> \<open>Reliable\<close> (\<^verbatim>\<open>reliable.go\<close>): the layer with 64-bit offsets; \<open>nextOut\<close> is its two locked sections
      around the wait.
    \<^item> \<open>Attachments\<close> (\<open>attachments\<close> in \<^verbatim>\<open>resume_server.go\<close>): who owns which direction, also as a step
      relation of all handlers and one handshake.
    \<^item> \<open>Session\<close> and \<open>Store\<close> (\<^verbatim>\<open>session.go\<close>, \<^verbatim>\<open>store.go\<close>, closing in \<^verbatim>\<open>handler.go\<close>): the session record, and
      the store as a heap of sessions with a map of ids, so that a session removed from the map still
      has a state.
    \<^item> \<open>Http\<close>, \<open>Stream\<close>, \<open>Batch\<close>, \<open>Handler\<close>, \<open>Serving\<close> (\<^verbatim>\<open>handler.go\<close>, \<^verbatim>\<open>batch.go\<close>, \<open>ResumeHandler\<close> in
      \<^verbatim>\<open>resume_server.go\<close>): headers, streamed and batched polls and uploads, the four handlers. \<open>Batch\<close>
      also has the two loops of the client for resumable batches.
    \<^item> \<open>Reconnect\<close> (\<^verbatim>\<open>reconnect.go\<close>, \<^verbatim>\<open>accept.go\<close>): the loops around a connection.
    \<^item> \<open>Client\<close> (\<^verbatim>\<open>client.go\<close>, \<^verbatim>\<open>session_guard.go\<close>): connecting and the plain HTTP connection.
    \<^item> \<open>WebSocket\<close> (\<^verbatim>\<open>websocket.go\<close>): messages, the handler with its pumps, the plain connection.
    \<^item> \<open>ResumableClient\<close> (\<^verbatim>\<open>resumable_client.go\<close>): the legs over all transports, the handshake, the
      supervisor.
    \<^item> \<open>Yamux\<close> (\<^verbatim>\<open>yamux.go\<close>): the settings of the multiplexer.
    \<^item> \<open>Link\<close>: one direction of a resumable session from end to end, as a step relation of the layer and
      the pipes of both ends with a transport that may lose its contents at any byte.

  \<^bold>\<open>Correspondence.\<close> Definitions have the names of the functions they model; a method whose name occurs
  for several types has the type in front. State is passed explicitly. An error is a value of
  \<open>error\<close>; its text is not modelled. A panic is \<open>None\<close>, or \<open>Panics\<close> where a function may also wait:
  the type \<open>outcome\<close> has \<open>Sleeps\<close> for a call that is still waiting when what it was told of its
  environment is used up. A loop takes one record per turn with what that turn meets: the answer of
  a request, the timer, the state of a context, and a function for what other goroutines do to the
  shared state meanwhile. The theorems are about all such lists, so about runs of any length,
  and about every interleaving their hypotheses on these functions admit. Two loops that run at
  the same time each have their own view of the other, and the state that remains is the one seen by
  the loop that ends last. Durations and times are integers (nanoseconds), offsets are 64-bit
  words that wrap; where a theorem needs that they do not wrap it says so with a bound on the bytes
  ever sent.

  \<^bold>\<open>What is shown.\<close>
    \<^item> The stream. In every state of \<open>Link\<close> the receiver has exactly the first bytes the sender wrote; there is
      never a gap in what is under way; a resume at the receiver's offset is accepted unless the layer was
      given up, and a working transport then delivers everything. The handlers and the legs do what
      \<open>Link\<close> allows them: uploads and downloads over every transport extend the stream by exactly
      the next bytes, whatever is cut, repeated or mixed in, and sending continues the numbering.
    \<^item> The handshake. Both ends of a resume agree on where to go on, or one refuses for good; nobody is
      attached while it runs; a direction has one owner; resuming ends.
    \<^item> The server. No handler panics, each keeps every session well-formed, with the answers on every
      branch; sweeps evict exactly what they should, the cap holds, a session is reported at most once.
    \<^item> The client. What it connects to agrees with what the server registered; connecting settles in two
      negotiations; plain uploads and downloads arrive in order; the reconnect loop ends exactly
      when it must; the supervisor keeps the layer intact, gives up exactly on useless resumes, and
      never ends silently.
    \<^item> The codecs and pipes. Frames and offsets survive the trip in any chunking, where a cut
      stream is reported as what, the pipe is a queue under every schedule.

  \<^bold>\<open>Interfaces.\<close> Locales state what a proof relies on, and each is interpreted on the model's own
  definitions: \<open>fixed_codec\<close> (an encoding of fixed width and its inverse; 32 and 64 bits), \<open>byte_queue\<close> (what
  calls put in and take out; the pipe), \<open>inductive_invariant\<close> (a step relation and what it preserves;
  the attached handlers, the link), \<open>frame_steps\<close> and \<open>any_frame\<close> (the switch of a reader on a frame and what
  it preserves; the server's pump and the readers of the client's legs, once for the state of the
  layer and once for the bytes received).

  \<^bold>\<open>Bounds.\<close> There is no fuel: every loop recurses on the list of its turns, or, when it reads frames, on
  what is left of the body. Where it matters that a loop comes to an end it is proved from the turns it is given.

  \<^bold>\<open>Not modelled.\<close> Log lines and the texts of errors, because nothing depends on them. The
  authorization and health headers of the client's requests; on the server the hooks that judge a request are
  arguments. Timeouts and connection pools of \<^verbatim>\<open>http.Client\<close> and \<^verbatim>\<open>newTransport\<close>: an exchange is an answer or an
  error at any point. The WebSocket library, \<^verbatim>\<open>encoding/json\<close> and yamux are packages of their own: a
  socket is a list of read results and a writer that may fail, a JSON body is given decoded or malformed, a
  yamux session is what \<open>AcceptLoop\<close> sees of it. The DELETE a \<open>Close\<close> sends is a result, not an
  exchange. The ticker of \<open>StartSweeper\<close> only calls \<open>sweep\<close>, which is modelled for any time and state.
  The accessors that only return a field (\<open>SessionID\<close>, \<open>Limits\<close>, \<open>Meta\<close>) have the field itself as
  their model. The jitter of a pause is computed without the rounding of floating-point numbers.
\<close>

end
